(* ===== verification/Prelude.thy ===== *)
theory Prelude
  imports Main "HOL-Library.Word"
begin

text \<open>
  Shared vocabulary of the development: bytes and their big-endian encoding, decimal
  rendering as Go's \<^verbatim>\<open>%d\<close> verb does it, total correctness of loops that may not end, and the
  generic list lemmas that the index-driven loops of the source need.  The collection
  \<open>stream_simps\<close> gathers the facts about offsets and slices of an instruction stream that component
  proofs pass to the simplifier.
\<close>

named_theorems stream_simps \<open>offsets and slices of byte streams\<close>

type_synonym byte = "8 word"
type_synonym bytes = "byte list"

section \<open>Bytes\<close>

abbreviation byte_of_nat :: "nat \<Rightarrow> byte" where
  "byte_of_nat n \<equiv> of_nat n"

text \<open>\<^verbatim>\<open>binary.BigEndian.PutUint16\<close> and \<^verbatim>\<open>Uint16\<close> of Go's standard library.\<close>

definition put_be16 :: "nat \<Rightarrow> bytes" where
  "put_be16 n = [byte_of_nat (n div 256), byte_of_nat n]"

definition get_be16 :: "byte \<Rightarrow> byte \<Rightarrow> nat" where
  "get_be16 hi lo = unat hi * 256 + unat lo"

lemma length_put_be16 [simp]: "length (put_be16 n) = 2"
  by (simp add: put_be16_def)

lemma unat_byte_of_nat [simp]: "unat (byte_of_nat n) = n mod 256"
  by (simp add: unat_of_nat)

lemma unat_byte_less [simp]: "unat (b :: byte) < 256"
  using unsigned_less [of b] by simp

lemma get_put_be16 [simp]:
  "n < 65536 \<Longrightarrow> get_be16 (byte_of_nat (n div 256)) (byte_of_nat n) = n"
  by (simp add: get_be16_def)

lemma get_be16_less [simp]: "get_be16 hi lo < 65536"
proof -
  have "unat hi \<le> 255" "unat lo \<le> 255"
    using unat_byte_less [of hi] unat_byte_less [of lo] by linarith+
  then show ?thesis by (simp add: get_be16_def)
qed

lemma put_get_be16 [simp]: "put_be16 (get_be16 hi lo) = [hi, lo]"
proof -
  have "(unat hi * 256 + unat lo) div 256 = unat hi"
    using unat_byte_less [of lo] by simp
  moreover have "byte_of_nat (unat hi * 256 + unat lo) = lo"
  proof -
    have "unat (byte_of_nat (unat hi * 256 + unat lo)) = unat lo"
      using unat_byte_less [of lo] by (simp only: unat_byte_of_nat) simp
    then show ?thesis by (simp only: word_unat_eq_iff)
  qed
  ultimately show ?thesis by (simp add: put_be16_def get_be16_def)
qed

section \<open>Machine integers\<close>

text \<open>
  Go's \<^verbatim>\<open>int\<close> and \<^verbatim>\<open>int64\<close> are two's complement 64-bit integers on the platforms the
  program is built for.  They are modelled as \<^typ>\<open>int\<close> with the wrap-around written out
  wherever a result may leave the range.
\<close>

definition int64 :: "int \<Rightarrow> bool" where
  "int64 x \<longleftrightarrow> - (2 ^ 63) \<le> x \<and> x < 2 ^ 63"

definition wrap64 :: "int \<Rightarrow> int" where
  "wrap64 x = (x + 2 ^ 63) mod 2 ^ 64 - 2 ^ 63"

lemma wrap64_id [simp]: "int64 x \<Longrightarrow> wrap64 x = x"
  by (simp add: int64_def wrap64_def)

lemma int64_wrap64 [simp]: "int64 (wrap64 x)"
  using pos_mod_bound [of "2 ^ 64" "x + 2 ^ 63"] pos_mod_sign [of "2 ^ 64" "x + 2 ^ 63"]
  by (simp add: int64_def wrap64_def)

lemma wrap64_add_wrap64 [simp]: "wrap64 (a + wrap64 b) = wrap64 (a + b)"
proof -
  have "a + ((b + 2 ^ 63) mod 2 ^ 64 - 2 ^ 63) + 2 ^ 63 = a + (b + 2 ^ 63) mod 2 ^ 64" by simp
  moreover have "(a + (b + 2 ^ 63) mod 2 ^ 64) mod 2 ^ 64 = (a + b + 2 ^ 63) mod (2 ^ 64 :: int)"
    by (simp only: mod_add_right_eq add.assoc)
  ultimately show ?thesis by (simp only: wrap64_def)
qed

lemma wrap64_cong: "a mod 2 ^ 64 = b mod 2 ^ 64 \<Longrightarrow> wrap64 a = wrap64 b"
  unfolding wrap64_def by (metis mod_add_left_eq)

lemma int_le_div: "0 < q \<Longrightarrow> n * q \<le> (m :: int) \<Longrightarrow> n \<le> m div q"
  using zdiv_mono1 [of "n * q" m q] by simp

lemma int_div_less: "0 < q \<Longrightarrow> (m :: int) < n * q \<Longrightarrow> m div q < n"
proof (rule ccontr)
  assume q: "0 < q" "m < n * q" and "\<not> m div q < n"
  then have "n * q \<le> m div q * q" by (simp add: mult_right_mono)
  also have "\<dots> \<le> m" using q(1) pos_mod_sign [of q m] by (simp add: div_mult_mod_eq flip: minus_mod_eq_div_mult)
  finally show False using q by simp
qed

lemma int_div_bounds:
  assumes "0 < (q :: int)"
  shows "m div q * q \<le> m" "m < (m div q + 1) * q"
  using pos_mod_bound [OF assms, of m] pos_mod_sign [OF assms, of m] div_mult_mod_eq [of m q]
  by (simp_all only: distrib_right mult_1)

lemma int64_0 [simp]: "int64 0"
  by (simp add: int64_def)

section \<open>Decimal rendering\<close>

fun dec_nat :: "nat \<Rightarrow> string" where
  "dec_nat n =
     (if n < 10 then [char_of (48 + n)] else dec_nat (n div 10) @ [char_of (48 + n mod 10)])"

declare dec_nat.simps [simp del]

definition dec_int :: "int \<Rightarrow> string" where
  "dec_int i = (if i < 0 then ''-'' @ dec_nat (nat (- i)) else dec_nat (nat i))"

text \<open>\<^verbatim>\<open>%04d\<close> pads with zeros on the left to width four.\<close>

definition dec_nat4 :: "nat \<Rightarrow> string" where
  "dec_nat4 n = replicate (4 - length (dec_nat n)) (CHR ''0'') @ dec_nat n"

section \<open>Computations that return\<close>

text \<open>
  A loop that may run forever is a partial function into \<^typ>\<open>'a option\<close>, where None is a run that
  never ends.  \<open>returns m Q\<close> is total correctness: the computation ends, with a result that satisfies
  \<open>Q\<close>.
\<close>

definition returns :: "'a option \<Rightarrow> ('a \<Rightarrow> bool) \<Rightarrow> bool" where
  "returns m Q \<longleftrightarrow> (\<exists>r. m = Some r \<and> Q r)"

lemma returns_Some [simp]: "returns (Some r) Q \<longleftrightarrow> Q r"
  by (simp add: returns_def)

lemma returns_bind [simp]: "returns (Option.bind m f) Q \<longleftrightarrow> returns m (\<lambda>r. returns (f r) Q)"
  by (cases m) (simp_all add: returns_def)

lemma returns_mono: "returns m P \<Longrightarrow> (\<And>r. P r \<Longrightarrow> Q r) \<Longrightarrow> returns m Q"
  by (auto simp: returns_def)

section \<open>Slices and updates\<close>

lemma drop_eq_Cons_nth [stream_simps]:
  "i < length xs \<Longrightarrow> drop i xs = xs ! i # drop (Suc i) xs"
  by (rule Cons_nth_drop_Suc [symmetric])

lemma drop_ConsD:
  assumes "drop i xs = y # ys"
  shows "i < length xs" and "xs ! i = y" and "drop (Suc i) xs = ys"
proof -
  show i: "i < length xs" using assms by (cases "i < length xs") auto
  show "xs ! i = y" using assms by (rule nth_via_drop)
  show "drop (Suc i) xs = ys" using assms i by (simp add: drop_eq_Cons_nth)
qed

lemma drop_list_update_le [simp]:
  "i < n \<Longrightarrow> drop n (xs[i := v]) = drop n xs"
  by simp

lemma take_Suc_list_update:
  "i < length xs \<Longrightarrow> take (Suc i) (xs[i := v]) = take i xs @ [v]"
  by (simp add: take_Suc_conv_app_nth)

lemma take_add_drop:
  "take (i + n) xs = take i xs @ take n (drop i xs)"
  by (rule take_add)

lemma sum_list_take_le:
  "sum_list (take k ws) \<le> sum_list (ws :: nat list)"
proof -
  have "sum_list ws = sum_list (take k ws) + sum_list (drop k ws)"
    by (metis append_take_drop_id sum_list_append)
  then show ?thesis by simp
qed

lemma map_option_eq_SomeE:
  assumes "map_option f x = Some y"
  obtains a where "x = Some a" and "y = f a"
  using assms by auto

end
