(* ===== verification/Bytecode.thy ===== *)
theory Bytecode
  imports Prelude
begin

text \<open>
  The instruction set and its encoding, from \<^verbatim>\<open>src/code/code.go\<close>: the opcodes in
  their numeric order, the operand widths, the encoder \<^verbatim>\<open>Make\<close> with its
  panic on an operand that does not fit, the decoder \<^verbatim>\<open>ReadOperands\<close>, the
  disassembler \<^verbatim>\<open>Instructions.String\<close>, and the two operand classifications the
  rewriting passes rely on.

  The function \<open>chunks\<close> is the reference view of a stream: the list of its
  instructions, each an opcode byte followed by its operand bytes.  The
  loops of the source that walk a stream by an offset are shown to follow it.
\<close>

section \<open>Opcodes\<close>

datatype (plugins only: code size) opcode =
    OpConstant | OpPop | OpAdd | OpSub | OpMul | OpDiv | OpMod | OpTrue | OpFalse
  | OpEqual | OpUnEqual | OpGreater | OpMinus | OpBang | OpJumpFalse | OpJump | OpNull
  | OpGetGlobal | OpSetGlobal | OpGetLocal | OpSetLocal | OpArray | OpHash | OpIndex
  | OpCall | OpReturnValue | OpReturn | OpMultiValue | OpDup | OpDestructure
  | OpGetBuiltin | OpClosure | OpGetFree | OpCurrentClosure | OpChkDbg | OpChkSnd
  | OpBreak | OpContinue | OpMakeStruct | OpGetField | OpSetField | OpEnumValue
  | OpGreaterEqual | OpSetIndex
  | OpBitAnd | OpBitOr | OpBitXor | OpBitNot | OpShiftLeft | OpShiftRight
  | OpGetLocalCell | OpSetLocalCell | OpCaptureLocal | OpCaptureFree | OpSetFree
  | OpConcat | OpIterInit | OpIterNext | OpMatchFail | OpLess | OpLessEqual

text \<open>The constants in the order \<^verbatim>\<open>iota\<close> numbers them.\<close>

definition opcodes :: "opcode list" where
  "opcodes =
    [OpConstant, OpPop, OpAdd, OpSub, OpMul, OpDiv, OpMod, OpTrue, OpFalse,
     OpEqual, OpUnEqual, OpGreater, OpMinus, OpBang, OpJumpFalse, OpJump, OpNull,
     OpGetGlobal, OpSetGlobal, OpGetLocal, OpSetLocal, OpArray, OpHash, OpIndex,
     OpCall, OpReturnValue, OpReturn, OpMultiValue, OpDup, OpDestructure,
     OpGetBuiltin, OpClosure, OpGetFree, OpCurrentClosure, OpChkDbg, OpChkSnd,
     OpBreak, OpContinue, OpMakeStruct, OpGetField, OpSetField, OpEnumValue,
     OpGreaterEqual, OpSetIndex,
     OpBitAnd, OpBitOr, OpBitXor, OpBitNot, OpShiftLeft, OpShiftRight,
     OpGetLocalCell, OpSetLocalCell, OpCaptureLocal, OpCaptureFree, OpSetFree,
     OpConcat, OpIterInit, OpIterNext, OpMatchFail, OpLess, OpLessEqual]"

primrec opcode_num :: "opcode \<Rightarrow> nat" where
  "opcode_num OpConstant = 0" | "opcode_num OpPop = 1" | "opcode_num OpAdd = 2"
| "opcode_num OpSub = 3" | "opcode_num OpMul = 4" | "opcode_num OpDiv = 5"
| "opcode_num OpMod = 6" | "opcode_num OpTrue = 7" | "opcode_num OpFalse = 8"
| "opcode_num OpEqual = 9" | "opcode_num OpUnEqual = 10" | "opcode_num OpGreater = 11"
| "opcode_num OpMinus = 12" | "opcode_num OpBang = 13" | "opcode_num OpJumpFalse = 14"
| "opcode_num OpJump = 15" | "opcode_num OpNull = 16" | "opcode_num OpGetGlobal = 17"
| "opcode_num OpSetGlobal = 18" | "opcode_num OpGetLocal = 19" | "opcode_num OpSetLocal = 20"
| "opcode_num OpArray = 21" | "opcode_num OpHash = 22" | "opcode_num OpIndex = 23"
| "opcode_num OpCall = 24" | "opcode_num OpReturnValue = 25" | "opcode_num OpReturn = 26"
| "opcode_num OpMultiValue = 27" | "opcode_num OpDup = 28" | "opcode_num OpDestructure = 29"
| "opcode_num OpGetBuiltin = 30" | "opcode_num OpClosure = 31" | "opcode_num OpGetFree = 32"
| "opcode_num OpCurrentClosure = 33" | "opcode_num OpChkDbg = 34" | "opcode_num OpChkSnd = 35"
| "opcode_num OpBreak = 36" | "opcode_num OpContinue = 37" | "opcode_num OpMakeStruct = 38"
| "opcode_num OpGetField = 39" | "opcode_num OpSetField = 40" | "opcode_num OpEnumValue = 41"
| "opcode_num OpGreaterEqual = 42" | "opcode_num OpSetIndex = 43" | "opcode_num OpBitAnd = 44"
| "opcode_num OpBitOr = 45" | "opcode_num OpBitXor = 46" | "opcode_num OpBitNot = 47"
| "opcode_num OpShiftLeft = 48" | "opcode_num OpShiftRight = 49"
| "opcode_num OpGetLocalCell = 50" | "opcode_num OpSetLocalCell = 51"
| "opcode_num OpCaptureLocal = 52" | "opcode_num OpCaptureFree = 53"
| "opcode_num OpSetFree = 54" | "opcode_num OpConcat = 55" | "opcode_num OpIterInit = 56"
| "opcode_num OpIterNext = 57" | "opcode_num OpMatchFail = 58" | "opcode_num OpLess = 59"
| "opcode_num OpLessEqual = 60"

definition opcode_byte :: "opcode \<Rightarrow> byte" where
  "opcode_byte op = byte_of_nat (opcode_num op)"

definition opcode_of_byte :: "byte \<Rightarrow> opcode option" where
  "opcode_of_byte b = (if unat b < length opcodes then Some (opcodes ! unat b) else None)"

section \<open>Definitions table\<close>

record Definition =
  Name :: string
  OperandWidths :: "nat list"

primrec op_name :: "opcode \<Rightarrow> string" where
  "op_name OpConstant = ''OpConstant''" | "op_name OpPop = ''OpPop''"
| "op_name OpAdd = ''OpAdd''" | "op_name OpSub = ''OpSub''" | "op_name OpMul = ''OpMul''"
| "op_name OpDiv = ''OpDiv''" | "op_name OpMod = ''OpMod''" | "op_name OpTrue = ''OpTrue''"
| "op_name OpFalse = ''OpFalse''" | "op_name OpEqual = ''OpEqual''"
| "op_name OpUnEqual = ''OpUnEqual''" | "op_name OpGreater = ''OpGreater''"
| "op_name OpMinus = ''OpMinus''" | "op_name OpBang = ''OpBang''"
| "op_name OpJumpFalse = ''OpJumpFalse''" | "op_name OpJump = ''OpJump''"
| "op_name OpNull = ''OpNull''" | "op_name OpGetGlobal = ''OpGetGlobal''"
| "op_name OpSetGlobal = ''OpSetGlobal''" | "op_name OpGetLocal = ''OpGetLocal''"
| "op_name OpSetLocal = ''OpSetLocal''" | "op_name OpArray = ''OpArray''"
| "op_name OpHash = ''OpHash''" | "op_name OpIndex = ''OpIndex''"
| "op_name OpCall = ''Opcall''" | "op_name OpReturnValue = ''OpReturnValue''"
| "op_name OpReturn = ''OpReturn''" | "op_name OpMultiValue = ''OpMultiValue''"
| "op_name OpDup = ''OpDup''" | "op_name OpDestructure = ''OpDestructure''"
| "op_name OpGetBuiltin = ''OpGetBuiltin''" | "op_name OpClosure = ''OpClosure''"
| "op_name OpGetFree = ''OpGetFree''" | "op_name OpCurrentClosure = ''OpCurrentClosure''"
| "op_name OpChkDbg = ''OpChkDbg''" | "op_name OpChkSnd = ''OpChkSnd''"
| "op_name OpBreak = ''OpBreak''" | "op_name OpContinue = ''OpContinue''"
| "op_name OpMakeStruct = ''OpMakeStruct''" | "op_name OpGetField = ''OpGetField''"
| "op_name OpSetField = ''OpSetField''" | "op_name OpEnumValue = ''OpEnumValue''"
| "op_name OpGreaterEqual = ''OpGreaterEqual''" | "op_name OpSetIndex = ''OpSetIndex''"
| "op_name OpBitAnd = ''OpBitAnd''" | "op_name OpBitOr = ''OpBitOr''"
| "op_name OpBitXor = ''OpBitXor''" | "op_name OpBitNot = ''OpBitNot''"
| "op_name OpShiftLeft = ''OpShiftLeft''" | "op_name OpShiftRight = ''OpShiftRight''"
| "op_name OpGetLocalCell = ''OpGetLocalCell''" | "op_name OpSetLocalCell = ''OpSetLocalCell''"
| "op_name OpCaptureLocal = ''OpCaptureLocal''" | "op_name OpCaptureFree = ''OpCaptureFree''"
| "op_name OpSetFree = ''OpSetFree''" | "op_name OpConcat = ''OpConcat''"
| "op_name OpIterInit = ''OpIterInit''" | "op_name OpIterNext = ''OpIterNext''"
| "op_name OpMatchFail = ''OpMatchFail''" | "op_name OpLess = ''OpLess''"
| "op_name OpLessEqual = ''OpLessEqual''"

definition op_widths :: "opcode \<Rightarrow> nat list" where
  "op_widths op =
    (if op \<in> set [OpConstant, OpJumpFalse, OpJump, OpGetGlobal, OpSetGlobal, OpArray, OpHash,
                  OpMultiValue, OpDestructure, OpGetBuiltin, OpGetField, OpSetField, OpConcat]
     then [2]
     else if op \<in> set [OpGetLocal, OpSetLocal, OpCall, OpGetFree, OpGetLocalCell, OpSetLocalCell,
                       OpCaptureLocal, OpCaptureFree, OpSetFree]
     then [1]
     else if op \<in> set [OpClosure, OpMakeStruct, OpIterNext] then [2, 1]
     else if op = OpEnumValue then [2, 2]
     else [])"

definition definitions :: "opcode \<Rightarrow> Definition" where
  "definitions op = \<lparr>Name = op_name op, OperandWidths = op_widths op\<rparr>"

definition op_size :: "opcode \<Rightarrow> nat" where
  "op_size op = 1 + sum_list (op_widths op)"

text \<open>\<^verbatim>\<open>Lookup\<close>: the error carries the byte its message prints.\<close>

datatype code_error = OpcodeUndefined byte

definition Lookup :: "byte \<Rightarrow> code_error + Definition" where
  "Lookup b = (case opcode_of_byte b of None \<Rightarrow> Inl (OpcodeUndefined b)
                | Some op \<Rightarrow> Inr (definitions op))"

text \<open>\<^verbatim>\<open>AllOpcodes\<close>: the defined bytes between 0 and 0xFF, ascending.\<close>

definition AllOpcodes :: "byte list" where
  "AllOpcodes = filter (\<lambda>b. opcode_of_byte b \<noteq> None) (map byte_of_nat [0..<256])"

section \<open>Operand classification\<close>

definition ConstantOperands :: "opcode \<Rightarrow> nat list" where
  "ConstantOperands op =
    (if op \<in> set [OpConstant, OpClosure, OpMakeStruct, OpGetField, OpSetField] then [0]
     else if op = OpEnumValue then [0, 1]
     else [])"

definition JumpOperands :: "opcode \<Rightarrow> nat list" where
  "JumpOperands op = (if op \<in> set [OpJump, OpJumpFalse, OpIterNext] then [0] else [])"

definition BuiltinNameTableFlag :: nat where
  "BuiltinNameTableFlag = 0x8000"

section \<open>Encoding\<close>

text \<open>
  A panic of the encoder: the operand that does not fit its width
  (\<^verbatim>\<open>checkOperandFits\<close>), or the runtime's index panic when more operands are
  passed than the opcode has.
\<close>

datatype make_panic =
    OperandTooWide nat string int nat
  | OperandIndexOutOfRange nat

definition checkOperandFits :: "Definition \<Rightarrow> nat \<Rightarrow> int \<Rightarrow> nat \<Rightarrow> make_panic option" where
  "checkOperandFits def i operand width =
    (if width = 1 \<and> (operand < 0 \<or> operand > 0xFF) \<or>
        width = 2 \<and> (operand < 0 \<or> operand > 0xFFFF)
     then Some (OperandTooWide i (Name def) operand width) else None)"

text \<open>
  The loop over the operands: \<open>i\<close> is the operand's index, \<open>offset\<close> where it is
  written, \<open>inst\<close> the buffer allocated with the instruction's full length.
\<close>

fun make_loop :: "Definition \<Rightarrow> nat \<Rightarrow> int list \<Rightarrow> nat \<Rightarrow> bytes \<Rightarrow> make_panic + bytes" where
  "make_loop def i [] offset inst = Inr inst"
| "make_loop def i (v # vs) offset inst =
     (if i < length (OperandWidths def) then
        let width = OperandWidths def ! i in
        case checkOperandFits def i v width of
          Some p \<Rightarrow> Inl p
        | None \<Rightarrow>
            make_loop def (Suc i) vs (offset + width)
              (if width = 1 then inst[offset := of_int v]
               else if width = 2 then
                 inst[offset := byte_of_nat (nat v div 256), offset + 1 := byte_of_nat (nat v)]
               else inst)
      else Inl (OperandIndexOutOfRange i))"

definition Make :: "opcode \<Rightarrow> int list \<Rightarrow> make_panic + bytes" where
  "Make op vs =
    (let def = definitions op; instLen = 1 + sum_list (OperandWidths def) in
     make_loop def 0 vs 1 ((replicate instLen 0)[0 := opcode_byte op]))"

section \<open>Decoding\<close>

fun read_loop :: "nat list \<Rightarrow> bytes \<Rightarrow> nat \<Rightarrow> int list \<times> nat" where
  "read_loop [] ins offset = ([], offset)"
| "read_loop (width # ws) ins offset =
     (if offset + width > length ins then (replicate (length (width # ws)) 0, offset)
      else let v = (if width = 1 then int (unat (ins ! offset))
                    else if width = 2 then int (get_be16 (ins ! offset) (ins ! (offset + 1)))
                    else 0);
               (vs, n) = read_loop ws ins (offset + width)
           in (v # vs, n))"

definition ReadOperands :: "Definition \<Rightarrow> bytes \<Rightarrow> int list \<times> nat" where
  "ReadOperands def ins = read_loop (OperandWidths def) ins 0"

section \<open>Disassembly\<close>

text \<open>\<^verbatim>\<open>fmtInstruction\<close>: one line of the listing.\<close>

definition fmtInstruction :: "Definition \<Rightarrow> int list \<Rightarrow> string" where
  "fmtInstruction def operands =
    (let operandCount = length (OperandWidths def) in
     if length operands \<noteq> operandCount then
       ''ERROR: operand len '' @ dec_nat (length operands) @ '' does not match defined '' @
       dec_nat operandCount @ ''\<newline>''
     else if operandCount = 0 then Name def
     else if operandCount = 1 then Name def @ '' '' @ dec_int (operands ! 0)
     else if operandCount = 2 then
       Name def @ '' '' @ dec_int (operands ! 0) @ '' '' @ dec_int (operands ! 1)
     else ''ERROR: unhandled operandCount for '' @ Name def @ ''\<newline>'')"

text \<open>
  \<^verbatim>\<open>Instructions.String\<close>.  The loop is a partial function: the error
  branch of the source continues without moving \<open>i\<close>.
\<close>

partial_function (option) string_loop :: "bytes \<Rightarrow> nat \<Rightarrow> string \<Rightarrow> string option" where
  "string_loop ins i out =
    (if i < length ins then
       (case Lookup (ins ! i) of
          Inl (OpcodeUndefined b) \<Rightarrow>
            string_loop ins i
              (out @ ''ERROR: opcode '' @ dec_nat (unat b) @ '' undefined'' @ ''\<newline>'')
        | Inr def \<Rightarrow>
            string_loop ins (i + 1 + snd (ReadOperands def (drop (i + 1) ins)))
              (out @ dec_nat4 i @ '' '' @
               fmtInstruction def (fst (ReadOperands def (drop (i + 1) ins))) @ ''\<newline>''))
     else Some out)"

definition Instructions_String :: "bytes \<Rightarrow> string option" where
  "Instructions_String ins = string_loop ins 0 []"

section \<open>Streams as instructions\<close>

fun chunks :: "bytes \<Rightarrow> bytes list option" where
  "chunks [] = Some []"
| "chunks (b # bs) =
    (case opcode_of_byte b of
       None \<Rightarrow> None
     | Some op \<Rightarrow>
         let n = sum_list (op_widths op) in
         if length bs < n then None
         else map_option ((#) (b # take n bs)) (chunks (drop n bs)))"

section \<open>Lemmas: opcodes and the definitions table\<close>

lemma length_opcodes [simp]: "length opcodes = 61"
  by (simp add: opcodes_def)

lemma opcode_num_less [simp]: "opcode_num op < 61"
  by (cases op) simp_all

lemma opcodes_nth_num [simp]: "opcodes ! opcode_num op = op"
  by (cases op) (simp_all add: opcodes_def)

lemma unat_opcode_byte [simp]: "unat (opcode_byte op) = opcode_num op"
proof -
  have "opcode_num op < 256" using opcode_num_less [of op] by linarith
  then show ?thesis by (simp add: opcode_byte_def)
qed

lemma opcode_of_byte_opcode_byte [simp]: "opcode_of_byte (opcode_byte op) = Some op"
  by (simp add: opcode_of_byte_def)

lemma opcode_num_nth: "n < 61 \<Longrightarrow> opcode_num (opcodes ! n) = n"
proof -
  have "\<forall>n \<in> set [0..<61]. opcode_num (opcodes ! n) = n"
    by (simp add: opcodes_def upt_rec)
  then show "n < 61 \<Longrightarrow> opcode_num (opcodes ! n) = n" by simp
qed

lemma opcode_of_byte_Some: "opcode_of_byte b = Some op \<longleftrightarrow> b = opcode_byte op"
proof
  assume "opcode_of_byte b = Some op"
  then have "unat b < 61" and "opcodes ! unat b = op"
    by (auto simp: opcode_of_byte_def split: if_splits)
  then have "unat b = opcode_num op" using opcode_num_nth by force
  then show "b = opcode_byte op" by (simp add: word_unat_eq_iff)
qed simp

lemma inj_opcode_byte [simp]: "opcode_byte a = opcode_byte b \<longleftrightarrow> a = b"
  by (metis opcode_of_byte_opcode_byte option.inject)

lemma Lookup_opcode_byte [simp]: "Lookup (opcode_byte op) = Inr (definitions op)"
  by (simp add: Lookup_def)

lemma definitions_sel [simp]:
  "Name (definitions op) = op_name op" "OperandWidths (definitions op) = op_widths op"
  by (simp_all add: definitions_def)

lemma set_op_widths: "w \<in> set (op_widths op) \<Longrightarrow> w = 1 \<or> w = 2"
  by (auto simp: op_widths_def split: if_splits)

lemma op_widths_ball: "\<forall>w \<in> set (OperandWidths (definitions op)). w = 1 \<or> w = 2"
  using set_op_widths [of _ op] by (simp only: definitions_sel) blast

lemma op_size_pos [simp]: "0 < op_size op"
  by (simp add: op_size_def)

lemma Lookup_cases:
  obtains (undefined) "Lookup b = Inl (OpcodeUndefined b)" "opcode_of_byte b = None"
  | (defined) op where "b = opcode_byte op" "Lookup b = Inr (definitions op)"
  by (cases "opcode_of_byte b") (auto simp: Lookup_def opcode_of_byte_Some)


section \<open>Lemmas: encoding and decoding\<close>

definition operand_fits :: "nat \<Rightarrow> int \<Rightarrow> bool" where
  "operand_fits w v \<longleftrightarrow> 0 \<le> v \<and> v < 256 ^ w"

text \<open>The bytes one operand takes: what the encoder is meant to write.\<close>

definition encode_operand :: "nat \<Rightarrow> int \<Rightarrow> bytes" where
  "encode_operand w v = (if w = 1 then [of_int v] else put_be16 (nat v))"

lemma length_encode_operand: "w = 1 \<or> w = 2 \<Longrightarrow> length (encode_operand w v) = w"
  by (auto simp: encode_operand_def)

lemma checkOperandFits_iff:
  "w = 1 \<or> w = 2 \<Longrightarrow> checkOperandFits def i v w = None \<longleftrightarrow> operand_fits w v"
  by (auto simp: checkOperandFits_def operand_fits_def)

lemma list_update_append_at:
  "(xs @ a # ys)[length xs := x] = xs @ x # ys"
  "(xs @ a # b # ys)[length xs + 1 := y] = xs @ a # y # ys"
  by (induction xs) auto

lemma make_write_operand:
  assumes "w = 1 \<or> w = 2" and "length pre = offset" and "length gap = w"
  shows "(if w = 1 then (pre @ gap @ post)[offset := of_int v]
          else if w = 2 then (pre @ gap @ post)
                 [offset := byte_of_nat (nat v div 256), offset + 1 := byte_of_nat (nat v)]
          else pre @ gap @ post)
       = pre @ encode_operand w v @ post"
proof (cases "w = 1")
  case True
  with assms(3) obtain a where "gap = [a]" by (cases gap) auto
  with True assms(2) [symmetric] show ?thesis
    by (simp only: encode_operand_def if_True append_Cons append_Nil list_update_append_at refl)
next
  case False
  with assms(1) have w: "w = 2" by simp
  with assms(3) obtain a b where "gap = [a, b]"
    by (auto simp: length_Suc_conv numeral_2_eq_2)
  with w False assms(2) [symmetric] show ?thesis
    by (simp only: encode_operand_def put_be16_def if_True if_False append_Cons append_Nil
        list_update_append_at refl)
qed

lemma make_loop_fits:
  assumes "list_all2 operand_fits (drop i (OperandWidths def)) vs"
    and "\<forall>w \<in> set (OperandWidths def). w = 1 \<or> w = 2"
    and "length gap = sum_list (drop i (OperandWidths def))" and "length pre = offset"
  shows "make_loop def i vs offset (pre @ gap) =
         Inr (pre @ concat (map2 encode_operand (drop i (OperandWidths def)) vs))"
  using assms
proof (induction vs arbitrary: i offset pre gap rule: list.induct)
  case Nil
  then have "drop i (OperandWidths def) = []" by (simp only: list_all2_Nil2)
  with Nil.prems(3) have "gap = []" by (simp only: sum_list.Nil length_0_conv)
  then show ?case by simp
next
  case (Cons v vs)
  let ?ws = "OperandWidths def"
  from Cons.prems(1) have i: "i < length ?ws"
    by (metis drop_all list_all2_Nil not_le_imp_less list.distinct(1))
  then have d: "drop i ?ws = ?ws ! i # drop (Suc i) ?ws"
    by (simp add: Cons_nth_drop_Suc)
  let ?w = "?ws ! i"
  have w: "?w = 1 \<or> ?w = 2" using Cons.prems(2) i nth_mem by blast
  from Cons.prems(1) d have fit: "operand_fits ?w v"
    and rest: "list_all2 operand_fits (drop (Suc i) ?ws) vs" by simp_all
  have chk: "checkOperandFits def i v ?w = None" using fit w checkOperandFits_iff by blast
  define g1 where "g1 = take ?w gap"
  define g2 where "g2 = drop ?w gap"
  have gap: "gap = g1 @ g2" by (simp add: g1_def g2_def)
  have lg: "length g1 = ?w" "length g2 = sum_list (drop (Suc i) ?ws)"
    using Cons.prems(3) d by (simp_all add: g1_def g2_def)
  have upd: "(if ?w = 1 then (pre @ g1 @ g2)[offset := of_int v]
          else if ?w = 2 then (pre @ g1 @ g2)
                 [offset := byte_of_nat (nat v div 256), offset + 1 := byte_of_nat (nat v)]
          else pre @ g1 @ g2) = (pre @ encode_operand ?w v) @ g2"
    using make_write_operand [OF w Cons.prems(4) lg(1)] by simp
  have "make_loop def i (v # vs) offset (pre @ gap)
      = make_loop def (Suc i) vs (offset + ?w) ((pre @ encode_operand ?w v) @ g2)"
    by (simp only: make_loop.simps(2) i if_True Let_def chk option.case gap upd)
  also have "\<dots> = Inr ((pre @ encode_operand ?w v)
                 @ concat (map2 encode_operand (drop (Suc i) ?ws) vs))"
    using Cons.prems(2,4) lg(2) w
    by (intro Cons.IH rest) (auto simp: length_encode_operand)
  finally show ?case by (simp add: d)
qed

lemma Make_fits:
  assumes "list_all2 operand_fits (op_widths op) vs"
  shows "Make op vs = Inr (opcode_byte op # concat (map2 encode_operand (op_widths op) vs))"
proof -
  have "make_loop (definitions op) 0 vs 1 ([opcode_byte op] @ replicate (sum_list (op_widths op)) 0)
      = Inr ([opcode_byte op] @ concat (map2 encode_operand (drop 0 (op_widths op)) vs))"
    using make_loop_fits [OF _ op_widths_ball, of 0 op vs "replicate (sum_list (op_widths op)) 0"
        "[opcode_byte op]" 1] assms by simp
  then show ?thesis by (simp add: Make_def Let_def)
qed

lemma make_loop_Inr_fits:
  assumes "make_loop def i vs offset inst = Inr out"
    and "\<forall>w \<in> set (OperandWidths def). w = 1 \<or> w = 2"
  shows "list_all2 operand_fits (take (length vs) (drop i (OperandWidths def))) vs"
  using assms
proof (induction vs arbitrary: i offset inst)
  case Nil
  then show ?case by simp
next
  case (Cons v vs)
  let ?ws = "OperandWidths def"
  from Cons.prems(1) have i: "i < length ?ws" by (auto split: if_splits)
  then have d: "drop i ?ws = ?ws ! i # drop (Suc i) ?ws" by (simp add: Cons_nth_drop_Suc)
  have w: "?ws ! i = 1 \<or> ?ws ! i = 2" using Cons.prems(2) i nth_mem by blast
  from Cons.prems(1) i have "checkOperandFits def i v (?ws ! i) = None"
    by (auto simp: Let_def split: option.splits)
  then have "operand_fits (?ws ! i) v" using w checkOperandFits_iff by blast
  moreover from Cons.prems(1) i obtain off' inst' where
    "make_loop def (Suc i) vs off' inst' = Inr out"
    by (auto simp: Let_def split: option.splits)
  ultimately show ?case using Cons.IH Cons.prems(2) by (simp add: d)
qed

lemma Make_Inr_fits:
  "Make op vs = Inr ins \<Longrightarrow> list_all2 operand_fits (take (length vs) (op_widths op)) vs"
  using make_loop_Inr_fits [OF _ op_widths_ball, of op 0 vs] by (simp add: Make_def Let_def)

lemma read_loop_encode:
  assumes "list_all2 operand_fits ws vs" and "\<forall>w \<in> set ws. w = 1 \<or> w = 2"
    and "length pre = offset"
  shows "read_loop ws (pre @ concat (map2 encode_operand ws vs) @ rest) offset =
         (vs, offset + sum_list ws)"
  using assms
proof (induction ws vs arbitrary: pre offset rule: list_all2_induct)
  case Nil
  then show ?case by simp
next
  case (Cons w ws v vs)
  have w: "w = 1 \<or> w = 2" using Cons.prems(1) by simp
  let ?e = "encode_operand w v"
  have e: "length ?e = w" using w by (rule length_encode_operand)
  have IH: "read_loop ws ((pre @ ?e) @ concat (map2 encode_operand ws vs) @ rest) (offset + w)
      = (vs, offset + w + sum_list ws)"
    using Cons.prems e by (intro Cons.IH) auto
  show ?case
  proof (cases "w = 1")
    case True
    with Cons.hyps(1) have "0 \<le> v" "v < 256" by (auto simp: operand_fits_def)
    moreover from this have "int (unat (of_int v :: byte)) = v"
      by (simp add: unsigned_of_int take_bit_int_eq_self)
    ultimately show ?thesis
      using True IH Cons.prems(2) by (simp add: encode_operand_def nth_append)
  next
    case False
    with w have w2: "w = 2" by simp
    with Cons.hyps(1) have v: "0 \<le> v" "nat v < 65536" by (auto simp: operand_fits_def)
    then have "int (get_be16 (byte_of_nat (nat v div 256)) (byte_of_nat (nat v))) = v"
      by (simp only: get_put_be16 int_nat_eq if_True)
    then show ?thesis
      using w2 v(1) IH Cons.prems(2) by (simp add: encode_operand_def put_be16_def nth_append)
  qed
qed

lemma ReadOperands_encode:
  "list_all2 operand_fits (op_widths op) vs \<Longrightarrow>
   ReadOperands (definitions op) (concat (map2 encode_operand (op_widths op) vs) @ rest) =
   (vs, sum_list (op_widths op))"
  using read_loop_encode [OF _ op_widths_ball [unfolded definitions_sel], of op vs "[]" 0 rest]
  by (simp add: ReadOperands_def)

lemma length_encoded_operands:
  "list_all2 operand_fits ws vs \<Longrightarrow> \<forall>w \<in> set ws. w = 1 \<or> w = 2 \<Longrightarrow>
   length (concat (map2 encode_operand ws vs)) = sum_list ws"
  by (induction ws vs rule: list_all2_induct) (auto simp: length_encode_operand)


section \<open>Lemmas: streams\<close>

definition is_instr :: "bytes \<Rightarrow> bool" where
  "is_instr c \<longleftrightarrow> (\<exists>op args. c = opcode_byte op # args \<and> length args = sum_list (op_widths op))"

lemma chunks_ConsE:
  assumes "chunks (b # bs) = Some cs"
  obtains op cs' where "b = opcode_byte op" "sum_list (op_widths op) \<le> length bs"
    "cs = (b # take (sum_list (op_widths op)) bs) # cs'"
    "chunks (drop (sum_list (op_widths op)) bs) = Some cs'"
  using assms
  by (auto simp: opcode_of_byte_Some Let_def split: option.splits if_splits)

lemma chunks_instr_append:
  assumes "is_instr c"
  shows "chunks (c @ bs) = map_option ((#) c) (chunks bs)"
proof -
  from assms obtain op args where "c = opcode_byte op # args"
    "length args = sum_list (op_widths op)" by (auto simp: is_instr_def)
  then show ?thesis by simp
qed

lemma chunks_is_instr: "chunks bs = Some cs \<Longrightarrow> \<forall>c \<in> set cs. is_instr c"
proof (induction bs arbitrary: cs rule: chunks.induct)
  case (2 b bs)
  from "2.prems" show ?case
  proof (cases rule: chunks_ConsE)
    case (1 op cs')
    then have "is_instr (b # take (sum_list (op_widths op)) bs)"
      by (auto simp: is_instr_def)
    moreover have "\<forall>c \<in> set cs'. is_instr c"
      using "2.IH" 1 by auto
    ultimately show ?thesis using 1(3) by auto
  qed
qed simp

lemma chunks_concat: "chunks bs = Some cs \<Longrightarrow> concat cs = bs"
proof (induction bs arbitrary: cs rule: chunks.induct)
  case (2 b bs)
  from "2.prems" show ?case
  proof (cases rule: chunks_ConsE)
    case (1 op cs')
    then have "concat cs' = drop (sum_list (op_widths op)) bs"
      using "2.IH" by auto
    with 1(3) show ?thesis by simp
  qed
qed simp

lemma chunks_concat_append:
  "\<forall>c \<in> set cs. is_instr c \<Longrightarrow> chunks (concat cs @ bs) = map_option ((@) cs) (chunks bs)"
  by (induction cs) (cases "chunks bs"; auto simp: chunks_instr_append)+

lemma chunks_of_instrs: "\<forall>c \<in> set cs. is_instr c \<Longrightarrow> chunks (concat cs) = Some cs"
  using chunks_concat_append [of cs "[]"] by simp

lemma chunks_append:
  "chunks xs = Some cs \<Longrightarrow> chunks (xs @ ys) = map_option ((@) cs) (chunks ys)"
  using chunks_concat_append [of cs ys] chunks_concat [of xs cs] chunks_is_instr [of xs cs] by blast

lemma is_instr_length: "is_instr c \<Longrightarrow> 0 < length c"
  by (auto simp: is_instr_def)

lemma Make_is_instr:
  "list_all2 operand_fits (op_widths op) vs \<Longrightarrow> Make op vs = Inr c \<Longrightarrow> is_instr c"
  using length_encoded_operands [of "op_widths op" vs] op_widths_ball [of op]
  by (auto simp: Make_fits is_instr_def)

lemma snd_read_loop:
  "offset + sum_list ws \<le> length ins \<Longrightarrow> snd (read_loop ws ins offset) = offset + sum_list ws"
  by (induction ws arbitrary: offset) (simp_all add: Let_def case_prod_unfold)

lemma snd_ReadOperands:
  "sum_list (op_widths op) \<le> length ins \<Longrightarrow>
   snd (ReadOperands (definitions op) ins) = sum_list (op_widths op)"
  using snd_read_loop [of 0] by (simp add: ReadOperands_def)

lemma string_loop_instr:
  assumes "drop i ins = opcode_byte op # bs" and "sum_list (op_widths op) \<le> length bs"
  shows "string_loop ins i out =
         string_loop ins (i + 1 + sum_list (op_widths op))
           (out @ dec_nat4 i @ '' '' @
            fmtInstruction (definitions op) (fst (ReadOperands (definitions op) bs)) @ ''\<newline>'')"
proof -
  note at_i = drop_ConsD [OF assms(1)]
  show ?thesis
    using assms(2) by (subst string_loop.simps) (simp add: at_i snd_ReadOperands)
qed

lemma string_loop_terminates:
  "chunks bs = Some cs \<Longrightarrow> drop i ins = bs \<Longrightarrow> \<exists>s. string_loop ins i out = Some s"
proof (induction bs arbitrary: cs i out rule: chunks.induct)
  case 1
  then show ?case by (subst string_loop.simps) simp
next
  case (2 b bs)
  from "2.prems"(1) show ?case
  proof (cases rule: chunks_ConsE)
    case (1 op cs')
    let ?n = "sum_list (op_widths op)"
    have "drop (i + 1 + ?n) ins = drop ?n bs"
      using drop_ConsD(3) [OF "2.prems"(2)] by (auto simp: add.commute)
    then have "\<exists>s. string_loop ins (i + 1 + ?n) out' = Some s" for out'
      using "2.IH" 1 by auto
    then show ?thesis
      using string_loop_instr [of i ins op bs out] "2.prems"(2) 1(1,2) by simp
  qed
qed

text \<open>An undefined opcode lies ahead of offset \<open>i\<close>, after whole instructions only.\<close>

definition undefined_ahead :: "bytes \<Rightarrow> nat \<Rightarrow> bool" where
  "undefined_ahead ins i \<longleftrightarrow>
    (\<exists>pre cs b post. drop i ins = pre @ b # post \<and> chunks pre = Some cs \<and> opcode_of_byte b = None)"

lemma undefined_ahead_cases:
  assumes "undefined_ahead ins i"
  obtains (here) "i < length ins" "opcode_of_byte (ins ! i) = None"
  | (later) op bs where "drop i ins = opcode_byte op # bs" "sum_list (op_widths op) \<le> length bs"
      "undefined_ahead ins (i + 1 + sum_list (op_widths op))"
proof -
  from assms obtain pre cs b post where d: "drop i ins = pre @ b # post"
    and cs: "chunks pre = Some cs" and b: "opcode_of_byte b = None"
    unfolding undefined_ahead_def by blast
  from d have i: "i < length ins" using not_le_imp_less by fastforce
  show thesis
  proof (cases pre)
    case Nil
    with d b i here show thesis by (simp add: nth_via_drop)
  next
    case (Cons c pre')
    with cs have "chunks (c # pre') = Some cs" by (simp only:)
    then obtain op cs' where c: "c = opcode_byte op"
      and n: "sum_list (op_widths op) \<le> length pre'"
      and cs': "chunks (drop (sum_list (op_widths op)) pre') = Some cs'"
      by (rule chunks_ConsE)
    have "drop (i + 1 + sum_list (op_widths op)) ins
        = drop (sum_list (op_widths op)) (tl (drop i ins))"
      by (simp add: drop_Suc tl_drop add.commute)
    also have "\<dots> = drop (sum_list (op_widths op)) pre' @ b # post"
      using d Cons n by simp
    finally have "undefined_ahead ins (i + 1 + sum_list (op_widths op))"
      unfolding undefined_ahead_def using cs' b by blast
    then show thesis using later d Cons c n by simp
  qed
qed

lemma string_loop_undefined:
  assumes "string_loop ins i out = Some s"
  shows "\<not> undefined_ahead ins i"
proof (rule string_loop.raw_induct [where P = "\<lambda>ins i out s. \<not> undefined_ahead ins i", OF _ assms])
  fix f ins i out s
  assume IH: "\<And>ins i out s. f ins i out = Some s \<Longrightarrow> \<not> undefined_ahead ins i"
    and eq: "(if i < length ins then
       (case Lookup (ins ! i) of
          Inl (OpcodeUndefined b) \<Rightarrow>
            f ins i (out @ ''ERROR: opcode '' @ dec_nat (unat b) @ '' undefined'' @ ''\<newline>'')
        | Inr def \<Rightarrow>
            f ins (i + 1 + snd (ReadOperands def (drop (i + 1) ins)))
              (out @ dec_nat4 i @ '' '' @
               fmtInstruction def (fst (ReadOperands def (drop (i + 1) ins))) @ ''\<newline>''))
     else Some out) = Some s"
  show "\<not> undefined_ahead ins i"
  proof
    assume ahead: "undefined_ahead ins i"
    then show False
    proof (cases rule: undefined_ahead_cases)
      case here
      then obtain out' where "f ins i out' = Some s" using eq by (simp add: Lookup_def)
      from IH [OF this] ahead show False by contradiction
    next
      case (later op bs)
      note at_i = drop_ConsD [OF later(1)]
      then obtain out' where "f ins (i + 1 + sum_list (op_widths op)) out' = Some s"
        using eq later(2) by (auto simp: snd_ReadOperands)
      from IH [OF this] later(3) show False by contradiction
    qed
  qed
qed

lemma map_unat_byte_of_nat: "n \<le> 256 \<Longrightarrow> map unat (map byte_of_nat [0..<n]) = [0..<n]"
  by (induction n) auto

section \<open>Properties\<close>

text \<open>
  C31: encoding and decoding are inverse.  Whenever \<^verbatim>\<open>Make\<close> accepts a full list of
  operands, the instruction it returns starts with the opcode's byte, has the length the
  definitions table gives, and \<^verbatim>\<open>ReadOperands\<close> reads exactly the same operands back,
  whatever bytes follow it in the stream.
\<close>

theorem Make_ReadOperands_roundtrip:
  assumes "Make op vs = Inr ins" and "length vs = length (op_widths op)"
  shows "Lookup (hd ins) = Inr (definitions op) \<and> length ins = op_size op \<and>
         ReadOperands (definitions op) (tl ins @ rest) = (vs, length ins - 1)"
proof -
  have fit: "list_all2 operand_fits (op_widths op) vs"
    using Make_Inr_fits [OF assms(1)] assms(2) by simp
  then have "ins = opcode_byte op # concat (map2 encode_operand (op_widths op) vs)"
    using Make_fits assms(1) by simp
  with fit show ?thesis
    using ReadOperands_encode [OF fit] length_encoded_operands [OF fit] op_widths_ball [of op]
    by (simp add: op_size_def)
qed

theorem Make_ReadOperands_roundtrip_witness:
  "Make OpIterNext [258, 2] = Inr [57, 1, 2, 2] \<and>
   ReadOperands (definitions OpIterNext) ([1, 2, 2] @ [9]) = ([258, 2], 3)"
proof -
  have m: "Make OpIterNext [258, 2] = Inr [57, 1, 2, 2]"
    by code_simp
  show ?thesis
    using m Make_ReadOperands_roundtrip [OF m, of "[9]"] by (simp add: op_widths_def)
qed

text \<open>
  C32: an operand too large for its encoding is never truncated.  Given as many operands as
  the opcode has, \<^verbatim>\<open>Make\<close> returns an instruction exactly when every operand fits its
  width, and panics otherwise.
\<close>

theorem Make_panics_iff_operand_too_wide:
  assumes "length vs = length (op_widths op)"
  shows "(\<exists>p. Make op vs = Inl p) \<longleftrightarrow> \<not> list_all2 operand_fits (op_widths op) vs"
proof (cases "list_all2 operand_fits (op_widths op) vs")
  case True
  then show ?thesis by (simp add: Make_fits)
next
  case False
  then have "Make op vs \<noteq> Inr ins" for ins using Make_Inr_fits assms by fastforce
  then show ?thesis using False by (cases "Make op vs") auto
qed

theorem Make_panics_iff_operand_too_wide_witness:
  "(\<exists>p. Make OpConstant [65536] = Inl p)"
  using Make_panics_iff_operand_too_wide [of "[65536]" OpConstant]
  by (simp add: op_widths_def operand_fits_def)

text \<open>
  C37: the disassembler returns a listing for every stream that decodes into whole
  instructions.
\<close>

theorem String_terminates:
  "chunks ins = Some cs \<Longrightarrow> \<exists>s. Instructions_String ins = Some s"
  using string_loop_terminates [of ins cs 0] by (simp add: Instructions_String_def)

theorem String_terminates_witness:
  "chunks [7, 1] = Some [[7], [1]] \<and> (\<exists>s. Instructions_String [7, 1] = Some s)"
proof -
  have "chunks [7, 1] = Some [[7], [1]]"
    by (simp add: opcode_of_byte_def opcodes_def op_widths_def)
  then show ?thesis using String_terminates by blast
qed

text \<open>
  C38: the disassembler never returns on a stream in which an undefined opcode follows whole
  instructions: the error branch of its loop does not advance.
\<close>

theorem String_diverges:
  assumes "chunks pre = Some cs" and "opcode_of_byte b = None"
  shows "Instructions_String (pre @ b # post) = None"
proof (rule ccontr)
  assume "Instructions_String (pre @ b # post) \<noteq> None"
  then obtain s where "string_loop (pre @ b # post) 0 [] = Some s"
    by (auto simp: Instructions_String_def)
  from string_loop_undefined [OF this] assms show False
    unfolding undefined_ahead_def by (simp only: drop_0) blast
qed

theorem String_diverges_witness: "Instructions_String ([7] @ 255 # [1]) = None"
  by (rule String_diverges [of "[7]" "[[7]]"])
    (simp_all add: opcode_of_byte_def opcodes_def op_widths_def)

end
