(* ===== verification/LineTable.thy ===== *)
theory LineTable
  imports Prelude
begin

text \<open>
  Source positions of instructions, from \<^verbatim>\<open>src/code/linetable.go\<close> and
  \<^verbatim>\<open>src/code/lineindex.go\<close>: the delta-varint table with its builder, the lookup of the
  position covering an offset, the remapping after instructions moved, and the
  reverse index a breakpoint uses.

  The varints are those of Go's \<^verbatim>\<open>encoding/binary\<close>, modelled on natural numbers
  below \<open>2 ^ 64\<close>.  The main results say that a lookup in a built table
  answers with the last position recorded at or before the offset, and that the reverse
  index answers with the least line that has code.
\<close>

section \<open>Varints of \<^verbatim>\<open>encoding/binary\<close>\<close>

fun put_uvarint :: "nat \<Rightarrow> bytes" where
  "put_uvarint n =
     (if n < 128 then [byte_of_nat n] else byte_of_nat (n mod 128 + 128) # put_uvarint (n div 128))"

declare put_uvarint.simps [simp del]

text \<open>
  \<^verbatim>\<open>Uvarint\<close> reads at most ten bytes, the tenth at most 1.  Its two failures (buffer too
  small, overflow) are one to every caller here, which only tests \<^verbatim>\<open>n <= 0\<close>.
\<close>

fun uvarint_loop :: "nat \<Rightarrow> nat \<Rightarrow> bytes \<Rightarrow> (nat \<times> nat) option" where
  "uvarint_loop i x [] = None"
| "uvarint_loop i x (b # bs) =
    (if i = 10 then None
     else if unat b < 128 then
       (if i = 9 \<and> unat b > 1 then None else Some (x + unat b * 2 ^ (7 * i), Suc i))
     else uvarint_loop (Suc i) (x + (unat b - 128) * 2 ^ (7 * i)) bs)"

definition uvarint :: "bytes \<Rightarrow> (nat \<times> nat) option" where
  "uvarint bs = uvarint_loop 0 0 bs"

definition put_varint :: "int \<Rightarrow> bytes" where
  "put_varint x = put_uvarint (if x < 0 then nat (- 2 * x - 1) else nat (2 * x))"

definition varint :: "bytes \<Rightarrow> (int \<times> nat) option" where
  "varint bs = map_option (\<lambda>(ux, n). (if odd ux then - int (ux div 2) - 1 else int (ux div 2), n))
                 (uvarint bs)"

section \<open>The table\<close>

record lineEntry =
  ip :: int
  line :: int
  col :: int

text \<open>
  \<^verbatim>\<open>forEach\<close>: decode the entries in order and hand each to \<open>visit\<close>, a state transformer
  that also says whether to go on.  A malformed entry ends the walk.
\<close>

lemma uvarint_loop_bounds: "uvarint_loop i x bs = Some (v, n) \<Longrightarrow> i < n \<and> n \<le> i + length bs"
  by (induction i x bs rule: uvarint_loop.induct) (auto split: if_splits)

lemma uvarint_pos: "uvarint bs = Some (v, n) \<Longrightarrow> 0 < n \<and> n \<le> length bs"
  using uvarint_loop_bounds [of 0 0 bs] by (simp add: uvarint_def)

lemma varint_pos: "varint bs = Some (v, n) \<Longrightarrow> 0 < n \<and> n \<le> length bs"
  by (auto simp: varint_def dest: uvarint_pos)

function forEach :: "('s \<Rightarrow> lineEntry \<Rightarrow> 's \<times> bool) \<Rightarrow> 's \<Rightarrow> lineEntry \<Rightarrow> bytes \<Rightarrow> 's" where
  "forEach visit s entry t =
    (case uvarint t of None \<Rightarrow> s | Some (ipDelta, n1) \<Rightarrow>
     case varint (drop n1 t) of None \<Rightarrow> s | Some (lineDelta, n2) \<Rightarrow>
     case varint (drop (n1 + n2) t) of None \<Rightarrow> s | Some (colDelta, n3) \<Rightarrow>
       let entry' = \<lparr>ip = wrap64 (ip entry + int ipDelta), line = wrap64 (line entry + lineDelta),
                     col = wrap64 (col entry + colDelta)\<rparr>;
           (s', more) = visit s entry'
       in if more then forEach visit s' entry' (drop (n1 + n2 + n3) t) else s')"
  by pat_completeness auto
termination
proof (relation "measure (\<lambda>(_, _, _, t). length t)", goal_cases)
  case (2 visit s entry t x a b y c d z e f entry' r s' more)
  then have "0 < b" "b \<le> length t" using uvarint_pos by auto
  then show ?case by simp
qed simp

declare forEach.simps [simp del]

definition zero_entry :: lineEntry where
  "zero_entry = \<lparr>ip = 0, line = 0, col = 0\<rparr>"

text \<open>\<^verbatim>\<open>LineTable.At\<close>: the position of the last entry at or before \<open>q\<close>.\<close>

definition LineTable_At :: "bytes \<Rightarrow> int \<Rightarrow> (int \<times> int) option" where
  "LineTable_At t q =
    (if t = [] \<or> q < 0 then None
     else case forEach (\<lambda>found entry. if ip entry > q then (found, False)
                                      else (Some (line entry, col entry), True)) None zero_entry t of
            None \<Rightarrow> None
          | Some (ln, c) \<Rightarrow> if ln \<le> 0 then None else Some (ln, c))"

definition LineTable_Empty :: "bytes \<Rightarrow> bool" where
  "LineTable_Empty t \<longleftrightarrow> length t = 0"

section \<open>The builder\<close>

record LineTableBuilder =
  buf :: bytes
  lastIP :: int
  lastLn :: int
  lastCol :: int
  started :: bool

definition empty_builder :: LineTableBuilder where
  "empty_builder = \<lparr>buf = [], lastIP = 0, lastLn = 0, lastCol = 0, started = False\<rparr>"

text \<open>\<^verbatim>\<open>add\<close>: the guards, then the three deltas.  The conversion of a delta to 64 bits wraps.\<close>

definition add_entry :: "int \<Rightarrow> int \<Rightarrow> int \<Rightarrow> LineTableBuilder \<Rightarrow> LineTableBuilder" where
  "add_entry p ln c b =
    (if p < 0 then b
     else if started b \<and> (p < lastIP b \<or> ln = lastLn b \<and> c = lastCol b) then b
     else b\<lparr>buf := buf b @ put_uvarint (nat (wrap64 (p - lastIP b) mod 2 ^ 64))
                        @ put_varint (wrap64 (ln - lastLn b))
                        @ put_varint (wrap64 (c - lastCol b)),
            lastIP := p, lastLn := ln, lastCol := c, started := True\<rparr>)"

definition Add :: "int \<Rightarrow> int \<Rightarrow> int \<Rightarrow> LineTableBuilder \<Rightarrow> LineTableBuilder" where
  "Add p ln c b = (if ln \<le> 0 then b else add_entry p ln c b)"

definition AddOrReset :: "int \<Rightarrow> int \<Rightarrow> int \<Rightarrow> LineTableBuilder \<Rightarrow> LineTableBuilder" where
  "AddOrReset p ln c b =
    (if ln \<le> 0 then (if \<not> started b then b else add_entry p 0 0 b) else add_entry p ln c b)"

definition Build :: "LineTableBuilder \<Rightarrow> bytes" where
  "Build b = buf b"

text \<open>\<^verbatim>\<open>Remap\<close>: rebuild the table with every offset sent through \<open>offsets\<close>.\<close>

definition Remap :: "(int \<rightharpoonup> int) \<Rightarrow> bytes \<Rightarrow> bytes" where
  "Remap offsets t =
    Build (forEach (\<lambda>out entry.
             case offsets (ip entry) of
               None \<Rightarrow> (out, True)
             | Some moved \<Rightarrow> (AddOrReset moved (line entry) (col entry) out, True))
           empty_builder zero_entry t)"

section \<open>The reverse index\<close>

record LineIndex =
  firstIP :: "int \<rightharpoonup> int"
  index_lines :: "int list"

definition BuildLineIndex :: "bytes \<Rightarrow> LineIndex" where
  "BuildLineIndex t =
    (let index = forEach (\<lambda>index entry.
           if line entry \<le> 0 then (index, True)
           else if firstIP index (line entry) \<noteq> None then (index, True)
           else (\<lparr>firstIP = (firstIP index)(line entry \<mapsto> ip entry),
                  index_lines = index_lines index @ [line entry]\<rparr>, True))
         \<lparr>firstIP = Map.empty, index_lines = []\<rparr> zero_entry t
     in index\<lparr>index_lines := sort (index_lines index)\<rparr>)"

text \<open>\<^verbatim>\<open>sort.SearchInts\<close>: the first position whose element is not below \<open>x\<close>.\<close>

definition SearchInts :: "int list \<Rightarrow> int \<Rightarrow> nat" where
  "SearchInts xs x = length (takeWhile (\<lambda>a. a < x) xs)"

definition LineIndex_At :: "LineIndex \<Rightarrow> int \<Rightarrow> (int \<times> int) option" where
  "LineIndex_At ix ln =
    (if index_lines ix = [] \<or> ln \<le> 0 then None
     else let at = SearchInts (index_lines ix) ln in
       if at \<ge> length (index_lines ix) then None
       else let bound = index_lines ix ! at in
         Some (case firstIP ix bound of None \<Rightarrow> 0 | Some p \<Rightarrow> p, bound))"

definition LineIndex_Lines :: "LineIndex \<Rightarrow> int list" where
  "LineIndex_Lines ix = index_lines ix"

definition LineIndex_Empty :: "LineIndex \<Rightarrow> bool" where
  "LineIndex_Empty ix \<longleftrightarrow> index_lines ix = []"


section \<open>Varint round trips\<close>

lemma put_uvarint_nonempty: "put_uvarint n \<noteq> []"
  by (subst put_uvarint.simps) simp

lemma uvarint_loop_put:
  "i \<le> 9 \<Longrightarrow> n < 2 ^ (64 - 7 * i) \<Longrightarrow>
   uvarint_loop i x (put_uvarint n @ rest) = Some (x + n * 2 ^ (7 * i), i + length (put_uvarint n))"
proof (induction n arbitrary: i x rule: put_uvarint.induct)
  case (1 n)
  show ?case
  proof (cases "n < 128")
    case True
    have "n \<le> 1" if "i = 9" using 1(3) that by simp
    then show ?thesis using True 1(2) by (auto simp: put_uvarint.simps [of n] unat_byte_of_nat)
  next
    case False
    have "i \<le> 8"
    proof (rule ccontr)
      assume "\<not> i \<le> 8"
      then have "i = 9" using 1(2) by simp
      then show False using 1(3) False by simp
    qed
    then have exp: "64 - 7 * i = 7 + (64 - 7 * Suc i)" by simp
    have pow: "(2::nat) ^ (64 - 7 * i) = 128 * 2 ^ (64 - 7 * Suc i)"
      by (subst exp, subst power_add) simp
    have "n div 128 < 2 ^ (64 - 7 * Suc i)"
      using 1(3) unfolding pow by (simp add: less_mult_imp_div_less mult.commute)
    then have "uvarint_loop (Suc i) (x + n mod 128 * 2 ^ (7 * i)) (put_uvarint (n div 128) @ rest) =
        Some (x + n mod 128 * 2 ^ (7 * i) + n div 128 * 2 ^ (7 * Suc i),
              Suc i + length (put_uvarint (n div 128)))"
      using 1(1) [OF False] \<open>i \<le> 8\<close> by simp
    moreover have "n mod 128 * 2 ^ (7 * i) + n div 128 * 2 ^ (7 * Suc i) = n * 2 ^ (7 * i)"
    proof -
      have "(2::nat) ^ (7 * Suc i) = 128 * 2 ^ (7 * i)" by (simp add: power_add)
      then have "n mod 128 * 2 ^ (7 * i) + n div 128 * 2 ^ (7 * Suc i)
          = (n mod 128 + n div 128 * 128) * 2 ^ (7 * i)" by (simp only: algebra_simps)
      then show ?thesis by (simp only: mod_div_mult_eq)
    qed
    moreover have "unat (byte_of_nat (n mod 128 + 128)) = n mod 128 + 128"
      by (simp only: unat_byte_of_nat) (use mod_less_divisor [of 128 n] in \<open>simp only: mod_less\<close>)
    ultimately show ?thesis using False \<open>i \<le> 8\<close>
      by (simp add: put_uvarint.simps [of n] add.assoc)
  qed
qed

lemma uvarint_put [simp]:
  "n < 2 ^ 64 \<Longrightarrow> uvarint (put_uvarint n @ rest) = Some (n, length (put_uvarint n))"
  using uvarint_loop_put [of 0 n 0 rest] by (simp add: uvarint_def)

lemma varint_put [simp]:
  assumes "int64 x"
  shows "varint (put_varint x @ rest) = Some (x, length (put_varint x))"
proof (cases "x < 0")
  case True
  define k where "k = nat (- x - 1)"
  then have "nat (- 2 * x - 1) = 2 * k + 1" "x = - int k - 1" using True by auto
  moreover have "2 * k + 1 < 2 ^ 64" using assms True by (simp add: k_def int64_def)
  ultimately show ?thesis using True by (simp add: put_varint_def varint_def)
next
  case False
  define k where "k = nat x"
  then have "nat (2 * x) = 2 * k" "x = int k" using False by auto
  moreover have "2 * k < 2 ^ 64" using assms False by (simp add: k_def int64_def)
  ultimately show ?thesis using False by (simp add: put_varint_def varint_def)
qed

section \<open>The entries of a table\<close>

text \<open>The decoded entries, and the walk over them: \<^verbatim>\<open>forEach\<close> is a fold with early exit.\<close>

definition entries_from :: "lineEntry \<Rightarrow> bytes \<Rightarrow> lineEntry list" where
  "entries_from e t = forEach (\<lambda>es e. (es @ [e], True)) [] e t"

definition entries :: "bytes \<Rightarrow> lineEntry list" where
  "entries t = entries_from zero_entry t"

fun fold_until :: "('s \<Rightarrow> 'e \<Rightarrow> 's \<times> bool) \<Rightarrow> 's \<Rightarrow> 'e list \<Rightarrow> 's" where
  "fold_until visit s [] = s"
| "fold_until visit s (e # es) =
     (let (s', more) = visit s e in if more then fold_until visit s' es else s')"

definition advance_entry :: "lineEntry \<Rightarrow> nat \<Rightarrow> int \<Rightarrow> int \<Rightarrow> lineEntry" where
  "advance_entry e d1 d2 d3 =
     \<lparr>ip = wrap64 (ip e + int d1), line = wrap64 (line e + d2), col = wrap64 (col e + d3)\<rparr>"

lemma forEach_step:
  assumes "uvarint t = Some (d1, n1)" "varint (drop n1 t) = Some (d2, n2)"
    "varint (drop (n1 + n2) t) = Some (d3, n3)"
  shows "forEach visit s e t =
    (let (s', more) = visit s (advance_entry e d1 d2 d3) in
     if more then forEach visit s' (advance_entry e d1 d2 d3) (drop (n1 + n2 + n3) t) else s')"
  by (subst forEach.simps) (simp only: assms option.case prod.case Let_def advance_entry_def)

lemma forEach_cases:
  obtains (stop) "\<And>(visit :: 's \<Rightarrow> lineEntry \<Rightarrow> 's \<times> bool) s e. forEach visit s e t = s"
      "\<And>e. entries_from e t = []"
    | (step) d1 n1 d2 n2 d3 n3 where "uvarint t = Some (d1, n1)"
      "varint (drop n1 t) = Some (d2, n2)" "varint (drop (n1 + n2) t) = Some (d3, n3)"
      "length (drop (n1 + n2 + n3) t) < length t"
proof (cases "uvarint t")
  case None
  then show ?thesis by (intro stop) (simp_all add: forEach.simps [of _ _ _ t] entries_from_def)
next
  case (Some p)
  obtain d1 n1 where p: "p = (d1, n1)" by force
  with Some uvarint_pos have n1: "0 < n1" "n1 \<le> length t" by auto
  show ?thesis
  proof (cases "varint (drop n1 t)")
    case None
    with Some p show ?thesis by (intro stop) (simp_all add: forEach.simps [of _ _ _ t] entries_from_def)
  next
    case v2: (Some q)
    obtain d2 n2 where q: "q = (d2, n2)" by force
    show ?thesis
    proof (cases "varint (drop (n1 + n2) t)")
      case None
      with Some v2 p q show ?thesis by (intro stop) (simp_all add: forEach.simps [of _ _ _ t] entries_from_def)
    next
      case v3: (Some r)
      obtain d3 n3 where "r = (d3, n3)" by force
      with Some v2 v3 p q n1 show ?thesis by (intro step) auto
    qed
  qed
qed

lemma forEach_collect:
  "forEach (\<lambda>es e. (es @ [e], True)) acc e t = acc @ entries_from e t"
proof (induction "length t" arbitrary: acc e t rule: less_induct)
  case less
  show ?case
  proof (cases t rule: forEach_cases [where 's = "lineEntry list"])
    case (step d1 n1 d2 n2 d3 n3)
    then show ?thesis
      using forEach_step [OF step(1-3), of "\<lambda>es e. (es @ [e], True)"] less [OF step(4)]
      by (simp add: entries_from_def [of e t])
  qed simp
qed

lemma entries_from_step:
  assumes "uvarint t = Some (d1, n1)" "varint (drop n1 t) = Some (d2, n2)"
    "varint (drop (n1 + n2) t) = Some (d3, n3)"
  shows "entries_from e t = advance_entry e d1 d2 d3 #
     entries_from (advance_entry e d1 d2 d3) (drop (n1 + n2 + n3) t)"
  unfolding entries_from_def [of e t] forEach_step [OF assms] by (simp add: forEach_collect)

lemma forEach_fold_until: "forEach visit s e t = fold_until visit s (entries_from e t)"
proof (induction "length t" arbitrary: s e t rule: less_induct)
  case (less t)
  show ?case
  proof (cases t rule: forEach_cases [where 's = 'a])
    case (step d1 n1 d2 n2 d3 n3)
    then show ?thesis using less [OF step(4)]
      by (simp add: forEach_step [OF step(1-3), of visit] entries_from_step [OF step(1-3)]
          split: prod.split)
  qed simp
qed

lemma forEach_entries: "forEach visit s zero_entry t = fold_until visit s (entries t)"
  by (simp add: forEach_fold_until entries_def)

text \<open>The encoding of a list of entries as deltas against the entry before.\<close>

definition encode_delta :: "lineEntry \<Rightarrow> lineEntry \<Rightarrow> bytes" where
  "encode_delta e e' = put_uvarint (nat (wrap64 (ip e' - ip e) mod 2 ^ 64)) @
     put_varint (wrap64 (line e' - line e)) @ put_varint (wrap64 (col e' - col e))"

fun encode_entries :: "lineEntry \<Rightarrow> lineEntry list \<Rightarrow> bytes" where
  "encode_entries e [] = []"
| "encode_entries e (e' # es) = encode_delta e e' @ encode_entries e' es"

definition entry64 :: "lineEntry \<Rightarrow> bool" where
  "entry64 e \<longleftrightarrow> int64 (ip e) \<and> int64 (line e) \<and> int64 (col e)"

lemma wrap64_mod: "wrap64 (a + b mod 2 ^ 64) = wrap64 (a + b)"
proof -
  have "(a + b mod 2 ^ 64 + 2 ^ 63) mod 2 ^ 64 = (a + b + 2 ^ 63) mod (2 ^ 64 :: int)"
    using mod_add_right_eq [of "a + 2 ^ 63" b "2 ^ 64"] by (simp only: ac_simps)
  then show ?thesis by (simp only: wrap64_def)
qed

lemma entries_from_encode_delta:
  assumes "entry64 e'"
  shows "entries_from e (encode_delta e e' @ rest) = e' # entries_from e' rest"
proof -
  let ?d = "nat (wrap64 (ip e' - ip e) mod 2 ^ 64)"
  have d: "?d < 2 ^ 64" by (simp add: nat_less_iff)
  have "wrap64 (ip e + int ?d) = ip e'"
    using assms wrap64_mod [of "ip e" "wrap64 (ip e' - ip e)"] by (simp add: entry64_def)
  moreover have "wrap64 (line e + wrap64 (line e' - line e)) = line e'"
    "wrap64 (col e + wrap64 (col e' - col e)) = col e'"
    using assms by (simp_all add: entry64_def)
  ultimately show ?thesis
    using entries_from_step [of "encode_delta e e' @ rest" ?d "length (put_uvarint ?d)"
        "wrap64 (line e' - line e)" "length (put_varint (wrap64 (line e' - line e)))"
        "wrap64 (col e' - col e)" "length (put_varint (wrap64 (col e' - col e)))" e] d
    by (cases e') (simp add: encode_delta_def advance_entry_def)
qed

lemma entries_from_Nil [simp]: "entries_from e [] = []"
  by (simp add: entries_from_def forEach.simps uvarint_def)

lemma entries_from_encode [simp]:
  "\<forall>e' \<in> set es. entry64 e' \<Longrightarrow> entries_from e (encode_entries e es) = es"
  by (induction es arbitrary: e) (simp_all add: entries_from_encode_delta)

lemma encode_entries_snoc:
  "encode_entries e (es @ [e']) = encode_entries e es @ encode_delta (last (e # es)) e'"
  by (induction es arbitrary: e) auto

section \<open>What a lookup answers\<close>

text \<open>
  The reference: the entry that covers \<open>q\<close> is the last one at or before \<open>q\<close>, and it names a
  position unless it is a reset.
\<close>

definition pos_of :: "lineEntry \<Rightarrow> (int \<times> int) option" where
  "pos_of e = (if line e \<le> 0 then None else Some (line e, col e))"

definition covering :: "lineEntry list \<Rightarrow> int \<Rightarrow> (int \<times> int) option" where
  "covering es q = (let before = filter (\<lambda>e. ip e \<le> q) es in
     if before = [] then None else pos_of (last before))"

lemma covering_Nil [simp]: "covering [] q = None"
  by (simp add: covering_def)

lemma covering_snoc [simp]:
  "covering (es @ [e]) q = (if ip e \<le> q then pos_of e else covering es q)"
  by (simp add: covering_def)

lemma covering_all_before:
  "es \<noteq> [] \<Longrightarrow> sorted (map ip es) \<Longrightarrow> ip (last es) \<le> q \<Longrightarrow> covering es q = pos_of (last es)"
  by (cases es rule: rev_cases) auto

definition at_visit :: "int \<Rightarrow> (int \<times> int) option \<Rightarrow> lineEntry \<Rightarrow> (int \<times> int) option \<times> bool" where
  "at_visit q found entry =
     (if ip entry > q then (found, False) else (Some (line entry, col entry), True))"

lemma fold_until_at_visit:
  "sorted (map ip es) \<Longrightarrow> fold_until (at_visit q) found es =
    (let before = filter (\<lambda>e. ip e \<le> q) es in
     if before = [] then found else Some (line (last before), col (last before)))"
proof (induction es arbitrary: found)
  case (Cons e es)
  show ?case
  proof (cases "ip e > q")
    case True
    then have "filter (\<lambda>e. ip e \<le> q) es = []" using Cons.prems by (auto simp: filter_empty_conv)
    with True show ?thesis by (simp add: at_visit_def)
  next
    case False
    then show ?thesis using Cons by (simp add: at_visit_def Let_def)
  qed
qed simp

lemma At_covering:
  assumes "sorted (map ip (entries t))" "\<forall>e \<in> set (entries t). 0 \<le> ip e"
  shows "LineTable_At t q = covering (entries t) q"
proof -
  have [simp]: "entries [] = []" by (simp add: entries_def)
  have "filter (\<lambda>e. ip e \<le> q) (entries t) = []" if "q < 0"
    using assms(2) that by (force simp: filter_empty_conv)
  moreover have "(\<lambda>found entry. if ip entry > q then (found, False)
      else (Some (line entry, col entry), True)) = at_visit q"
    by (intro ext) (simp add: at_visit_def)
  ultimately show ?thesis
    using fold_until_at_visit [OF assms(1), of q None]
    by (auto simp: LineTable_At_def forEach_entries covering_def pos_of_def Let_def)
qed

section \<open>The builder records what it was told\<close>

definition builder_inv :: "LineTableBuilder \<Rightarrow> lineEntry list \<Rightarrow> bool" where
  "builder_inv b es \<longleftrightarrow>
     buf b = encode_entries zero_entry es \<and> (started b \<longleftrightarrow> es \<noteq> []) \<and>
     \<lparr>ip = lastIP b, line = lastLn b, col = lastCol b\<rparr> = last (zero_entry # es) \<and>
     (\<forall>e \<in> set es. entry64 e \<and> 0 \<le> ip e) \<and> sorted (map ip es)"

definition record_entry :: "lineEntry \<Rightarrow> lineEntry list \<Rightarrow> lineEntry list" where
  "record_entry e es =
    (if ip e < 0 \<or> es \<noteq> [] \<and> (ip e < ip (last es) \<or> line e = line (last es) \<and> col e = col (last es))
     then es else es @ [e])"

lemma builder_inv_empty [simp]: "builder_inv empty_builder []"
  by (simp add: builder_inv_def empty_builder_def zero_entry_def)

lemma builder_inv_last:
  "builder_inv b es \<Longrightarrow> es \<noteq> [] \<Longrightarrow>
     lastIP b = ip (last es) \<and> lastLn b = line (last es) \<and> lastCol b = col (last es)"
  by (auto simp: builder_inv_def) (metis lineEntry.select_convs)+

lemma builder_inv_Build: "builder_inv b es \<Longrightarrow> entries (Build b) = es"
  by (simp add: builder_inv_def Build_def entries_def)

lemma sorted_snoc_ip:
  "sorted (map ip es) \<Longrightarrow> (es \<noteq> [] \<Longrightarrow> ip (last es) \<le> ip e) \<Longrightarrow> sorted (map ip (es @ [e]))"
  by (cases es rule: rev_cases) (auto simp: sorted_append)

lemma builder_inv_add:
  assumes inv: "builder_inv b es" and e: "entry64 \<lparr>ip = p, line = ln, col = c\<rparr>"
  shows "builder_inv (add_entry p ln c b) (record_entry \<lparr>ip = p, line = ln, col = c\<rparr> es)"
proof (cases "p < 0 \<or> es \<noteq> [] \<and> (p < ip (last es) \<or> ln = line (last es) \<and> c = col (last es))")
  case True
  then show ?thesis using inv builder_inv_last [OF inv]
    by (auto simp: add_entry_def record_entry_def) (auto simp: builder_inv_def)
next
  case False
  let ?e = "\<lparr>ip = p, line = ln, col = c\<rparr>"
  have last: "ip (last (zero_entry # es)) = lastIP b" "line (last (zero_entry # es)) = lastLn b"
    "col (last (zero_entry # es)) = lastCol b"
    using inv by (auto simp: builder_inv_def) (metis lineEntry.select_convs)+
  have "add_entry p ln c b = b\<lparr>buf := buf b @ encode_delta (last (zero_entry # es)) ?e,
      lastIP := p, lastLn := ln, lastCol := c, started := True\<rparr>"
    using False inv builder_inv_last [OF inv] last
    by (auto simp: add_entry_def encode_delta_def builder_inv_def)
  moreover have snoc: "last (zero_entry # es @ [?e]) = ?e" "last [zero_entry, ?e] = ?e" by simp_all
  ultimately show ?thesis using False e inv sorted_snoc_ip [of es ?e]
    by (auto simp: builder_inv_def record_entry_def encode_entries_snoc snoc simp del: last.simps)
qed

text \<open>
  \<open>same_cover es cs\<close>: the encoded entries \<open>es\<close> answer every lookup as the calls \<open>cs\<close> would,
  though runs of equal positions and leading resets are missing from \<open>es\<close>.
\<close>

definition same_cover :: "lineEntry list \<Rightarrow> lineEntry list \<Rightarrow> bool" where
  "same_cover es cs \<longleftrightarrow>
     (\<forall>q. covering es q = covering cs q) \<and>
     (es \<noteq> [] \<longrightarrow> cs \<noteq> [] \<and> ip (last es) \<le> ip (last cs) \<and> pos_of (last es) = pos_of (last cs) \<and>
        (line (last es) \<le> 0 \<longrightarrow> line (last es) = 0 \<and> col (last es) = 0))"

definition record_call :: "LineTableBuilder \<Rightarrow> lineEntry \<Rightarrow> LineTableBuilder" where
  "record_call b e = AddOrReset (ip e) (line e) (col e) b"

lemma same_cover_skip:
  assumes "same_cover es cs" "sorted (map ip es)" "sorted (map ip (cs @ [e]))"
    and "es = [] \<Longrightarrow> pos_of e = None" and "es \<noteq> [] \<Longrightarrow> pos_of e = pos_of (last es)"
  shows "same_cover es (cs @ [e])"
proof -
  have "covering es q = pos_of e" if "ip e \<le> q" for q
  proof (cases "es = []")
    case False
    have "ip (last es) \<le> ip e" using assms(1,3) False
      by (cases cs rule: rev_cases) (auto simp: same_cover_def sorted_append)
    then show ?thesis using covering_all_before [OF False assms(2)] assms(5) False that by simp
  qed (use assms(4) in simp)
  moreover have "ip (last es) \<le> ip e" if "es \<noteq> []" using assms(1,3) that
    by (cases cs rule: rev_cases) (auto simp: same_cover_def sorted_append)
  ultimately show ?thesis using assms(1,5) by (auto simp: same_cover_def)
qed

lemma same_cover_snoc:
  assumes "same_cover es cs" "ip e' = ip e" "pos_of e' = pos_of e"
    "line e' \<le> 0 \<Longrightarrow> line e' = 0 \<and> col e' = 0"
  shows "same_cover (es @ [e']) (cs @ [e])"
  using assms by (auto simp: same_cover_def)

lemma pos_of_inject:
  "pos_of a = pos_of b \<Longrightarrow> line a > 0 \<Longrightarrow> line a = line b \<and> col a = col b"
  by (simp add: pos_of_def split: if_splits)

lemma record_call_step:
  assumes inv: "builder_inv b es" and cov: "same_cover es cs"
    and s: "sorted (map ip (cs @ [e]))" and e: "entry64 e" "0 \<le> ip e"
  obtains es' where "builder_inv (record_call b e) es'" "same_cover es' (cs @ [e])"
proof -
  let ?r = "\<lparr>ip = ip e, line = 0, col = 0\<rparr>"
  have sorted: "sorted (map ip es)" and st: "started b \<longleftrightarrow> es \<noteq> []"
    using inv by (auto simp: builder_inv_def)
  have ord: "\<not> ip e < ip (last es)" if "es \<noteq> []" using cov s that
    by (cases cs rule: rev_cases) (auto simp: same_cover_def sorted_append)
  consider (lead) "line e \<le> 0" "es = []" | (reset) "line e \<le> 0" "es \<noteq> []" | (entry) "line e > 0"
    by fastforce
  then show thesis
  proof cases
    case lead
    then show ?thesis using inv st same_cover_skip [OF cov sorted s]
      by (intro that [of es]) (auto simp: record_call_def AddOrReset_def pos_of_def)
  next
    case reset
    have "builder_inv (record_call b e) (record_entry ?r es)"
      using reset st builder_inv_add [OF inv, of "ip e" 0 0] e
      by (simp add: record_call_def AddOrReset_def entry64_def)
    moreover have "same_cover (record_entry ?r es) (cs @ [e])"
      using same_cover_skip [OF cov sorted s] same_cover_snoc [OF cov, of ?r e] reset ord e(2)
      by (auto simp: record_entry_def pos_of_def)
    ultimately show ?thesis by (rule that)
  next
    case entry
    have "builder_inv (record_call b e) (record_entry e es)"
      using entry builder_inv_add [OF inv, of "ip e" "line e" "col e"] e
      by (cases e) (simp add: record_call_def AddOrReset_def)
    moreover have "same_cover (record_entry e es) (cs @ [e])"
      using same_cover_skip [OF cov sorted s] same_cover_snoc [OF cov, of e e] entry ord e(2)
      by (auto simp: record_entry_def pos_of_def)
    ultimately show ?thesis by (rule that)
  qed
qed

lemma record_calls:
  assumes "sorted (map ip cs)" "\<forall>e \<in> set cs. entry64 e \<and> 0 \<le> ip e"
  shows "\<exists>es. builder_inv (foldl record_call empty_builder cs) es \<and> same_cover es cs"
  using assms
proof (induction cs rule: rev_induct)
  case Nil
  then show ?case by (intro exI [of _ "[]"]) (simp add: same_cover_def)
next
  case (snoc e cs)
  then obtain es where "builder_inv (foldl record_call empty_builder cs) es" "same_cover es cs"
    by (auto simp: sorted_append)
  then show ?case using snoc.prems record_call_step [of _ es cs e] by (metis foldl_Cons foldl_Nil
      foldl_append in_set_conv_decomp)
qed

lemma At_record_calls:
  assumes "sorted (map ip cs)" "\<forall>e \<in> set cs. entry64 e \<and> 0 \<le> ip e"
  shows "LineTable_At (Build (foldl record_call empty_builder cs)) q = covering cs q"
proof -
  obtain es where es: "builder_inv (foldl record_call empty_builder cs) es" "same_cover es cs"
    using record_calls [OF assms] by blast
  then have "LineTable_At (Build (foldl record_call empty_builder cs)) q = covering es q"
    using At_covering builder_inv_Build [OF es(1)] by (auto simp: builder_inv_def)
  then show ?thesis using es(2) by (simp add: same_cover_def)
qed

lemma foldl_Add:
  "foldl (\<lambda>b e. Add (ip e) (line e) (col e) b) b cs = foldl record_call b (filter (\<lambda>e. line e > 0) cs)"
  by (induction cs arbitrary: b) (auto simp: Add_def record_call_def AddOrReset_def)

lemma foldl_AddOrReset:
  "foldl (\<lambda>b e. AddOrReset (ip e) (line e) (col e) b) b cs = foldl record_call b cs"
  by (simp add: record_call_def [abs_def])

text \<open>
  C33: A table built by \<^verbatim>\<open>AddOrReset\<close> calls in emission order (offsets ascending) answers a
  lookup of any offset with the position of the last call at or before that offset, and with
  nothing when there is no such call or it was a reset.  The delta compression, the varints
  and the dropped duplicate entries do not show.
\<close>

theorem AddOrReset_At:
  assumes "sorted (map ip cs)" "\<forall>e \<in> set cs. entry64 e \<and> 0 \<le> ip e"
  shows "LineTable_At (Build (foldl (\<lambda>b e. AddOrReset (ip e) (line e) (col e) b) empty_builder cs)) q
    = covering cs q"
  unfolding foldl_AddOrReset by (rule At_record_calls [OF assms])

theorem AddOrReset_At_witness:
  "LineTable_At (Build (foldl (\<lambda>b e. AddOrReset (ip e) (line e) (col e) b) empty_builder
     [\<lparr>ip = 0, line = 3, col = 1\<rparr>, \<lparr>ip = 4, line = 3, col = 1\<rparr>,
      \<lparr>ip = 7, line = 0, col = 0\<rparr>, \<lparr>ip = 300, line = 2, col = 9\<rparr>])) 5 = Some (3, 1)"
  using AddOrReset_At [of "[\<lparr>ip = 0, line = 3, col = 1\<rparr>, \<lparr>ip = 4, line = 3, col = 1\<rparr>,
      \<lparr>ip = 7, line = 0, col = 0\<rparr>, \<lparr>ip = 300, line = 2, col = 9\<rparr>]" 5]
  by (simp add: entry64_def int64_def covering_def pos_of_def)

text \<open>
  C39: A table built by \<^verbatim>\<open>Add\<close> calls in emission order answers a lookup with the last call at or
  before the offset that carried a position: a call without one inherits the position before.
\<close>

theorem Add_At:
  assumes "sorted (map ip cs)" "\<forall>e \<in> set cs. entry64 e \<and> 0 \<le> ip e"
  shows "LineTable_At (Build (foldl (\<lambda>b e. Add (ip e) (line e) (col e) b) empty_builder cs)) q
    = covering (filter (\<lambda>e. line e > 0) cs) q"
  unfolding foldl_Add using assms by (intro At_record_calls) (auto simp: sorted_map intro: sorted_wrt_filter)

theorem Add_At_witness:
  "LineTable_At (Build (foldl (\<lambda>b e. Add (ip e) (line e) (col e) b) empty_builder
     [\<lparr>ip = 0, line = 3, col = 1\<rparr>, \<lparr>ip = 4, line = 0, col = 0\<rparr>])) 5 = Some (3, 1)"
  using Add_At [of "[\<lparr>ip = 0, line = 3, col = 1\<rparr>, \<lparr>ip = 4, line = 0, col = 0\<rparr>]" 5]
  by (simp add: entry64_def int64_def covering_def pos_of_def)

section \<open>Remapping\<close>

definition moved_entry :: "(int \<rightharpoonup> int) \<Rightarrow> lineEntry \<Rightarrow> lineEntry" where
  "moved_entry offsets e = e\<lparr>ip := the (offsets (ip e))\<rparr>"

lemma fold_until_remap:
  assumes "\<forall>e \<in> set es. ip e \<in> dom offsets"
  shows "fold_until (\<lambda>out entry. case offsets (ip entry) of None \<Rightarrow> (out, True)
       | Some moved \<Rightarrow> (AddOrReset moved (line entry) (col entry) out, True)) b es
     = foldl record_call b (map (moved_entry offsets) es)"
  using assms by (induction es arbitrary: b) (auto simp: record_call_def moved_entry_def)

lemma entries_from_entry64: "e \<in> set (entries_from e0 t) \<Longrightarrow> entry64 e"
proof (induction "length t" arbitrary: e0 t rule: less_induct)
  case less
  show ?case
  proof (cases t rule: forEach_cases [where 's = unit])
    case stop
    then show ?thesis using less.prems by simp
  next
    case (step d1 n1 d2 n2 d3 n3)
    then show ?thesis using less.prems less.hyps [OF step(4)]
      by (auto simp: entries_from_step [OF step(1-3)] advance_entry_def entry64_def)
  qed
qed

lemma covering_moved:
  assumes "\<And>e. e \<in> set es \<Longrightarrow> the (offsets (ip e)) \<le> q' \<longleftrightarrow> ip e \<le> q"
  shows "covering (map (moved_entry offsets) es) q' = covering es q"
proof -
  have "filter (\<lambda>e. ip e \<le> q') (map (moved_entry offsets) es) =
      map (moved_entry offsets) (filter (\<lambda>e. ip e \<le> q) es)"
    using assms by (induction es) (auto simp: moved_entry_def)
  then show ?thesis
    by (auto simp: covering_def Let_def last_map pos_of_def moved_entry_def)
qed

definition monotone_offsets :: "(int \<rightharpoonup> int) \<Rightarrow> bool" where
  "monotone_offsets offsets \<longleftrightarrow>
     (\<forall>a b a' b'. offsets a = Some a' \<longrightarrow> offsets b = Some b' \<longrightarrow> a < b \<longrightarrow> a' < b') \<and>
     (\<forall>a a'. offsets a = Some a' \<longrightarrow> 0 \<le> a' \<and> int64 a')"

lemma monotone_offsets_le:
  "monotone_offsets offsets \<Longrightarrow> offsets a = Some a' \<Longrightarrow> offsets b = Some b' \<Longrightarrow> a' \<le> b' \<longleftrightarrow> a \<le> b"
  unfolding monotone_offsets_def by (metis linorder_not_less order_less_imp_le option.inject order_le_less)

lemma monotone_offsets_the:
  "monotone_offsets offsets \<Longrightarrow> a \<in> dom offsets \<Longrightarrow> b \<in> dom offsets \<Longrightarrow> a \<le> b \<Longrightarrow>
     the (offsets a) \<le> the (offsets b)"
  by (auto simp: dom_def monotone_offsets_le)

text \<open>
  C34: After a pass that moves instructions apart without reordering them, the remapped table
  gives every moved instruction the position it had: for a table with ascending offsets and
  an offset map that is strictly monotone, defined on the table's entries and on the
  instruction looked up, a lookup of the new offset in \<^verbatim>\<open>Remap\<close> is the lookup of the old one.
\<close>

theorem Remap_At:
  assumes t: "sorted (map ip (entries t))" "\<forall>e \<in> set (entries t). 0 \<le> ip e \<and> ip e \<in> dom offsets"
    and mono: "monotone_offsets offsets" and q: "offsets q = Some q'"
  shows "LineTable_At (Remap offsets t) q' = LineTable_At t q"
proof -
  let ?cs = "map (moved_entry offsets) (entries t)"
  have "sorted (map ip ?cs)"
    using t mono unfolding sorted_map sorted_wrt_map
    by (auto simp: moved_entry_def monotone_offsets_the intro!: sorted_wrt_mono_rel [OF _ t(1) [unfolded sorted_map]])
  moreover have "\<forall>e \<in> set ?cs. entry64 e \<and> 0 \<le> ip e"
    using t(2) mono entries_from_entry64
    by (auto simp: moved_entry_def entry64_def entries_def monotone_offsets_def dom_def)
  moreover have "Remap offsets t = Build (foldl record_call empty_builder ?cs)"
    using t(2) by (simp add: Remap_def forEach_entries fold_until_remap)
  moreover have "covering ?cs q' = covering (entries t) q"
    using t(2) q by (intro covering_moved) (auto simp: dom_def monotone_offsets_le [OF mono])
  ultimately show ?thesis using t At_covering [of t q] At_record_calls [of ?cs q'] by simp
qed

theorem Remap_At_witness:
  "LineTable_At (Remap [0 \<mapsto> 5, 3 \<mapsto> 12, 4 \<mapsto> 20]
     (Build (foldl record_call empty_builder
       [\<lparr>ip = 0, line = 3, col = 1\<rparr>, \<lparr>ip = 3, line = 7, col = 2\<rparr>]))) 20 = Some (7, 2)"
proof -
  let ?es = "[\<lparr>ip = 0, line = 3, col = 1\<rparr>, \<lparr>ip = 3, line = 7, col = 2\<rparr>]"
  let ?t = "Build (foldl record_call empty_builder ?es)"
  have es: "entries ?t = ?es"
    using builder_inv_Build [OF builder_inv_add [OF builder_inv_add [OF builder_inv_empty, of 0 3 1], of 3 7 2]]
    by (simp add: record_call_def AddOrReset_def record_entry_def entry64_def int64_def)
  then have "LineTable_At ?t 4 = Some (7, 2)"
    using At_covering [of ?t 4] by (simp add: covering_def pos_of_def)
  moreover have "monotone_offsets [0 \<mapsto> 5, 3 \<mapsto> 12, 4 \<mapsto> 20]"
    by (auto simp: monotone_offsets_def int64_def split: if_splits)
  ultimately show ?thesis
    using Remap_At [of ?t "[0 \<mapsto> 5, 3 \<mapsto> 12, 4 \<mapsto> 20]" 4 20] es by simp
qed

section \<open>The reverse index answers with the nearest line that has code\<close>

definition index_visit :: "LineIndex \<Rightarrow> lineEntry \<Rightarrow> LineIndex" where
  "index_visit index entry =
    (if line entry \<le> 0 \<or> firstIP index (line entry) \<noteq> None then index
     else \<lparr>firstIP = (firstIP index)(line entry \<mapsto> ip entry),
           index_lines = index_lines index @ [line entry]\<rparr>)"

definition coded_lines :: "lineEntry list \<Rightarrow> int set" where
  "coded_lines es = {l \<in> line ` set es. l > 0}"

definition index_inv :: "lineEntry list \<Rightarrow> LineIndex \<Rightarrow> bool" where
  "index_inv es ix \<longleftrightarrow> set (index_lines ix) = coded_lines es \<and>
     (\<forall>l. firstIP ix l = (if l \<le> 0 then None else map_option ip (find (\<lambda>e. line e = l) es)))"

lemma fold_until_index:
  "fold_until (\<lambda>index entry. if line entry \<le> 0 then (index, True)
      else if firstIP index (line entry) \<noteq> None then (index, True)
      else (\<lparr>firstIP = (firstIP index)(line entry \<mapsto> ip entry),
             index_lines = index_lines index @ [line entry]\<rparr>, True)) s es = foldl index_visit s es"
  by (induction es arbitrary: s) (auto simp: index_visit_def)

lemma find_snoc: "find P (xs @ [x]) = (case find P xs of None \<Rightarrow> if P x then Some x else None | Some y \<Rightarrow> Some y)"
  by (induction xs) auto

lemma find_None_line: "find (\<lambda>e. line e = l) es = None \<longleftrightarrow> l \<notin> line ` set es"
  by (auto simp: find_None_iff)

lemma index_inv_visit: "index_inv es ix \<Longrightarrow> index_inv (es @ [e]) (index_visit ix e)"
proof -
  assume inv: "index_inv es ix"
  have "line e \<in> coded_lines es \<longleftrightarrow> line e > 0 \<and> find (\<lambda>a. line a = line e) es \<noteq> None"
    by (auto simp: find_None_line coded_lines_def)
  then show ?thesis using inv
    by (cases "find (\<lambda>a. line a = line e) es")
       (auto simp: index_inv_def index_visit_def find_snoc coded_lines_def split: option.split)
qed

lemma index_inv_foldl:
  "index_inv es (foldl index_visit \<lparr>firstIP = Map.empty, index_lines = []\<rparr> es)"
proof (induction es rule: rev_induct)
  case Nil
  then show ?case by (simp add: index_inv_def coded_lines_def)
next
  case (snoc e es)
  then show ?case using index_inv_visit by simp
qed

lemma BuildLineIndex_inv:
  "index_inv (entries t) (BuildLineIndex t) \<and> sorted (index_lines (BuildLineIndex t))"
  using index_inv_foldl [of "entries t"]
  by (simp add: BuildLineIndex_def forEach_entries fold_until_index Let_def index_inv_def)

lemma find_first_ip:
  assumes "sorted (map ip es)" "find (\<lambda>e. line e = l) es = Some e"
  shows "line e = l \<and> e \<in> set es \<and> (\<forall>e' \<in> set es. line e' = l \<longrightarrow> ip e \<le> ip e')"
  using assms by (induction es) (auto split: if_splits)

text \<open>\<^verbatim>\<open>sort.SearchInts\<close> on an ascending list finds the least element not below \<open>x\<close>.\<close>

lemma SearchInts_less:
  assumes "sorted xs" "SearchInts xs x < length xs"
  shows "xs ! SearchInts xs x \<in> set xs" "x \<le> xs ! SearchInts xs x"
    "y \<in> set xs \<Longrightarrow> x \<le> y \<Longrightarrow> xs ! SearchInts xs x \<le> y"
proof -
  let ?k = "SearchInts xs x"
  show "xs ! ?k \<in> set xs" "x \<le> xs ! ?k"
    using assms(2) nth_length_takeWhile [of "\<lambda>a. a < x" xs] by (auto simp: SearchInts_def)
  assume "y \<in> set xs" "x \<le> y"
  then obtain j where j: "j < length xs" "xs ! j = y" by (auto simp: in_set_conv_nth)
  have "?k \<le> j"
  proof (rule ccontr)
    assume "\<not> ?k \<le> j"
    then have "xs ! j < x"
      using nth_mem [of j "takeWhile (\<lambda>a. a < x) xs"] set_takeWhileD [of "xs ! j" "\<lambda>a. a < x" xs]
      by (simp add: SearchInts_def takeWhile_nth)
    then show False using j \<open>x \<le> y\<close> by simp
  qed
  then show "xs ! ?k \<le> y" using j assms(1) by (auto simp: sorted_iff_nth_mono)
qed

lemma SearchInts_ge: "length xs \<le> SearchInts xs x \<Longrightarrow> y \<in> set xs \<Longrightarrow> y < x"
proof -
  assume "length xs \<le> SearchInts xs x" "y \<in> set xs"
  then have "takeWhile (\<lambda>a. a < x) xs = xs"
    by (metis SearchInts_def length_takeWhile_le le_antisym takeWhile_eq_take take_all)
  then show "y < x" using \<open>y \<in> set xs\<close> by (metis set_takeWhileD)
qed

text \<open>
  C35: The reverse index built from a table with ascending offsets binds a requested line to
  the least line at or after it that has code, and answers with the lowest offset of that
  line; a line past the last one with code binds to nothing.
\<close>

theorem LineIndex_At_nearest:
  assumes "sorted (map ip (entries t))" "0 < ln"
  shows "case LineIndex_At (BuildLineIndex t) ln of
      None \<Rightarrow> \<forall>l \<in> coded_lines (entries t). l < ln
    | Some (p, bound) \<Rightarrow>
        bound \<in> coded_lines (entries t) \<and> ln \<le> bound \<and>
        (\<forall>l \<in> coded_lines (entries t). ln \<le> l \<longrightarrow> bound \<le> l) \<and>
        (\<exists>e \<in> set (entries t). line e = bound \<and> ip e = p) \<and>
        (\<forall>e \<in> set (entries t). line e = bound \<longrightarrow> p \<le> ip e)"
proof -
  let ?ix = "BuildLineIndex t"
  let ?k = "SearchInts (index_lines ?ix) ln"
  have inv: "index_inv (entries t) ?ix" and s: "sorted (index_lines ?ix)"
    using BuildLineIndex_inv by auto
  have lines: "set (index_lines ?ix) = coded_lines (entries t)" using inv by (simp add: index_inv_def)
  show ?thesis
  proof (cases "?k < length (index_lines ?ix)")
    case False
    then show ?thesis using SearchInts_ge [of "index_lines ?ix" ln] lines assms(2)
      by (auto simp: LineIndex_At_def Let_def)
  next
    case True
    define bound where "bound = index_lines ?ix ! ?k"
    have b: "bound \<in> coded_lines (entries t)" "ln \<le> bound"
      "\<forall>l \<in> coded_lines (entries t). ln \<le> l \<longrightarrow> bound \<le> l"
      using SearchInts_less [OF s True] lines by (auto simp: bound_def)
    then obtain e where e: "find (\<lambda>e. line e = bound) (entries t) = Some e" "bound > 0"
      using find_None_line by (fastforce simp: coded_lines_def)
    then have "LineIndex_At ?ix ln = Some (ip e, bound)"
      using True inv assms(2) by (auto simp: LineIndex_At_def Let_def index_inv_def bound_def)
    then show ?thesis using b find_first_ip [OF assms(1) e(1)] by auto
  qed
qed

theorem LineIndex_At_nearest_witness:
  "LineIndex_At (BuildLineIndex (Build (foldl record_call empty_builder
     [\<lparr>ip = 0, line = 7, col = 1\<rparr>, \<lparr>ip = 3, line = 3, col = 2\<rparr>]))) 4 = Some (0, 7)"
proof -
  define t where "t = Build (foldl record_call empty_builder
     [\<lparr>ip = 0, line = 7, col = 1\<rparr>, \<lparr>ip = 3, line = 3, col = 2\<rparr>])"
  have es: "entries t = [\<lparr>ip = 0, line = 7, col = 1\<rparr>, \<lparr>ip = 3, line = 3, col = 2\<rparr>]"
    using builder_inv_Build [OF builder_inv_add [OF builder_inv_add [OF builder_inv_empty, of 0 7 1], of 3 3 2]]
    by (simp add: t_def record_call_def AddOrReset_def record_entry_def entry64_def int64_def)
  then have "sorted (map ip (entries t))" and lines: "coded_lines (entries t) = {7, 3}"
    by (auto simp: coded_lines_def)
  note nearest = LineIndex_At_nearest [OF this(1), of 4]
  obtain p b where pb: "LineIndex_At (BuildLineIndex t) 4 = Some (p, b)"
    using nearest by (cases "LineIndex_At (BuildLineIndex t) 4") (auto simp: lines)
  then have b: "b = 7" using nearest by (auto simp: lines)
  then have "p = 0" using nearest pb by (simp add: es)
  then show ?thesis using pb b by (simp only: t_def)
qed

end
