(* ===== verification/Float64.thy ===== *)
theory Float64
  imports Prelude
begin

text \<open>
  The \<^verbatim>\<open>float64\<close> arithmetic of Go that the object package and the virtual machine use:
  IEEE 754 binary64 with round to nearest, ties to even.  A float is its bit pattern
  (\<^verbatim>\<open>math.Float64bits\<close>).  Every finite float is an integer multiple of \<open>2 ^ (-1074)\<close>, so its
  value is kept exactly as that integer, \<open>f_scaled\<close>, and every operation is one exact integer
  computation followed by one rounding.  Infinities scale to an integer above every finite
  one, which makes the comparisons uniform.

  A result that is not a number is the one quiet NaN \<^verbatim>\<open>math.NaN()\<close> returns: which of the NaN
  patterns an operation yields is not fixed by the language.
\<close>

type_synonym float64 = "64 word"

text \<open>The unit \<open>2 ^ (-1074)\<close>, as the number of units in one.\<close>

definition f_unit :: nat where
  "f_unit = 2 ^ 1074"

section \<open>Fields and classification\<close>

definition f_neg :: "float64 \<Rightarrow> bool" where
  "f_neg w \<longleftrightarrow> 2 ^ 63 \<le> unat w"

definition f_mag :: "float64 \<Rightarrow> nat" where
  "f_mag w = unat w mod 2 ^ 63"

definition f_exp :: "float64 \<Rightarrow> nat" where
  "f_exp w = f_mag w div 2 ^ 52"

definition f_man :: "float64 \<Rightarrow> nat" where
  "f_man w = f_mag w mod 2 ^ 52"

definition f_IsNaN :: "float64 \<Rightarrow> bool" where
  "f_IsNaN w \<longleftrightarrow> f_exp w = 2047 \<and> f_man w \<noteq> 0"

definition f_is_inf :: "float64 \<Rightarrow> bool" where
  "f_is_inf w \<longleftrightarrow> f_exp w = 2047 \<and> f_man w = 0"

definition f_finite :: "float64 \<Rightarrow> bool" where
  "f_finite w \<longleftrightarrow> f_exp w < 2047"

text \<open>The magnitude in units of \<open>2 ^ (-1074)\<close>: subnormal below \<open>2 ^ 52\<close>, an implicit bit above.\<close>

definition mag_scaled :: "nat \<Rightarrow> nat" where
  "mag_scaled b = (if b < 2 ^ 52 then b else (2 ^ 52 + b mod 2 ^ 52) * 2 ^ (b div 2 ^ 52 - 1))"

definition f_scaled :: "float64 \<Rightarrow> int" where
  "f_scaled w = (if f_neg w then - int (mag_scaled (f_mag w)) else int (mag_scaled (f_mag w)))"

definition f_make :: "bool \<Rightarrow> nat \<Rightarrow> float64" where
  "f_make neg b = word_of_int (int (if neg then 2 ^ 63 + b else b))"

definition f_inf_mag :: nat where
  "f_inf_mag = 2047 * 2 ^ 52"

definition f_NaN :: float64 where
  "f_NaN = 0x7FF8000000000001"

definition f_zero :: float64 where
  "f_zero = 0"

section \<open>Rounding\<close>

fun bit_length :: "nat \<Rightarrow> nat" where
  "bit_length n = (if n = 0 then 0 else Suc (bit_length (n div 2)))"

declare bit_length.simps [simp del]

text \<open>
  The magnitude bits nearest to \<open>num / den\<close> units of \<open>2 ^ (-1074)\<close>.  The quotient is cut to 53
  bits, rounded half to even, and its exponent added in the exponent field; a carry out of
  the fraction is the next exponent, and a result past the largest finite float is infinity.
\<close>

definition round_ratio :: "nat \<Rightarrow> nat \<Rightarrow> nat" where
  "round_ratio num den =
    (let e = bit_length (num div den) - 53;
         d = den * 2 ^ e;
         q = num div d;
         r = num mod d;
         q' = (if 2 * r > d \<or> 2 * r = d \<and> odd q then q + 1 else q)
     in min f_inf_mag (e * 2 ^ 52 + q'))"

definition f_round :: "bool \<Rightarrow> nat \<Rightarrow> nat \<Rightarrow> float64" where
  "f_round neg num den = f_make neg (round_ratio num den)"

section \<open>Comparisons\<close>

definition f_lt :: "float64 \<Rightarrow> float64 \<Rightarrow> bool" where
  "f_lt a b \<longleftrightarrow> \<not> f_IsNaN a \<and> \<not> f_IsNaN b \<and> f_scaled a < f_scaled b"

definition f_le :: "float64 \<Rightarrow> float64 \<Rightarrow> bool" where
  "f_le a b \<longleftrightarrow> \<not> f_IsNaN a \<and> \<not> f_IsNaN b \<and> f_scaled a \<le> f_scaled b"

definition f_eq :: "float64 \<Rightarrow> float64 \<Rightarrow> bool" where
  "f_eq a b \<longleftrightarrow> \<not> f_IsNaN a \<and> \<not> f_IsNaN b \<and> f_scaled a = f_scaled b"

section \<open>Arithmetic\<close>

text \<open>An exact sum of zero is \<open>+0\<close> unless both operands are negative zeros.\<close>

definition f_add :: "float64 \<Rightarrow> float64 \<Rightarrow> float64" where
  "f_add a b =
    (if f_IsNaN a \<or> f_IsNaN b then f_NaN
     else if f_is_inf a then (if f_is_inf b \<and> f_neg a \<noteq> f_neg b then f_NaN else a)
     else if f_is_inf b then b
     else let s = f_scaled a + f_scaled b in
       if s = 0 then f_make (f_neg a \<and> f_neg b) 0
       else f_round (s < 0) (nat \<bar>s\<bar>) 1)"

definition f_minus :: "float64 \<Rightarrow> float64" where
  "f_minus a = (if f_IsNaN a then f_NaN else f_make (\<not> f_neg a) (f_mag a))"

definition f_sub :: "float64 \<Rightarrow> float64 \<Rightarrow> float64" where
  "f_sub a b = f_add a (f_minus b)"

definition f_mul :: "float64 \<Rightarrow> float64 \<Rightarrow> float64" where
  "f_mul a b =
    (let neg = (f_neg a \<noteq> f_neg b) in
     if f_IsNaN a \<or> f_IsNaN b then f_NaN
     else if f_is_inf a \<or> f_is_inf b then
       (if f_mag a = 0 \<or> f_mag b = 0 then f_NaN else f_make neg f_inf_mag)
     else f_round neg (nat \<bar>f_scaled a * f_scaled b\<bar>) f_unit)"

definition f_div :: "float64 \<Rightarrow> float64 \<Rightarrow> float64" where
  "f_div a b =
    (let neg = (f_neg a \<noteq> f_neg b) in
     if f_IsNaN a \<or> f_IsNaN b then f_NaN
     else if f_is_inf a then (if f_is_inf b then f_NaN else f_make neg f_inf_mag)
     else if f_is_inf b then f_make neg 0
     else if f_mag b = 0 then (if f_mag a = 0 then f_NaN else f_make neg f_inf_mag)
     else f_round neg (nat \<bar>f_scaled a\<bar> * f_unit) (nat \<bar>f_scaled b\<bar>))"

text \<open>\<^verbatim>\<open>math.Mod\<close>: the remainder of the truncated division, exact, with the sign of \<open>a\<close>.\<close>

definition f_Mod :: "float64 \<Rightarrow> float64 \<Rightarrow> float64" where
  "f_Mod a b =
    (if f_IsNaN a \<or> f_IsNaN b \<or> f_is_inf a \<or> f_mag b = 0 then f_NaN
     else if f_is_inf b then a
     else f_round (f_neg a) (nat \<bar>f_scaled a\<bar> mod nat \<bar>f_scaled b\<bar>) 1)"

text \<open>\<^verbatim>\<open>math.Floor\<close>, which keeps NaN, infinities and zeros as they are.\<close>

definition f_Floor :: "float64 \<Rightarrow> float64" where
  "f_Floor a =
    (if f_IsNaN a then f_NaN
     else if f_is_inf a \<or> f_mag a = 0 then a
     else let n = f_scaled a div int f_unit in f_round (n < 0) (nat \<bar>n\<bar> * f_unit) 1)"

text \<open>The conversion of an integer rounds to nearest even.\<close>

definition f_of_int :: "int \<Rightarrow> float64" where
  "f_of_int a = f_round (a < 0) (nat \<bar>a\<bar> * f_unit) 1"

text \<open>
  The conversion to \<^verbatim>\<open>int64\<close> of a value in range truncates toward zero; out of range it is
  implementation-defined, and the model gives the minimum integer as amd64 does.
\<close>

definition f_to_int :: "float64 \<Rightarrow> int" where
  "f_to_int a =
    (if f_IsNaN a then - (2 ^ 63)
     else let n = (if f_neg a then - (\<bar>f_scaled a\<bar> div int f_unit) else f_scaled a div int f_unit)
       in if int64 n then n else - (2 ^ 63))"

section \<open>Bit lengths and scaled magnitudes\<close>

lemma bit_length_bounds: "0 < n \<Longrightarrow> 2 ^ (bit_length n - 1) \<le> n \<and> n < 2 ^ bit_length n"
proof (induction n rule: bit_length.induct)
  case (1 n)
  show ?case
  proof (cases "n div 2 = 0")
    case True
    then have "n = 1" using 1(2) by linarith
    then show ?thesis by (simp add: bit_length.simps [of "Suc 0"] bit_length.simps [of 0])
  next
    case False
    then obtain k where k: "bit_length (n div 2) = Suc k"
      by (simp add: bit_length.simps [of "n div 2"])
    then have "2 ^ k \<le> n div 2" "n div 2 < 2 ^ Suc k" using 1 False by auto
    then have "2 ^ Suc k \<le> n" "n < 2 ^ Suc (Suc k)" by auto
    then show ?thesis using 1(2) k by (simp add: bit_length.simps [of n])
  qed
qed

lemma bit_length_0 [simp]: "bit_length 0 = 0"
  by (simp add: bit_length.simps)

lemma bit_length_unique: "2 ^ k \<le> n \<Longrightarrow> n < 2 ^ Suc k \<Longrightarrow> bit_length n = Suc k"
proof -
  assume n: "2 ^ k \<le> n" "n < 2 ^ Suc k"
  then have pos: "0 < n" by (metis gr0I not_less zero_less_numeral zero_less_power)
  note b = bit_length_bounds [OF pos]
  have nz: "bit_length n \<noteq> 0" using pos by (simp add: bit_length.simps [of n])
  have "k < bit_length n" using n(1) b by (metis le_less_trans power_less_imp_less_exp one_less_numeral_iff semiring_norm(76))
  moreover have "bit_length n - 1 < Suc k" using n(2) b
    by (metis le_less_trans power_less_imp_less_exp one_less_numeral_iff semiring_norm(76))
  ultimately show ?thesis using nz by linarith
qed

lemma bit_length_le: "n < 2 ^ k \<Longrightarrow> bit_length n \<le> k"
proof (cases "n = 0")
  case False
  assume "n < 2 ^ k"
  moreover have "2 ^ (bit_length n - 1) \<le> n" using bit_length_bounds [of n] False by blast
  ultimately have "2 ^ (bit_length n - 1) < (2::nat) ^ k" by (rule le_less_trans [rotated])
  then have "bit_length n - 1 < k" by (rule power_less_imp_less_exp [rotated]) simp
  then show ?thesis by simp
qed simp

lemma mag_split: "2 ^ 52 \<le> b \<Longrightarrow> \<exists>e f. b = Suc e * 2 ^ 52 + f \<and> f < 2 ^ 52"
proof -
  assume "2 ^ 52 \<le> b"
  then have "1 \<le> b div 2 ^ 52" by (simp add: div_greater_zero_iff Suc_le_eq)
  then obtain e where "b div 2 ^ 52 = Suc e" using not0_implies_Suc by force
  then have "b = Suc e * 2 ^ 52 + b mod 2 ^ 52" using div_mult_mod_eq [of b "2 ^ 52"] by metis
  moreover have "b mod 2 ^ 52 < 2 ^ 52" by simp
  ultimately show ?thesis by blast
qed

lemma mag_scaled_small: "b < 2 ^ 52 \<Longrightarrow> mag_scaled b = b"
  by (simp add: mag_scaled_def)

lemma mag_scaled_normal: "f < 2 ^ 52 \<Longrightarrow> mag_scaled (Suc e * 2 ^ 52 + f) = (2 ^ 52 + f) * 2 ^ e"
proof -
  assume f: "f < 2 ^ 52"
  have "(Suc e * 2 ^ 52 + f) div 2 ^ 52 = Suc e" "(Suc e * 2 ^ 52 + f) mod 2 ^ 52 = f"
    using f by (simp_all only: div_mult_self3 mod_mult_self3 div_less mod_less)
  then show ?thesis by (simp only: mag_scaled_def) simp
qed

lemma mag_scaled_Suc: "mag_scaled b < mag_scaled (Suc b)"
proof (cases "b < 2 ^ 52")
  case True
  then show ?thesis
  proof (cases "Suc b = 2 ^ 52")
    case True
    then show ?thesis using mag_scaled_normal [of 0 0] mag_scaled_small [of b] by simp
  next
    case False
    then show ?thesis using True mag_scaled_small [of b] mag_scaled_small [of "Suc b"] by simp
  qed
next
  case False
  then obtain e f where b: "b = Suc e * 2 ^ 52 + f" and f: "f < 2 ^ 52" using mag_split [of b] by (meson linorder_not_less)
  show ?thesis
  proof (cases "Suc f = 2 ^ 52")
    case True
    then have "Suc b = Suc (Suc e) * 2 ^ 52 + 0" using b by (simp only: mult_Suc)
    then have "mag_scaled (Suc b) = 2 ^ 53 * 2 ^ e" using mag_scaled_normal [of 0 "Suc e"] by simp
    moreover have "mag_scaled b = (2 ^ 52 + f) * 2 ^ e" using mag_scaled_normal [OF f] b by simp
    moreover have "2 ^ 52 + f < 2 ^ 53" using f by simp
    ultimately show ?thesis by (simp only: mult_less_cancel2) simp
  next
    case False
    then have "Suc f < 2 ^ 52" using f by linarith
    then have "mag_scaled (Suc b) = (2 ^ 52 + Suc f) * 2 ^ e"
      using mag_scaled_normal [of "Suc f" e] b by (simp only: add_Suc_right)
    moreover have "mag_scaled b = (2 ^ 52 + f) * 2 ^ e" using mag_scaled_normal [OF f] b by simp
    ultimately show ?thesis by simp
  qed
qed

lemma mag_scaled_less_iff [simp]: "mag_scaled b < mag_scaled c \<longleftrightarrow> b < c"
  using mag_scaled_Suc by (metis lift_Suc_mono_less_iff)

lemma mag_scaled_eq_iff [simp]: "mag_scaled b = mag_scaled c \<longleftrightarrow> b = c"
  using mag_scaled_less_iff by (metis linorder_neqE_nat less_irrefl)

lemma mag_scaled_0 [simp]: "mag_scaled 0 = 0"
  by (simp add: mag_scaled_def)

text \<open>Rounding a representable magnitude gives it back.\<close>

lemma round_ratio_exact:
  assumes "b \<le> f_inf_mag" "0 < den"
  shows "round_ratio (mag_scaled b * den) den = b"
proof (cases "b < 2 ^ 52")
  case True
  then have "bit_length b \<le> 53" using bit_length_le [of b 52] by simp
  then show ?thesis using True assms by (simp add: round_ratio_def mag_scaled_small)
next
  case False
  then obtain e f where b: "b = Suc e * 2 ^ 52 + f" and f: "f < 2 ^ 52" using mag_split [of b] by (meson linorder_not_less)
  have mag: "mag_scaled b = (2 ^ 52 + f) * 2 ^ e" using mag_scaled_normal [OF f] b by simp
  have "bit_length (mag_scaled b) = Suc (52 + e)"
    unfolding mag by (rule bit_length_unique) (use f in \<open>simp_all add: power_add\<close>)
  then have len: "bit_length (mag_scaled b * den div den) - 53 = e" using assms(2) by simp
  have "mag_scaled b * den = (den * 2 ^ e) * (2 ^ 52 + f)" by (simp add: mag)
  then have "mag_scaled b * den div (den * 2 ^ e) = 2 ^ 52 + f" "mag_scaled b * den mod (den * 2 ^ e) = 0"
    using assms(2) by (simp_all only: nonzero_mult_div_cancel_left mod_mult_self1_is_0) simp_all
  then show ?thesis using assms b unfolding round_ratio_def len Let_def by simp
qed

section \<open>Floats and their scaled values\<close>

lemma unat_split: "unat (w :: float64) = (if f_neg w then 2 ^ 63 + f_mag w else f_mag w)"
proof -
  have "unat w < 2 ^ 63 + 2 ^ 63" using unsigned_less [of w] by simp
  then show ?thesis by (simp add: f_neg_def f_mag_def mod_if [of "unat w"])
qed

lemma f_mag_less: "f_mag w < 2 ^ 63"
  by (simp add: f_mag_def)

lemma unat_f_make: "b < 2 ^ 63 \<Longrightarrow> unat (f_make neg b) = (if neg then 2 ^ 63 + b else b)"
proof -
  assume b: "b < 2 ^ 63"
  have "uint (f_make neg b) = int (if neg then 2 ^ 63 + b else b)"
    unfolding f_make_def by (subst uint_word_of_int_eq, rule take_bit_int_eq_self) (use b in auto)
  then show ?thesis by (metis nat_int unat_eq_nat_uint)
qed

lemma f_neg_make [simp]: "b < 2 ^ 63 \<Longrightarrow> f_neg (f_make neg b) = neg"
  by (simp add: f_neg_def unat_f_make)

lemma f_mag_make [simp]: "b < 2 ^ 63 \<Longrightarrow> f_mag (f_make neg b) = b"
  by (simp add: f_mag_def unat_f_make)

lemma f_make_neg_mag [simp]: "f_make (f_neg w) (f_mag w) = w"
  using unat_f_make [OF f_mag_less, of "f_neg w" w] unat_split [of w]
  by (simp only: word_unat_eq_iff)

lemma f_class:
  "f_finite w \<longleftrightarrow> f_mag w < f_inf_mag" "f_is_inf w \<longleftrightarrow> f_mag w = f_inf_mag"
  "f_IsNaN w \<longleftrightarrow> f_inf_mag < f_mag w"
proof -
  let ?m = "f_mag w"
  have "?m < 2048 * 2 ^ 52" using f_mag_less [of w] by simp
  then have "?m div 2 ^ 52 < 2048" by (simp add: less_mult_imp_div_less)
  moreover have "?m = ?m div 2 ^ 52 * 2 ^ 52 + ?m mod 2 ^ 52" by simp
  moreover have "?m mod 2 ^ 52 < 2 ^ 52" by simp
  ultimately show "f_finite w \<longleftrightarrow> ?m < f_inf_mag" "f_is_inf w \<longleftrightarrow> ?m = f_inf_mag"
    "f_IsNaN w \<longleftrightarrow> f_inf_mag < ?m"
    unfolding f_finite_def f_is_inf_def f_IsNaN_def f_exp_def f_man_def f_inf_mag_def
    by (cases "?m div 2 ^ 52 = 2047"; simp; linarith)+
qed

lemma f_scaled_make: "b < 2 ^ 63 \<Longrightarrow> f_scaled (f_make neg b) = (if neg then - int (mag_scaled b) else int (mag_scaled b))"
  by (simp add: f_scaled_def)

lemma f_inf_mag_less: "f_inf_mag < 2 ^ 63"
  by (simp add: f_inf_mag_def)

lemma abs_f_scaled: "nat \<bar>f_scaled w\<bar> = mag_scaled (f_mag w)"
  by (simp add: f_scaled_def)

text \<open>A finite float is determined by its scaled value, up to the sign of zero.\<close>

lemma f_scaled_eq_iff:
  "f_scaled a = f_scaled b \<longleftrightarrow> f_mag a = f_mag b \<and> (f_neg a = f_neg b \<or> f_mag a = 0)"
proof
  assume eq: "f_scaled a = f_scaled b"
  then have "mag_scaled (f_mag a) = mag_scaled (f_mag b)" by (metis abs_f_scaled)
  then have m: "f_mag a = f_mag b" by simp
  then have "mag_scaled (f_mag a) = 0 \<or> f_neg a = f_neg b"
    using eq by (auto simp: f_scaled_def split: if_splits)
  then show "f_mag a = f_mag b \<and> (f_neg a = f_neg b \<or> f_mag a = 0)"
    using m mag_scaled_eq_iff [of "f_mag a" 0] by auto
qed (auto simp: f_scaled_def)

text \<open>Rounding an integer multiple of the unit that is representable is exact.\<close>

lemma f_scaled_round_exact:
  assumes "nat \<bar>n\<bar> = mag_scaled b" "b \<le> f_inf_mag" "0 < den"
  shows "f_scaled (f_round (n < 0) (nat \<bar>n\<bar> * den) den) = n"
proof -
  have "f_round (n < 0) (nat \<bar>n\<bar> * den) den = f_make (n < 0) b"
    using round_ratio_exact [OF assms(2,3)] assms(1) by (simp add: f_round_def)
  moreover have "b < 2 ^ 63" using assms(2) f_inf_mag_less by linarith
  ultimately show ?thesis using assms(1) f_scaled_make [of b "n < 0"] by auto
qed

lemma f_round_not_nan: "\<not> f_IsNaN (f_round neg num den)"
proof -
  have "round_ratio num den \<le> f_inf_mag" by (simp add: round_ratio_def Let_def)
  then show ?thesis using f_inf_mag_less by (simp add: f_class f_round_def)
qed

lemma f_unit_pos [simp]: "0 < f_unit"
  by (simp add: f_unit_def)

lemma f_unit_nonzero [simp]: "f_unit \<noteq> 0"
  using f_unit_pos by simp

lemma representable_int:
  assumes "n < 2 ^ 53"
  shows "\<exists>b \<le> f_inf_mag. mag_scaled b = n * f_unit"
proof (cases "n = 0")
  case True
  then show ?thesis by (intro exI [of _ 0]) simp
next
  case False
  define L where "L = bit_length n"
  have L: "0 < L" "L \<le> 53" "2 ^ (L - 1) \<le> n" "n < 2 ^ L"
    using False bit_length_bounds [of n] bit_length_le [OF assms]
    by (auto simp: L_def bit_length.simps [of n])
  define f where "f = n * 2 ^ (53 - L) - 2 ^ 52"
  have split: "(2::nat) ^ (L - 1) * 2 ^ (53 - L) = 2 ^ 52" "(2::nat) ^ L * 2 ^ (53 - L) = 2 ^ 53"
    using L(1,2) by (simp_all flip: power_add)
  have "2 ^ (L - 1) * 2 ^ (53 - L) \<le> n * 2 ^ (53 - L)" "n * 2 ^ (53 - L) < 2 ^ L * 2 ^ (53 - L)"
    using L(3,4) by simp_all
  then have f: "f < 2 ^ 52" "2 ^ 52 + f = n * 2 ^ (53 - L)" unfolding split f_def by simp_all
  have "(2::nat) ^ (53 - L) * 2 ^ (1021 + L) = f_unit"
    using L(2) unfolding f_unit_def by (simp only: flip: power_add) simp
  then have "mag_scaled (Suc (1021 + L) * 2 ^ 52 + f) = n * f_unit"
    unfolding mag_scaled_normal [OF f(1)] f(2) by (simp only: mult.assoc)
  moreover have "Suc (1021 + L) * 2 ^ 52 + f \<le> f_inf_mag" using L(2) f(1) by (simp add: f_inf_mag_def)
  ultimately show ?thesis by blast
qed

lemma mag_scaled_cases: "mag_scaled b < 2 ^ 52 * f_unit \<or> f_unit dvd mag_scaled b"
proof (cases "b < 2 ^ 52")
  case True
  then have "mag_scaled b < 2 ^ 52 * 1" by (simp add: mag_scaled_small)
  also have "(2::nat) ^ 52 * 1 \<le> 2 ^ 52 * f_unit" by (intro mult_left_mono) (simp_all add: Suc_le_eq)
  finally show ?thesis ..
next
  case False
  then obtain e f where b: "b = Suc e * 2 ^ 52 + f" and f: "f < 2 ^ 52"
    using mag_split [of b] by (meson linorder_not_less)
  have mag: "mag_scaled b = (2 ^ 52 + f) * 2 ^ e" using mag_scaled_normal [OF f] b by simp
  show ?thesis
  proof (cases "e < 1074")
    case True
    have "(2 ^ 52 + f) * 2 ^ e < 2 ^ 53 * 2 ^ e" using f by simp
    also have "\<dots> \<le> 2 ^ 53 * 2 ^ 1073" by (intro mult_left_mono power_increasing) (use True in simp_all)
    also have "(2::nat) ^ 53 * 2 ^ 1073 = 2 ^ 52 * f_unit"
      unfolding f_unit_def by (simp only: flip: power_add) simp
    finally show ?thesis using mag by simp
  next
    case False
    then have "f_unit dvd 2 ^ e" unfolding f_unit_def by (intro le_imp_power_dvd) simp
    then show ?thesis using mag by (metis dvd_mult)
  qed
qed

lemma representable_floor:
  assumes "f_finite a"
  shows "\<exists>b \<le> f_inf_mag. mag_scaled b = nat \<bar>f_scaled a div int f_unit\<bar> * f_unit"
proof (cases "f_unit dvd mag_scaled (f_mag a)")
  case True
  then have "int f_unit dvd f_scaled a" by (auto simp: f_scaled_def)
  then have "f_scaled a div int f_unit * int f_unit = f_scaled a" by simp
  then have "\<bar>f_scaled a div int f_unit\<bar> * int f_unit = \<bar>f_scaled a\<bar>"
    by (metis abs_mult abs_of_nat)
  then have "nat \<bar>f_scaled a div int f_unit\<bar> * f_unit = mag_scaled (f_mag a)"
    using abs_f_scaled [of a] by (metis nat_mult_distrib abs_ge_zero nat_int)
  then show ?thesis using assms by (intro exI [of _ "f_mag a"]) (simp add: f_class)
next
  case False
  then have "mag_scaled (f_mag a) < 2 ^ 52 * f_unit" using mag_scaled_cases by blast
  then have "int (mag_scaled (f_mag a)) < 2 ^ 52 * int f_unit"
    by (metis of_nat_less_iff of_nat_mult of_nat_numeral of_nat_power)
  then have "- (2 ^ 52) * int f_unit \<le> f_scaled a" "f_scaled a < 2 ^ 52 * int f_unit"
    by (auto simp: f_scaled_def)
  then have "- (2 ^ 52) \<le> f_scaled a div int f_unit" "f_scaled a div int f_unit < 2 ^ 52"
    by (auto intro: int_le_div int_div_less)
  then have "nat \<bar>f_scaled a div int f_unit\<bar> < 2 ^ 53" by (simp add: nat_less_iff)
  then show ?thesis by (rule representable_int)
qed

lemma f_scaled_Floor:
  assumes "f_finite a"
  shows "f_scaled (f_Floor a) = f_scaled a div int f_unit * int f_unit"
proof (cases "f_mag a = 0")
  case True
  then have "f_scaled a = 0" by (simp add: f_scaled_def)
  then show ?thesis using True by (simp add: f_Floor_def f_class f_inf_mag_def)
next
  case False
  define n where "n = f_scaled a div int f_unit"
  obtain b where b: "b \<le> f_inf_mag" "mag_scaled b = nat \<bar>n\<bar> * f_unit"
    using representable_floor [OF assms] unfolding n_def by blast
  have mult: "nat \<bar>n * int f_unit\<bar> = nat \<bar>n\<bar> * f_unit" by (simp add: abs_mult nat_mult_distrib)
  have sgn: "n * int f_unit < 0 \<longleftrightarrow> n < 0" by (simp add: mult_less_0_iff)
  have "f_scaled (f_round (n * int f_unit < 0) (nat \<bar>n * int f_unit\<bar> * 1) 1) = n * int f_unit"
    using b(2) mult by (intro f_scaled_round_exact [OF _ b(1)]) simp_all
  moreover have "f_Floor a = f_round (n < 0) (nat \<bar>n\<bar> * f_unit) 1"
    using False assms unfolding f_Floor_def n_def f_class Let_def by simp
  ultimately show ?thesis unfolding n_def [symmetric] by (simp only: sgn mult mult_1_right)
qed

lemma f_Floor_not_nan: "\<not> f_IsNaN a \<Longrightarrow> \<not> f_IsNaN (f_Floor a)"
  using f_round_not_nan by (simp add: f_Floor_def Let_def)

end
