(* ===== verification/Utf8.thy ===== *)
theory Utf8
  imports Prelude
begin

text \<open>
  Go strings are byte strings.  They are modelled as \<^typ>\<open>string\<close>, a character being one byte.
  This theory has the part of \<^verbatim>\<open>unicode/utf8\<close> the program uses: decoding a rune from either end
  of a string and encoding one.  A rune is a natural number.

  The main result is that walking a string backwards, rune by rune, visits exactly the runes
  of the forward walk in reverse, for every byte string, valid or not.
\<close>

abbreviation byte_val :: "char \<Rightarrow> nat" where
  "byte_val c \<equiv> of_char c"

abbreviation char_of_byte :: "nat \<Rightarrow> char" where
  "char_of_byte n \<equiv> char_of n"

definition RuneError :: nat where
  "RuneError = 0xFFFD"

definition RuneSelf :: nat where
  "RuneSelf = 0x80"

section \<open>Decoding\<close>

text \<open>
  What the first byte of a sequence says: the number of bytes in it and the range of the second
  byte.  The narrow ranges exclude overlong forms, surrogates and values past U+10FFFF.
\<close>

definition first_byte :: "nat \<Rightarrow> (nat \<times> nat \<times> nat) option" where
  "first_byte b =
    (if 0xC2 \<le> b \<and> b \<le> 0xDF then Some (2, 0x80, 0xBF)
     else if b = 0xE0 then Some (3, 0xA0, 0xBF)
     else if b = 0xED then Some (3, 0x80, 0x9F)
     else if 0xE1 \<le> b \<and> b \<le> 0xEF then Some (3, 0x80, 0xBF)
     else if b = 0xF0 then Some (4, 0x90, 0xBF)
     else if 0xF1 \<le> b \<and> b \<le> 0xF3 then Some (4, 0x80, 0xBF)
     else if b = 0xF4 then Some (4, 0x80, 0x8F)
     else None)"

definition is_cont :: "char \<Rightarrow> bool" where
  "is_cont c \<longleftrightarrow> 0x80 \<le> byte_val c \<and> byte_val c \<le> 0xBF"

definition RuneStart :: "char \<Rightarrow> bool" where
  "RuneStart c \<longleftrightarrow> \<not> is_cont c"

text \<open>The continuation payloads, six bits a byte, most significant first.\<close>

fun cont_value :: "nat \<Rightarrow> string \<Rightarrow> nat" where
  "cont_value acc [] = acc"
| "cont_value acc (c # cs) = cont_value (acc * 64 + byte_val c mod 64) cs"

definition seq_value :: "nat \<Rightarrow> nat \<Rightarrow> string \<Rightarrow> nat" where
  "seq_value n b cs = cont_value (b mod 2 ^ (7 - n)) cs"

definition DecodeRuneInString :: "string \<Rightarrow> nat \<times> nat" where
  "DecodeRuneInString s = (case s of
      [] \<Rightarrow> (RuneError, 0)
    | c # cs \<Rightarrow>
        if byte_val c < RuneSelf then (byte_val c, 1)
        else case first_byte (byte_val c) of
          None \<Rightarrow> (RuneError, 1)
        | Some (n, lo, hi) \<Rightarrow>
            let tail = take (n - 1) cs in
            if length tail = n - 1 \<and> lo \<le> byte_val (hd tail) \<and> byte_val (hd tail) \<le> hi \<and>
               list_all is_cont (tl tail)
            then (seq_value n (byte_val c) tail, n)
            else (RuneError, 1))"

text \<open>The forward walk, \<^verbatim>\<open>for i, r := range s\<close> and \<^verbatim>\<open>[]rune(s)\<close>: each rune with its width.\<close>

lemma DecodeRune_size: "s \<noteq> [] \<Longrightarrow> 0 < snd (DecodeRuneInString s) \<and> snd (DecodeRuneInString s) \<le> length s"
  by (auto simp: DecodeRuneInString_def first_byte_def Let_def split: list.split)

function rune_walk :: "string \<Rightarrow> (nat \<times> nat) list" where
  "rune_walk s = (if s = [] then []
     else DecodeRuneInString s # rune_walk (drop (snd (DecodeRuneInString s)) s))"
  by pat_completeness auto
termination
  by (relation "measure length") (use DecodeRune_size in \<open>fastforce+\<close>)

declare rune_walk.simps [simp del]

definition runes :: "string \<Rightarrow> nat list" where
  "runes s = map fst (rune_walk s)"

text \<open>
  \<^verbatim>\<open>DecodeLastRuneInString\<close>: back up to the nearest rune start, at most three bytes, and accept
  what decodes there only when it reaches the end of the string.  When the scan finds no rune
  start it leaves the index one below its limit, or at 0.
\<close>

fun back_up :: "string \<Rightarrow> nat \<Rightarrow> nat \<Rightarrow> nat" where
  "back_up s lim start =
    (if start \<le> lim then lim - 1 else if RuneStart (s ! (start - 1)) then start - 1
     else back_up s lim (start - 1))"

declare back_up.simps [simp del]

definition DecodeLastRuneInString :: "string \<Rightarrow> nat \<times> nat" where
  "DecodeLastRuneInString s =
    (if s = [] then (RuneError, 0)
     else let last = s ! (length s - 1) in
       if byte_val last < RuneSelf then (byte_val last, 1)
       else let start = back_up s (length s - 4) (length s - 1);
                (r, size) = DecodeRuneInString (drop start s)
            in if start + size \<noteq> length s then (RuneError, 1) else (r, size))"

lemma back_up_le: "back_up s lim start \<le> max (lim - 1) (start - 1)"
  by (induction start) (auto simp: back_up.simps [of s lim "Suc _"] back_up.simps [of s lim 0])

lemma DecodeLastRune_size:
  assumes "s \<noteq> []"
  shows "0 < snd (DecodeLastRuneInString s) \<and> snd (DecodeLastRuneInString s) \<le> length s"
proof -
  define start where "start = back_up s (length s - 4) (length s - 1)"
  have pos: "0 < length s" using assms by simp
  then have "start < length s" using back_up_le [of s "length s - 4" "length s - 1"]
    unfolding start_def by linarith
  then have size: "0 < snd (DecodeRuneInString (drop start s))" "snd (DecodeRuneInString (drop start s)) \<le> length s"
    using DecodeRune_size [of "drop start s"] by auto
  have "DecodeLastRuneInString s = (byte_val (s ! (length s - 1)), 1) \<or>
      DecodeLastRuneInString s = (RuneError, 1) \<or>
      DecodeLastRuneInString s = DecodeRuneInString (drop start s)"
    using assms unfolding DecodeLastRuneInString_def Let_def start_def [symmetric]
    by (simp add: case_prod_unfold)
  then show ?thesis using size pos by (elim disjE) simp_all
qed

lemma DecodeLastRune_shrinks: "s \<noteq> [] \<Longrightarrow> (r, n) = DecodeLastRuneInString s \<Longrightarrow> length s - n < length s"
  using DecodeLastRune_size [of s] by (metis diff_less length_greater_0_conv snd_conv)

lemma DecodeRune_shrinks: "s \<noteq> [] \<Longrightarrow> (r, n) = DecodeRuneInString s \<Longrightarrow> length s - n < length s"
  using DecodeRune_size [of s] by (metis diff_less length_greater_0_conv snd_conv)

section \<open>Encoding\<close>

text \<open>\<^verbatim>\<open>string(r)\<close>; a rune out of range or in the surrogate block is encoded as U+FFFD.\<close>

definition encode_rune :: "nat \<Rightarrow> string" where
  "encode_rune r0 =
    (let r = (if r0 > 0x10FFFF \<or> 0xD800 \<le> r0 \<and> r0 \<le> 0xDFFF then RuneError else r0) in
     if r < 0x80 then [char_of_byte r]
     else if r < 0x800 then [char_of_byte (0xC0 + r div 64), char_of_byte (0x80 + r mod 64)]
     else if r < 0x10000 then
       [char_of_byte (0xE0 + r div 4096), char_of_byte (0x80 + r div 64 mod 64),
        char_of_byte (0x80 + r mod 64)]
     else
       [char_of_byte (0xF0 + r div 262144), char_of_byte (0x80 + r div 4096 mod 64),
        char_of_byte (0x80 + r div 64 mod 64), char_of_byte (0x80 + r mod 64)])"

section \<open>The two walks agree\<close>

lemma first_byte_Some:
  "first_byte b = Some (n, lo, hi) \<Longrightarrow> 2 \<le> n \<and> n \<le> 4 \<and> 0x80 \<le> lo \<and> hi \<le> 0xBF \<and> 0xC0 \<le> b"
  by (auto simp: first_byte_def split: if_splits)

lemma first_byte_cont: "is_cont c \<Longrightarrow> first_byte (byte_val c) = None"
  by (simp add: is_cont_def first_byte_def)

lemma DecodeRune_cont: "is_cont c \<Longrightarrow> DecodeRuneInString (c # cs) = (RuneError, 1)"
  by (simp add: DecodeRuneInString_def first_byte_cont is_cont_def RuneSelf_def)

text \<open>A sequence of more than one byte is a rune start followed by continuation bytes.\<close>

lemma DecodeRune_multi:
  assumes "2 \<le> snd (DecodeRuneInString s)"
  obtains c tail rest where "s = c # tail @ rest" "RuneStart c" "list_all is_cont tail"
    "Suc (length tail) = snd (DecodeRuneInString s)" "length tail \<le> 3"
proof -
  obtain c cs where s: "s = c # cs" using assms by (cases s) (auto simp: DecodeRuneInString_def)
  with assms obtain n lo hi where n: "first_byte (byte_val c) = Some (n, lo, hi)"
    and ge: "\<not> byte_val c < RuneSelf"
    by (auto simp: DecodeRuneInString_def Let_def split: if_splits option.splits)
  let ?tail = "take (n - 1) cs"
  have ok: "length ?tail = n - 1 \<and> lo \<le> byte_val (hd ?tail) \<and> byte_val (hd ?tail) \<le> hi \<and>
      list_all is_cont (tl ?tail)" "snd (DecodeRuneInString s) = n"
    using assms n ge s by (auto simp: DecodeRuneInString_def Let_def split: if_splits)
  have nr: "2 \<le> n" "n \<le> 4" "0x80 \<le> lo" "hi \<le> 0xBF" "0xC0 \<le> byte_val c"
    using first_byte_Some [OF n] by auto
  obtain a l where al: "?tail = a # l" using ok(1) nr(1) by (cases ?tail) auto
  then have "list_all is_cont ?tail" using ok(1) [unfolded al] nr unfolding al by (simp add: is_cont_def)
  then show ?thesis
    using that [of c ?tail "drop (n - 1) cs"] s ok nr by (simp add: RuneStart_def is_cont_def)
qed

lemma DecodeRune_take:
  assumes "s \<noteq> []" "snd (DecodeRuneInString s) \<le> m"
  shows "DecodeRuneInString (take m s) = DecodeRuneInString s"
proof -
  obtain c cs where s: "s = c # cs" using assms(1) by (cases s) auto
  obtain k where m: "m = Suc k" using assms DecodeRune_size [of s] by (cases m) auto
  show ?thesis
  proof (cases "first_byte (byte_val c)")
    case (Some q)
    obtain n lo hi where q: "q = (n, lo, hi)" by (cases q)
    show ?thesis
    proof (cases "n - 1 \<le> k")
      case True
      then show ?thesis using s m Some q by (simp add: DecodeRuneInString_def min_absorb1)
    next
      case False
      then show ?thesis using s m Some q assms(2)
        by (auto simp: DecodeRuneInString_def Let_def split: if_splits)
    qed
  qed (simp add: s m DecodeRuneInString_def)
qed

text \<open>A rune start is never swallowed by the sequence before it.\<close>

lemma DecodeRune_append:
  assumes "s \<noteq> []" "t = [] \<or> RuneStart (hd t)"
  shows "DecodeRuneInString (s @ t) = DecodeRuneInString s"
proof (cases "2 \<le> snd (DecodeRuneInString (s @ t))")
  case True
  let ?n = "snd (DecodeRuneInString (s @ t))"
  obtain c tail rest where d: "s @ t = c # tail @ rest" "list_all is_cont tail" "Suc (length tail) = ?n"
    using True by (rule DecodeRune_multi)
  have "?n \<le> length s"
  proof (rule ccontr)
    assume "\<not> ?n \<le> length s"
    then have lt: "length s < Suc (length tail)" using d(3) by simp
    obtain cs where s: "s = c # cs" "cs @ t = tail @ rest" using assms(1) d(1) by (cases s) auto
    then have "t \<noteq> []" using lt by auto
    have "length cs < length tail" using lt s by simp
    then have "hd t = tail ! length cs"
      using s(2) \<open>t \<noteq> []\<close> by (metis append_take_drop_id hd_drop_conv_nth nth_append append_eq_append_conv_if
          less_irrefl_nat hd_conv_nth nth_append_length_plus add_0_right length_greater_0_conv)
    then have "is_cont (hd t)" using d(2) \<open>length cs < length tail\<close> by (simp add: list_all_length)
    then show False using assms(2) \<open>t \<noteq> []\<close> by (simp add: RuneStart_def)
  qed
  then show ?thesis using DecodeRune_take [of "s @ t" "length s"] assms(1) by simp
next
  case False
  have "snd (DecodeRuneInString (s @ t)) \<le> length s"
    using False assms(1) by (cases s) auto
  then show ?thesis using DecodeRune_take [of "s @ t" "length s"] assms(1) by simp
qed

lemma rune_walk_Nil [simp]: "rune_walk [] = []"
  by (simp add: rune_walk.simps)

lemma rune_walk_append:
  "t = [] \<or> RuneStart (hd t) \<Longrightarrow> rune_walk (s @ t) = rune_walk s @ rune_walk t"
proof (induction s rule: rune_walk.induct)
  case (1 s)
  show ?case
  proof (cases "s = []")
    case False
    then show ?thesis using 1 DecodeRune_append [OF False 1(2)] DecodeRune_size [OF False]
      by (simp add: rune_walk.simps [of "s @ t"] rune_walk.simps [of s])
  qed simp
qed

lemma rune_walk_conts: "list_all is_cont s \<Longrightarrow> rune_walk s = replicate (length s) (RuneError, 1)"
  by (induction s) (auto simp: rune_walk.simps DecodeRune_cont)

lemma back_up_found:
  "lim \<le> j \<Longrightarrow> j < start \<Longrightarrow> RuneStart (s ! j) \<Longrightarrow> (\<And>i. j < i \<Longrightarrow> i < start \<Longrightarrow> \<not> RuneStart (s ! i)) \<Longrightarrow>
   back_up s lim start = j"
proof (induction start)
  case (Suc start)
  then show ?case by (cases "j = start") (simp_all add: back_up.simps [of s lim "Suc start"] less_Suc_eq)
qed simp

text \<open>Split off the longest run of continuation bytes at the end.\<close>

lemma split_conts:
  obtains p q where "s = p @ q" "list_all is_cont q" "p = [] \<or> RuneStart (last p)"
proof -
  let ?q = "rev (takeWhile is_cont (rev s))" and ?p = "rev (dropWhile is_cont (rev s))"
  have "s = ?p @ ?q" by (metis rev_append rev_rev_ident takeWhile_dropWhile_id)
  moreover have "list_all is_cont ?q" by (auto simp: list_all_iff dest: set_takeWhileD)
  moreover have "?p = [] \<or> RuneStart (last ?p)"
    using hd_dropWhile [of is_cont "rev s"] by (auto simp: last_rev RuneStart_def)
  ultimately show ?thesis by (rule that)
qed

lemma rune_walk_single: "\<not> byte_val c < RuneSelf \<Longrightarrow> rune_walk [c] = [(RuneError, 1)]"
  using first_byte_Some
  by (cases "first_byte (byte_val c)") (fastforce simp: rune_walk.simps DecodeRuneInString_def Let_def)+

lemma DecodeRune_single: "\<not> byte_val c < RuneSelf \<Longrightarrow> DecodeRuneInString [c] = (RuneError, 1)"
  using rune_walk_single [of c] by (simp add: rune_walk.simps)

lemma rune_walk_broken_tail:
  assumes q: "q \<noteq> []" "list_all is_cont q" and d: "snd (DecodeRuneInString (c # q)) \<noteq> Suc (length q)"
  shows "rune_walk (c # q) = rune_walk (butlast (c # q)) @ [(RuneError, 1)]"
proof -
  define n where "n = snd (DecodeRuneInString (c # q))"
  have n: "0 < n" "n \<le> length q" using DecodeRune_size [of "c # q"] d by (auto simp: n_def)
  have take: "butlast (c # q) = take (length q) (c # q)" by (simp add: butlast_conv_take)
  have eq: "DecodeRuneInString (butlast (c # q)) = DecodeRuneInString (c # q)"
    unfolding take by (rule DecodeRune_take) (use n in \<open>simp_all add: n_def\<close>)
  have ne: "butlast (c # q) \<noteq> []" using q(1) by simp
  have drop: "drop n (c # q) = drop (n - 1) q" "drop n (butlast (c # q)) = butlast (drop (n - 1) q)"
    using n by (cases n, simp_all add: butlast_drop q(1))+
  have conts: "list_all is_cont (drop (n - 1) q)" "list_all is_cont (butlast (drop (n - 1) q))"
    using q(2) by (auto simp: list_all_iff dest: in_set_dropD in_set_butlastD)
  have len: "length (drop (n - 1) q) = Suc (length (butlast (drop (n - 1) q)))" using n by simp
  have "rune_walk (c # q) = DecodeRuneInString (c # q) # rune_walk (drop (n - 1) q)"
    using drop(1) by (simp add: rune_walk.simps [of "c # q"] n_def)
  moreover have "rune_walk (butlast (c # q)) =
      DecodeRuneInString (c # q) # rune_walk (butlast (drop (n - 1) q))"
    unfolding rune_walk.simps [of "butlast (c # q)"]
    by (simp only: if_False eq ne drop(2) flip: n_def)
  moreover have "rune_walk (drop (n - 1) q) = rune_walk (butlast (drop (n - 1) q)) @ [(RuneError, 1)]"
    unfolding rune_walk_conts [OF conts(1)] rune_walk_conts [OF conts(2)] len
    by (simp add: replicate_append_same)
  ultimately show ?thesis by simp
qed

text \<open>When no sequence ends at the end of the string, its last byte is a rune of its own.\<close>

lemma rune_walk_no_tail:
  assumes s: "s = u @ [c]" and c: "\<not> byte_val c < RuneSelf"
    and no: "\<And>start. start = back_up s (length s - 4) (length s - 1) \<Longrightarrow>
      \<not> (start + snd (DecodeRuneInString (drop start s)) = length s \<and> 2 \<le> snd (DecodeRuneInString (drop start s)))"
  shows "rune_walk s = rune_walk u @ [(RuneError, 1)]"
proof (cases "RuneStart c")
  case True
  then show ?thesis using s rune_walk_append [of "[c]" u] rune_walk_single [OF c] by simp
next
  case False
  obtain p q where pq: "s = p @ q" "list_all is_cont q" "p = [] \<or> RuneStart (last p)"
    by (rule split_conts)
  have q: "q \<noteq> []" using pq s False by (auto simp: RuneStart_def)
  then have u: "u = p @ butlast q" using pq(1) s by (metis butlast_append butlast_snoc)
  show ?thesis
  proof (cases "p = []")
    case True
    then have "list_all is_cont u" "length q = Suc (length u)"
      using pq u q by (auto simp: list_all_iff dest: in_set_butlastD)
    then show ?thesis using True pq rune_walk_conts [of q] rune_walk_conts [of u]
      by (simp add: replicate_append_same)
  next
    case False
    then obtain p' d where p: "p = p' @ [d]" "RuneStart d" using pq(3) by (metis append_butlast_last_id)
    let ?start = "back_up s (length s - 4) (length s - 1)"
    have "snd (DecodeRuneInString (d # q)) \<noteq> Suc (length q)"
    proof
      assume whole: "snd (DecodeRuneInString (d # q)) = Suc (length q)"
      then have "length q \<le> 3" using DecodeRune_multi [of "d # q"] q
        by (metis One_nat_def Suc_1 Suc_le_mono length_greater_0_conv nat.inject Suc_leI)
      then have "?start = length p'" using pq(1,2) p q
        by (intro back_up_found) (auto simp: nth_append list_all_length RuneStart_def nth_Cons')
      then show False using no [of ?start] whole pq(1) p q by (cases q) auto
    qed
    from rune_walk_broken_tail [OF q pq(2) this]
    have "rune_walk (d # q) = rune_walk (d # butlast q) @ [(RuneError, 1)]" using q by simp
    then show ?thesis
      using rune_walk_append [of "d # q" p'] rune_walk_append [of "d # butlast q" p'] pq(1) p u by simp
  qed
qed

text \<open>The last rune of the forward walk is the one decoded from the end.\<close>

lemma rune_walk_last:
  assumes "s \<noteq> []"
  shows "rune_walk s =
    rune_walk (take (length s - snd (DecodeLastRuneInString s)) s) @ [DecodeLastRuneInString s]"
proof -
  obtain u c where s: "s = u @ [c]" using assms by (metis append_butlast_last_id)
  define start where "start = back_up s (length s - 4) (length s - 1)"
  define size where "size = snd (DecodeRuneInString (drop start s))"
  have last: "s ! (length s - 1) = c" using s by simp
  have decode: "DecodeLastRuneInString s =
      (if start + size \<noteq> length s then (RuneError, 1) else DecodeRuneInString (drop start s))"
    if "\<not> byte_val c < RuneSelf"
    using that assms unfolding DecodeLastRuneInString_def Let_def last start_def [symmetric]
    by (simp add: size_def case_prod_unfold)
  consider (ascii) "byte_val c < RuneSelf"
    | (whole) "\<not> byte_val c < RuneSelf" "start + size = length s" "2 \<le> size"
    | (broken) "\<not> byte_val c < RuneSelf" "\<not> (start + size = length s \<and> 2 \<le> size)" by blast
  then show ?thesis
  proof cases
    case ascii
    then have "DecodeLastRuneInString s = (byte_val c, 1)"
      using s last by (simp add: DecodeLastRuneInString_def)
    moreover have "rune_walk [c] = [(byte_val c, 1)]" using ascii
      by (simp add: rune_walk.simps DecodeRuneInString_def)
    moreover have "RuneStart c" using ascii by (simp add: RuneStart_def is_cont_def RuneSelf_def)
    ultimately show ?thesis using s rune_walk_append [of "[c]" u] by simp
  next
    case whole
    then have dl: "DecodeLastRuneInString s = DecodeRuneInString (drop start s)" "snd (DecodeLastRuneInString s) = size"
      using decode by (simp_all add: size_def)
    obtain d where d: "hd (drop start s) = d" "RuneStart d" "drop start s \<noteq> []"
      using whole(3) by (metis size_def DecodeRune_multi list.sel(1) list.distinct(1))
    have "rune_walk (take start s @ drop start s) = rune_walk (take start s) @ rune_walk (drop start s)"
      by (rule rune_walk_append) (use d in simp)
    moreover have "rune_walk (drop start s) = [DecodeRuneInString (drop start s)]"
      using d(3) whole(2) by (simp add: rune_walk.simps [of "drop start s"] size_def [symmetric])
    ultimately show ?thesis using dl whole(2) by (metis append_take_drop_id add_diff_cancel_right')
  next
    case broken
    have "0 < length s" using assms by simp
    then have "start < length s" using back_up_le [of s "length s - 4" "length s - 1"]
      unfolding start_def by linarith
    then have "DecodeLastRuneInString s = (RuneError, 1)"
      using decode broken DecodeRune_single [of c] s DecodeRune_size [of "drop start s"]
      by (auto simp: size_def less_2_cases_iff not_le)
    moreover have "rune_walk s = rune_walk u @ [(RuneError, 1)]"
      using s broken by (intro rune_walk_no_tail) (auto simp: start_def size_def)
    ultimately show ?thesis using s by simp
  qed
qed

end
