(* ===== verification/Sha256.thy ===== *)
theory Sha256
  imports Prelude
begin

text \<open>
  SHA-256 (FIPS 180-4), the \<^verbatim>\<open>crypto/sha256\<close> digest that identifies a byte buffer used as a
  hash key.
\<close>

unbundle bit_operations_syntax

type_synonym w32 = "32 word"

definition rotr :: "nat \<Rightarrow> w32 \<Rightarrow> w32" where
  "rotr n x = drop_bit n x OR push_bit (32 - n) x"

text \<open>
  The constants are the first 32 fractional bits of the cube roots of the first 64 primes and of
  the square roots of the first eight; \<open>root_bits\<close> finds an integer root bit by bit.
\<close>

definition small_primes :: "nat list" where
  "small_primes = filter (\<lambda>n. \<forall>d \<in> set [2..<n]. n mod d \<noteq> 0) [2..<312]"

fun root_bits :: "nat \<Rightarrow> nat \<Rightarrow> nat \<Rightarrow> nat \<Rightarrow> nat" where
  "root_bits k n 0 acc = acc"
| "root_bits k n (Suc b) acc =
     root_bits k n b (if (acc + 2 ^ b) ^ k \<le> n then acc + 2 ^ b else acc)"

definition root_frac32 :: "nat \<Rightarrow> nat \<Rightarrow> w32" where
  "root_frac32 k p = word_of_int (int (root_bits k (p * 2 ^ (32 * k)) 37 0))"

definition sha_K :: "w32 list" where
  "sha_K = map (root_frac32 3) small_primes"

definition sha_H0 :: "w32 list" where
  "sha_H0 = map (root_frac32 2) (take 8 small_primes)"

text \<open>Padding: a one bit, zeros, and the bit length as eight big-endian bytes.\<close>

definition be_bytes :: "nat \<Rightarrow> nat \<Rightarrow> bytes" where
  "be_bytes k n = map (\<lambda>i. byte_of_nat (n div 256 ^ (k - 1 - i) mod 256)) [0..<k]"

definition sha_pad :: "bytes \<Rightarrow> bytes" where
  "sha_pad m = m @ 0x80 # replicate ((119 - length m mod 64) mod 64) 0 @ be_bytes 8 (8 * length m)"

definition word_be :: "bytes \<Rightarrow> w32" where
  "word_be bs = foldl (\<lambda>acc b. push_bit 8 acc OR ucast b) 0 bs"

fun split_every :: "nat \<Rightarrow> nat \<Rightarrow> 'a list \<Rightarrow> 'a list list" where
  "split_every 0 k xs = []"
| "split_every (Suc n) k xs = take k xs # split_every n k (drop k xs)"

definition sched_step :: "w32 list \<Rightarrow> w32 list" where
  "sched_step w =
    (let n = length w; w15 = w ! (n - 15); w2 = w ! (n - 2);
         s0 = rotr 7 w15 XOR rotr 18 w15 XOR drop_bit 3 w15;
         s1 = rotr 17 w2 XOR rotr 19 w2 XOR drop_bit 10 w2
     in w @ [w ! (n - 16) + s0 + w ! (n - 7) + s1])"

definition schedule :: "bytes \<Rightarrow> w32 list" where
  "schedule block = (sched_step ^^ 48) (map word_be (split_every 16 4 block))"

fun compress_step :: "w32 list \<Rightarrow> w32 \<times> w32 \<Rightarrow> w32 list" where
  "compress_step [a, b, c, d, e, f, g, h] (k, w) =
    (let s1 = rotr 6 e XOR rotr 11 e XOR rotr 25 e;
         ch = (e AND f) XOR (NOT e AND g);
         t1 = h + s1 + ch + k + w;
         s0 = rotr 2 a XOR rotr 13 a XOR rotr 22 a;
         maj = (a AND b) XOR (a AND c) XOR (b AND c);
         t2 = s0 + maj
     in [t1 + t2, a, b, c, d + t1, e, f, g])"
| "compress_step st _ = st"

definition sha_block :: "w32 list \<Rightarrow> bytes \<Rightarrow> w32 list" where
  "sha_block hs block =
    map2 (+) hs (foldl compress_step hs (zip sha_K (schedule block)))"

definition sha256 :: "bytes \<Rightarrow> bytes" where
  "sha256 m =
    (let p = sha_pad m; hs = foldl sha_block sha_H0 (split_every (length p div 64) 64 p)
     in concat (map (\<lambda>h. be_bytes 4 (unat h)) hs))"

end
