(* ===== verification/Objects.thy ===== *)
theory Objects
  imports Float64 Utf8 Sha256 "HOL-Library.Char_ord" "HOL-Library.List_Lexorder"
begin

text \<open>
  The values of the language, from \<^verbatim>\<open>src/object\<close>: the object type with one constructor for each
  Go type that implements \<^verbatim>\<open>Object\<close>, their type names, truth, and the join of classification
  marks.

  Arrays, hashes, structs and errors are values here; a map is an association list with
  distinct keys, and the laws in the theories below say where its order does not show.  Cells and iterators are
  mutable and shared, so an object holds their address.  A closure carries the identity that
  \<^verbatim>\<open>NewClosure\<close> gives it and \<^verbatim>\<open>Rebuilt\<close> keeps; a builtin is its index in the builtin table, which
  holds one pointer for each.  \<open>GoNil\<close> is the nil interface.  The evaluator's functions,
  macros and quotes hold syntax trees; they appear with the text they render as.
\<close>

section \<open>Values\<close>

record Classification =
  RecordUID :: string
  Tags :: "string list"
  Labels :: "string list"

record CompiledFn =
  fn_Instructions :: bytes
  NumLocals :: nat
  NumParams :: nat
  CapturedLocals :: "nat list"
  fn_Name :: string
  fn_Params :: "string list"
  fn_LineTable :: bytes
  fn_MacroTable :: bytes
  fn_EndTable :: bytes
  LocalNames :: "string list"

record HashKey =
  hk_Type :: string
  hk_Value :: nat
  hk_Text :: string

record ErrorInfo =
  Message :: string
  Context :: string
  err_File :: string
  err_Line :: int
  err_Column :: int
  EndLine :: int
  EndColumn :: int
  SourceLine :: string
  Stack :: "string list"

datatype (plugins only: code size) object =
    GoNil
  | Integer int
  | Float float64
  | Boolean bool
  | Null
  | String string
  | Bytes bytes "Classification option"
  | Array "object list"
  | Hash "(HashKey \<times> object \<times> object) list"
  | MultiValue "object list"
  | Struct string "string list" "(string \<times> object) list"
  | EnumValue string string object
  | Error ErrorInfo "(string \<times> object) list"
  | CompiledFunction CompiledFn
  | Closure CompiledFn "object list" nat
  | Builtin nat
  | Cell nat
  | Iterator nat
  | Function nat string
  | Macro string
  | Quote string
  | ReturnValue object
  | Break
  | Continue
  | LuaPatch string bytes string
  | Encrypted bytes string int "Classification option"

primrec Type :: "object \<Rightarrow> string" where
  "Type GoNil = ''''"
| "Type (Integer _) = ''INTEGER''"
| "Type (Float _) = ''FLOAT''"
| "Type (Boolean _) = ''BOOLEAN''"
| "Type Null = ''NULL''"
| "Type (String _) = ''STRING''"
| "Type (Bytes _ _) = ''BYTES''"
| "Type (Array _) = ''ARRAY''"
| "Type (Hash _) = ''HASH''"
| "Type (MultiValue _) = ''MULTI_VALUE''"
| "Type (Struct _ _ _) = ''STRUCT''"
| "Type (EnumValue _ _ _) = ''ENUM_VALUE''"
| "Type (Error _ _) = ''ERROR_OBJ''"
| "Type (CompiledFunction _) = ''COMPILED_FN_OBJ''"
| "Type (Closure _ _ _) = ''CLOSURE''"
| "Type (Builtin _) = ''BUILTIN''"
| "Type (Cell _) = ''CELL''"
| "Type (Iterator _) = ''ITERATOR''"
| "Type (Function _ _) = ''FUNCTION''"
| "Type (Macro _) = ''MACRO''"
| "Type (Quote _) = ''QUOTE''"
| "Type (ReturnValue _) = ''RETURN_VALUE''"
| "Type Break = ''BREAK''"
| "Type Continue = ''CONTINUE''"
| "Type (LuaPatch _ _ _) = ''LUA_PATCH''"
| "Type (Encrypted _ _ _ _) = ''ENCRYPTED''"

section \<open>Truth\<close>

definition IsTruthy :: "object \<Rightarrow> bool" where
  "IsTruthy obj = (case obj of
      GoNil \<Rightarrow> False
    | Boolean b \<Rightarrow> b
    | Null \<Rightarrow> False
    | String s \<Rightarrow> length s \<noteq> 0
    | Bytes b _ \<Rightarrow> length b \<noteq> 0
    | Integer i \<Rightarrow> i \<noteq> 0
    | Float f \<Rightarrow> \<not> f_eq f f_zero
    | _ \<Rightarrow> True)"

section \<open>Plain errors and booleans\<close>

definition error_info :: "string \<Rightarrow> ErrorInfo" where
  "error_info msg = \<lparr>Message = msg, Context = '''', err_File = '''', err_Line = 0, err_Column = 0,
     EndLine = 0, EndColumn = 0, SourceLine = '''', Stack = []\<rparr>"

definition infixError :: "string \<Rightarrow> object" where
  "infixError msg = Error (error_info msg) []"

definition infixBool :: "bool \<Rightarrow> object" where
  "infixBool b = Boolean b"

section \<open>Classification of buffers\<close>

text \<open>
  \<^verbatim>\<open>JoinClassification\<close>: \<open>same\<close> says whether the two pointers are one.  The loop keeps the first
  label seen for each tag, and an empty one where a tag has no label.
\<close>

fun join_tags :: "string list \<Rightarrow> (string \<times> string) list \<Rightarrow> (string \<times> string) list" where
  "join_tags seen [] = []"
| "join_tags seen ((tag, label) # rest) =
     (if tag \<in> set seen then join_tags seen rest else (tag, label) # join_tags (tag # seen) rest)"

definition tag_labels :: "Classification \<Rightarrow> (string \<times> string) list" where
  "tag_labels c = map (\<lambda>i. (Tags c ! i, if i < length (Labels c) then Labels c ! i else ''''))
                      [0..<length (Tags c)]"

definition JoinClassification ::
    "bool \<Rightarrow> Classification option \<Rightarrow> Classification option \<Rightarrow> Classification option" where
  "JoinClassification same a b = (case (a, b) of
      (None, _) \<Rightarrow> b
    | (_, None) \<Rightarrow> a
    | (Some ca, Some cb) \<Rightarrow>
        if same then a
        else let joined = join_tags [] (tag_labels ca @ tag_labels cb) in
          Some \<lparr>RecordUID = (if RecordUID cb \<noteq> RecordUID ca
                              then RecordUID ca @ '' and '' @ RecordUID cb else RecordUID ca),
                Tags = map fst joined, Labels = map snd joined\<rparr>)"

end
