(* ===== verification/Indexing.thy ===== *)
theory Indexing
  imports Objects
begin

text \<open>
  Indexing of ordered containers, from \<^verbatim>\<open>src/object/index.go\<close>: a negative index counts from the
  end, and a string is a sequence of runes.
\<close>

section \<open>Indexing\<close>

definition IndexOf :: "int \<Rightarrow> int \<Rightarrow> int \<times> bool" where
  "IndexOf i n =
    (if n \<le> 0 then (0, False)
     else if i \<ge> 0 then (if i \<ge> n then (0, False) else (i, True))
     else let at = wrap64 (n + i) in if at < 0 then (0, False) else (at, True))"

text \<open>\<^verbatim>\<open>RuneAt\<close>: the two walks, forwards for \<open>i \<ge> 0\<close> and backwards below.\<close>

function rune_forward :: "string \<Rightarrow> int \<Rightarrow> (string \<times> bool)" where
  "rune_forward s i =
    (if s = [] then ('''', False)
     else let (r, size) = DecodeRuneInString s in
       if i = 0 then (encode_rune r, True) else rune_forward (drop size s) (i - 1))"
  by pat_completeness auto
termination
  by (relation "measure (\<lambda>(s, _). length s)") (auto dest: DecodeRune_shrinks)

function rune_backward :: "string \<Rightarrow> int \<Rightarrow> (string \<times> bool)" where
  "rune_backward s i =
    (if s = [] then ('''', False)
     else let (r, size) = DecodeLastRuneInString s in
       if i = -1 then (encode_rune r, True) else rune_backward (take (length s - size) s) (i + 1))"
  by pat_completeness auto
termination
  by (relation "measure (\<lambda>(s, _). length s)") (auto dest: DecodeLastRune_shrinks)

declare rune_forward.simps [simp del] rune_backward.simps [simp del]

definition RuneAt :: "string \<Rightarrow> int \<Rightarrow> (string \<times> bool)" where
  "RuneAt s i = (if i \<ge> 0 then rune_forward s i else rune_backward s i)"


section \<open>Correctness\<close>

lemma IndexOf_closed:
  assumes "int64 i" "0 \<le> n" "n < 2 ^ 63"
  shows "IndexOf i n = (if - n \<le> i \<and> i < n then (i mod n, True) else (0, False))"
proof -
  have "i mod n = n + i" if "- n \<le> i" "i < 0"
    using that mod_add_self1 [of n i] mod_pos_pos_trivial [of "n + i" n] by linarith
  moreover have "wrap64 (n + i) = n + i" if "i < 0" using that assms by (intro wrap64_id) (simp add: int64_def)
  ultimately show ?thesis using assms(2) by (auto simp: IndexOf_def Let_def mod_pos_pos_trivial)
qed

text \<open>
  C36: index resolution is total and exact.  For every 64-bit index and every container length,
  \<^verbatim>\<open>IndexOf\<close> accepts exactly the indices from \<open>-n\<close> to \<open>n - 1\<close> and resolves one to its
  residue modulo \<open>n\<close>: an accepted position lies within the container, and no arithmetic
  overflows on the way.
\<close>

theorem IndexOf_exact:
  assumes "int64 i" "0 \<le> n" "n < 2 ^ 63"
  shows "IndexOf i n = (if - n \<le> i \<and> i < n then (i mod n, True) else (0, False)) \<and>
    (snd (IndexOf i n) \<longrightarrow> 0 \<le> fst (IndexOf i n) \<and> fst (IndexOf i n) < n)"
  using IndexOf_closed [OF assms] by (auto simp: pos_mod_bound pos_mod_sign)

theorem IndexOf_exact_witness:
  "IndexOf (-1) 3 = (2, True) \<and> IndexOf (- (2 ^ 63)) 3 = (0, False)"
  using IndexOf_exact [of "-1" 3] IndexOf_exact [of "- (2 ^ 63)" 3] by (simp add: int64_def)

lemma rune_walk_Cons: "s \<noteq> [] \<Longrightarrow> runes s = fst (DecodeRuneInString s) # runes (drop (snd (DecodeRuneInString s)) s)"
  by (simp add: runes_def rune_walk.simps [of s])

lemma runes_Nil [simp]: "runes [] = []"
  by (simp add: runes_def)

lemma runes_snoc:
  "s \<noteq> [] \<Longrightarrow> runes s = runes (take (length s - snd (DecodeLastRuneInString s)) s) @ [fst (DecodeLastRuneInString s)]"
  using rune_walk_last [of s] by (simp add: runes_def)

lemma rune_forward_nth:
  "0 \<le> i \<Longrightarrow> rune_forward s i =
     (if i < int (length (runes s)) then (encode_rune (runes s ! nat i), True) else ('''', False))"
proof (induction s i rule: rune_forward.induct)
  case (1 s i)
  show ?case
  proof (cases "s = [] \<or> i = 0")
    case True
    then show ?thesis
      using 1(2) by (auto simp: rune_forward.simps [of s i] rune_walk_Cons case_prod_unfold)
  next
    case False
    then have "rune_forward s i = rune_forward (drop (snd (DecodeRuneInString s)) s) (i - 1)"
      by (simp add: rune_forward.simps [of s i] case_prod_unfold)
    also have "\<dots> = (if i - 1 < int (length (runes (drop (snd (DecodeRuneInString s)) s)))
        then (encode_rune (runes (drop (snd (DecodeRuneInString s)) s) ! nat (i - 1)), True) else ('''', False))"
      using 1(1) [OF _ refl prod.collapse] False 1(2) by simp
    finally show ?thesis using False 1(2) by (auto simp: rune_walk_Cons nth_Cons' nat_diff_distrib)
  qed
qed

lemma rune_backward_nth:
  "i < 0 \<Longrightarrow> rune_backward s i =
     (if - int (length (runes s)) \<le> i then (encode_rune (runes s ! nat (int (length (runes s)) + i)), True)
      else ('''', False))"
proof (induction s i rule: rune_backward.induct)
  case (1 s i)
  let ?rest = "take (length s - snd (DecodeLastRuneInString s)) s"
  show ?case
  proof (cases "s = [] \<or> i = -1")
    case True
    then show ?thesis
      using 1(2) by (auto simp: rune_backward.simps [of s i] runes_snoc case_prod_unfold nat_add_distrib nth_append)
  next
    case False
    then have "rune_backward s i = rune_backward ?rest (i + 1)"
      by (simp add: rune_backward.simps [of s i] case_prod_unfold)
    also have "\<dots> = (if - int (length (runes ?rest)) \<le> i + 1
        then (encode_rune (runes ?rest ! nat (int (length (runes ?rest)) + (i + 1))), True) else ('''', False))"
      using 1(1) [OF _ refl prod.collapse] False 1(2) by simp
    finally show ?thesis using False 1(2) by (auto simp: runes_snoc [of s] nth_append ac_simps)
  qed
qed

text \<open>
  C24: indexing a string is indexing the list of its runes.  For every byte string, valid UTF-8 or
  not, and every 64-bit index, \<^verbatim>\<open>RuneAt\<close> answers with the rune that \<^verbatim>\<open>[]rune(s)\<close> holds at the
  position \<^verbatim>\<open>IndexOf\<close> resolves, although it walks from the front or from the back without
  building that list.
\<close>

theorem RuneAt_runes:
  assumes "int64 i" "int (length (runes s)) < 2 ^ 63"
  shows "RuneAt s i = (let (k, ok) = IndexOf i (int (length (runes s))) in
    if ok then (encode_rune (runes s ! nat k), True) else ('''', False))"
proof (cases "i \<ge> 0")
  case True
  then show ?thesis using rune_forward_nth [OF True, of s]
    by (auto simp: RuneAt_def IndexOf_def)
next
  case False
  then have "i < 0" by simp
  then show ?thesis
    using rune_backward_nth [of i s] assms
    by (auto simp: RuneAt_def IndexOf_def Let_def wrap64_id int64_def)
qed

theorem RuneAt_runes_witness: "RuneAt ''ab'' (-2) = (''a'', True)"
proof -
  have "runes ''ab'' = [97, 98]"
    by (simp add: runes_def rune_walk.simps DecodeRuneInString_def RuneSelf_def)
  moreover have "encode_rune 97 = ''a''"
    using char_of_char [of "CHR ''a''", where ?'a = nat] by (simp add: encode_rune_def)
  ultimately show ?thesis using RuneAt_runes [of "-2" "''ab''"]
    by (simp add: int64_def IndexOf_def)
qed

end
