(* ===== verification/Numeric.thy ===== *)
theory Numeric
  imports Objects
begin

text \<open>
  The numeric and bitwise operators of \<^verbatim>\<open>src/object/infix.go\<close> and the exact order of integers and
  floats of \<^verbatim>\<open>src/object/numeric_order.go\<close>.  Integers are 64-bit two's complement with the
  wrap-around written out; floats are those of \<^verbatim>\<open>Float64\<close>.
\<close>

section \<open>Numeric and bitwise operators\<close>

definition IsNumeric :: "object \<Rightarrow> bool" where
  "IsNumeric obj \<longleftrightarrow> Type obj = ''INTEGER'' \<or> Type obj = ''FLOAT''"

definition numericToFloat :: "object \<Rightarrow> float64" where
  "numericToFloat obj = (case obj of Integer i \<Rightarrow> f_of_int i | Float f \<Rightarrow> f | _ \<Rightarrow> f_zero)"

definition IsBitwiseOperator :: "string \<Rightarrow> bool" where
  "IsBitwiseOperator operator \<longleftrightarrow> operator \<in> {''&'', ''|'', ''^'', ''<<'', ''>>''}"

definition BitwiseOperandError :: "string \<Rightarrow> object \<Rightarrow> object \<Rightarrow> object" where
  "BitwiseOperandError operator left right =
    infixError (''bitwise operator '' @ operator @ '' requires INTEGER operands, got '' @ Type left @
                '' and '' @ Type right)"

text \<open>
  Go's \<^verbatim>\<open>/\<close> and \<^verbatim>\<open>%\<close> truncate toward zero.  A shift count of 64 or more shifts everything out, and
  \<^verbatim>\<open>>>\<close> replicates the sign; a count is capped at 64, which is already all bits.
\<close>

definition quo64 :: "int \<Rightarrow> int \<Rightarrow> int" where
  "quo64 l r = wrap64 (sgn l * sgn r * (\<bar>l\<bar> div \<bar>r\<bar>))"

definition rem64 :: "int \<Rightarrow> int \<Rightarrow> int" where
  "rem64 l r = sgn l * (\<bar>l\<bar> mod \<bar>r\<bar>)"

definition shl64 :: "int \<Rightarrow> int \<Rightarrow> int" where
  "shl64 l r = wrap64 (l * 2 ^ nat (min r 64))"

definition shr64 :: "int \<Rightarrow> int \<Rightarrow> int" where
  "shr64 l r = l div 2 ^ nat (min r 64)"

definition BitwiseInfix :: "string \<Rightarrow> int \<Rightarrow> int \<Rightarrow> object" where
  "BitwiseInfix operator l r =
    (if operator = ''&'' then Integer (and l r)
     else if operator = ''|'' then Integer (or l r)
     else if operator = ''^'' then Integer (xor l r)
     else if operator = ''<<'' then
       (if r < 0 then infixError (''negative shift count: '' @ dec_int r) else Integer (shl64 l r))
     else if operator = ''>>'' then
       (if r < 0 then infixError (''negative shift count: '' @ dec_int r) else Integer (shr64 l r))
     else infixError (''unknown bitwise operator: '' @ operator))"

definition BitwiseNot :: "object \<Rightarrow> object" where
  "BitwiseNot operand = (case operand of
      Integer i \<Rightarrow> Integer (not i)
    | GoNil \<Rightarrow> infixError ''bitwise complement requires an INTEGER, got NULL''
    | _ \<Rightarrow> infixError (''bitwise complement requires an INTEGER, got '' @ Type operand))"

definition integerInfix :: "string \<Rightarrow> int \<Rightarrow> int \<Rightarrow> object" where
  "integerInfix operator l r =
    (if IsBitwiseOperator operator then BitwiseInfix operator l r
     else if operator = ''+'' then Integer (wrap64 (l + r))
     else if operator = ''-'' then Integer (wrap64 (l - r))
     else if operator = ''*'' then Integer (wrap64 (l * r))
     else if operator = ''/'' then
       (if r = 0 then infixError ''integer division by zero'' else Integer (quo64 l r))
     else if operator = ''%'' then
       (if r = 0 then infixError ''integer modulo by zero'' else Integer (rem64 l r))
     else if operator = ''<'' then infixBool (l < r)
     else if operator = ''>'' then infixBool (l > r)
     else if operator = ''<='' then infixBool (l \<le> r)
     else if operator = ''>='' then infixBool (l \<ge> r)
     else if operator = ''=='' then infixBool (l = r)
     else if operator = ''!='' then infixBool (l \<noteq> r)
     else infixError (''unknown operator: INTEGER '' @ operator @ '' INTEGER''))"

definition floatInfix :: "string \<Rightarrow> float64 \<Rightarrow> float64 \<Rightarrow> object" where
  "floatInfix operator l r =
    (if operator = ''+'' then Float (f_add l r)
     else if operator = ''-'' then Float (f_sub l r)
     else if operator = ''*'' then Float (f_mul l r)
     else if operator = ''/'' then Float (f_div l r)
     else if operator = ''%'' then Float (f_Mod l r)
     else if operator = ''<'' then infixBool (f_lt l r)
     else if operator = ''>'' then infixBool (f_lt r l)
     else if operator = ''<='' then infixBool (f_le l r)
     else if operator = ''>='' then infixBool (f_le r l)
     else if operator = ''=='' then infixBool (f_eq l r)
     else if operator = ''!='' then infixBool (\<not> f_eq l r)
     else infixError (''unknown operator: FLOAT '' @ operator @ '' FLOAT''))"

definition NumericInfix :: "string \<Rightarrow> object \<Rightarrow> object \<Rightarrow> object" where
  "NumericInfix operator left right =
    (if IsBitwiseOperator operator \<and> (Type left \<noteq> ''INTEGER'' \<or> Type right \<noteq> ''INTEGER'')
     then BitwiseOperandError operator left right
     else case (left, right) of
       (Integer l, Integer r) \<Rightarrow> integerInfix operator l r
     | _ \<Rightarrow> floatInfix operator (numericToFloat left) (numericToFloat right))"

section \<open>The exact numeric order\<close>

text \<open>The result is \<^verbatim>\<open>(-1|0|+1, true)\<close>, or \<^verbatim>\<open>(0, false)\<close> where there is no order.\<close>

definition twoPow63Float :: float64 where
  "twoPow63Float = 0x43E0000000000000"

definition compareIntFloat :: "int \<Rightarrow> float64 \<Rightarrow> int \<times> bool" where
  "compareIntFloat a b =
    (if f_IsNaN b then (0, False)
     else if f_le twoPow63Float b then (-1, True)
     else if f_lt b (f_minus twoPow63Float) then (1, True)
     else let whole = f_Floor b; ib = f_to_int whole in
       if a < ib then (-1, True)
       else if a > ib then (1, True)
       else if f_lt whole b then (-1, True)
       else (0, True))"

definition CompareNumeric :: "object \<Rightarrow> object \<Rightarrow> int \<times> bool" where
  "CompareNumeric a b = (case (a, b) of
      (Integer ai, Integer bi) \<Rightarrow>
        if ai < bi then (-1, True) else if ai > bi then (1, True) else (0, True)
    | (Integer ai, Float bf) \<Rightarrow> compareIntFloat ai bf
    | (Float af, Integer bi) \<Rightarrow> (let (c, ok) = compareIntFloat bi af in (- c, ok))
    | (Float af, Float bf) \<Rightarrow>
        if f_IsNaN af \<or> f_IsNaN bf then (0, False)
        else if f_lt af bf then (-1, True) else if f_lt bf af then (1, True) else (0, True)
    | _ \<Rightarrow> (0, False))"


section \<open>The numeric order is exact\<close>

text \<open>
  The value of a number as an exact integer, in units of the least positive float; None for
  NaN and for what is not a number.
\<close>

definition num_key :: "object \<Rightarrow> int option" where
  "num_key obj = (case obj of
      Integer i \<Rightarrow> Some (i * int f_unit)
    | Float f \<Rightarrow> if f_IsNaN f then None else Some (f_scaled f)
    | _ \<Rightarrow> None)"

lemma f_scaled_twoPow63: "f_scaled twoPow63Float = 2 ^ 63 * int f_unit" "\<not> f_IsNaN twoPow63Float"
proof -
  have mag: "f_mag twoPow63Float = Suc 1085 * 2 ^ 52 + 0" and neg: "\<not> f_neg twoPow63Float"
    by (simp_all add: f_mag_def f_neg_def twoPow63Float_def)
  have "mag_scaled (f_mag twoPow63Float) = 2 ^ 52 * 2 ^ 1085"
    unfolding mag by (subst mag_scaled_normal) simp_all
  also have "\<dots> = 2 ^ 63 * f_unit" unfolding f_unit_def by (simp only: flip: power_add) simp
  finally show "f_scaled twoPow63Float = 2 ^ 63 * int f_unit" using neg by (simp add: f_scaled_def)
  show "\<not> f_IsNaN twoPow63Float" unfolding f_class mag by (simp add: f_inf_mag_def)
qed

lemma f_minus_scaled: "\<not> f_IsNaN w \<Longrightarrow> f_scaled (f_minus w) = - f_scaled w \<and> \<not> f_IsNaN (f_minus w)"
  using f_mag_less [of w] by (auto simp: f_minus_def f_scaled_def f_class)

lemma f_to_int_exact:
  assumes "f_scaled w = n * int f_unit" "int64 n" "\<not> f_IsNaN w"
  shows "f_to_int w = n"
proof -
  have "(if f_neg w then - (\<bar>f_scaled w\<bar> div int f_unit) else f_scaled w div int f_unit) = n"
  proof (cases "f_neg w")
    case True
    then have "n * int f_unit \<le> 0" using assms(1) by (simp add: f_scaled_def)
    then have "n \<le> 0" by (simp add: mult_le_0_iff)
    then have "\<bar>f_scaled w\<bar> = - n * int f_unit" using assms(1) by (simp add: abs_mult)
    then have "\<bar>f_scaled w\<bar> div int f_unit = - n" by (metis f_unit_pos nonzero_mult_div_cancel_right of_nat_eq_0_iff less_irrefl)
    then show ?thesis using True by simp
  qed (simp add: assms(1))
  then show ?thesis using assms(2,3) by (simp add: f_to_int_def Let_def)
qed

lemma inf_mag_large: "2 ^ 63 * int f_unit < int (mag_scaled f_inf_mag)"
proof -
  have "f_inf_mag = Suc 2046 * 2 ^ 52 + 0" by (simp add: f_inf_mag_def)
  then have "mag_scaled f_inf_mag = 2 ^ 52 * 2 ^ 2046" using mag_scaled_normal [of 0 2046] by simp
  moreover have "2 ^ 63 * f_unit < 2 ^ 52 * 2 ^ 2046"
    unfolding f_unit_def by (simp only: flip: power_add) simp
  ultimately have "2 ^ 63 * f_unit < mag_scaled f_inf_mag" by simp
  then show ?thesis by (metis of_nat_less_iff of_nat_mult of_nat_numeral of_nat_power)
qed

lemma compareIntFloat_exact:
  assumes "int64 a" "\<not> f_IsNaN b"
  shows "compareIntFloat a b = (sgn (a * int f_unit - f_scaled b), True)"
proof -
  let ?u = "int f_unit"
  have u: "0 < ?u" by simp
  have a: "- (2 ^ 63) * ?u \<le> a * ?u" "(a + 1) * ?u \<le> 2 ^ 63 * ?u"
    using assms(1) unfolding int64_def by (intro mult_right_mono; simp)+
  note min = f_minus_scaled [OF f_scaled_twoPow63(2)]
  consider (high) "2 ^ 63 * ?u \<le> f_scaled b" | (low) "f_scaled b < - (2 ^ 63) * ?u"
    | (mid) "- (2 ^ 63) * ?u \<le> f_scaled b" "f_scaled b < 2 ^ 63 * ?u" by linarith
  then show ?thesis
  proof cases
    case high
    have "a * ?u < (a + 1) * ?u" using u by (simp add: distrib_right)
    then have "a * ?u < f_scaled b" using a(2) high by linarith
    then show ?thesis using high assms(2) f_scaled_twoPow63 by (simp add: compareIntFloat_def f_le_def)
  next
    case low
    then have "f_scaled b < a * ?u" using a(1) by linarith
    moreover have "\<not> 2 ^ 63 * ?u \<le> f_scaled b" using low u by (simp add: not_le)
    ultimately show ?thesis using low assms(2) f_scaled_twoPow63 min
      by (simp add: compareIntFloat_def f_le_def f_lt_def)
  next
    case mid
    define n where "n = f_scaled b div ?u"
    have fin: "f_finite b"
    proof (rule ccontr)
      assume "\<not> f_finite b"
      then have "f_mag b = f_inf_mag" using assms(2) by (auto simp: f_class)
      then have "\<bar>f_scaled b\<bar> = int (mag_scaled f_inf_mag)" by (simp add: f_scaled_def)
      then have "2 ^ 63 * ?u < \<bar>f_scaled b\<bar>" using inf_mag_large by simp
      then show False using mid by (simp only: mult_minus_left)
    qed
    have n: "f_scaled (f_Floor b) = n * ?u" using f_scaled_Floor [OF fin] by (simp add: n_def)
    have n64: "int64 n" using int_le_div [OF u mid(1)] int_div_less [OF u mid(2)] by (simp add: int64_def n_def)
    have nn: "\<not> f_IsNaN (f_Floor b)" using assms(2) f_Floor_not_nan by blast
    have "f_to_int (f_Floor b) = n" by (rule f_to_int_exact [OF n n64 nn])
    then have step: "compareIntFloat a b = (if a < n then (-1, True) else if a > n then (1, True)
        else if n * ?u < f_scaled b then (-1, True) else (0, True))"
      using mid assms(2) f_scaled_twoPow63 min n nn by (simp add: compareIntFloat_def f_le_def f_lt_def)
    have le: "n * ?u \<le> f_scaled b" "f_scaled b < (n + 1) * ?u"
      using int_div_bounds [OF u, of "f_scaled b"] by (simp_all only: n_def)
    have "a * ?u < f_scaled b" if "a < n" using that u le(1) by (meson less_le_trans mult_strict_right_mono)
    moreover have "f_scaled b < a * ?u" if "n < a"
    proof -
      have "(n + 1) * ?u \<le> a * ?u" using that u by (intro mult_right_mono) simp_all
      then show ?thesis using le(2) by linarith
    qed
    ultimately show ?thesis unfolding step using le(1) by (cases a n rule: linorder_cases) auto
  qed
qed

lemma compareIntFloat_NaN: "f_IsNaN b \<Longrightarrow> compareIntFloat a b = (0, False)"
  by (simp add: compareIntFloat_def)

lemma compare_sgn: "(if a < b then (-1, True) else if b < a then (1, True) else (0, True)) = (sgn (a - b), True)"
  for a b :: int
  by simp

text \<open>
  C17: the order of numbers is exact.  \<^verbatim>\<open>CompareNumeric\<close> of two numbers, integers or floats in any
  mix, is the sign of the exact difference of their values: no integer is rounded to a float on
  the way.  It has no answer exactly when one of the two is NaN or not a number.
\<close>

theorem CompareNumeric_exact:
  assumes "\<And>i. a = Integer i \<Longrightarrow> int64 i" "\<And>i. b = Integer i \<Longrightarrow> int64 i"
  shows "CompareNumeric a b = (case (num_key a, num_key b) of
      (Some x, Some y) \<Rightarrow> (sgn (x - y), True) | _ \<Rightarrow> (0, False))"
proof (cases a)
  case ai: (Integer i)
  have sgn_unit: "sgn (i * int f_unit - j * int f_unit) = sgn (i - j)" for j
    by (simp add: sgn_mult flip: left_diff_distrib)
  show ?thesis
  proof (cases b)
    case (Integer j)
    then show ?thesis using ai sgn_unit [of j] by (simp add: CompareNumeric_def num_key_def)
  next
    case (Float f)
    then show ?thesis using ai assms(1) [of i] compareIntFloat_exact [of i f] compareIntFloat_NaN [of f i]
      by (cases "f_IsNaN f") (simp_all add: CompareNumeric_def num_key_def)
  qed (simp_all add: ai CompareNumeric_def num_key_def)
next
  case af: (Float f)
  show ?thesis
  proof (cases b)
    case (Integer j)
    have "sgn (j * int f_unit - f_scaled f) = - sgn (f_scaled f - j * int f_unit)"
      by (metis minus_diff_eq sgn_minus)
    then show ?thesis using af assms(2) [of j] Integer compareIntFloat_exact [of j f] compareIntFloat_NaN [of f j]
      by (cases "f_IsNaN f") (simp_all add: CompareNumeric_def num_key_def)
  next
    case (Float g)
    then show ?thesis using af by (simp add: CompareNumeric_def num_key_def f_lt_def)
  qed (simp_all add: af CompareNumeric_def num_key_def)
qed (simp_all add: CompareNumeric_def num_key_def)

text \<open>\<open>2 ^ 53 + 1\<close> is above the float \<open>2 ^ 53\<close>, though the nearest float to it is that float.\<close>

theorem CompareNumeric_exact_witness:
  "CompareNumeric (Integer (2 ^ 53 + 1)) (Float 0x4340000000000000) = (1, True)"
proof -
  have mag: "f_mag 0x4340000000000000 = Suc 1075 * 2 ^ 52 + 0" and neg: "\<not> f_neg 0x4340000000000000"
    by (simp_all add: f_mag_def f_neg_def)
  have "mag_scaled (f_mag 0x4340000000000000) = 2 ^ 52 * 2 ^ 1075"
    unfolding mag by (subst mag_scaled_normal) simp_all
  also have "\<dots> = 2 ^ 53 * f_unit" unfolding f_unit_def by (simp only: flip: power_add) simp
  finally have "f_scaled 0x4340000000000000 = 2 ^ 53 * int f_unit" using neg by (simp add: f_scaled_def)
  moreover have "\<not> f_IsNaN 0x4340000000000000" unfolding f_class mag by (simp add: f_inf_mag_def)
  ultimately have "num_key (Float 0x4340000000000000) = Some (2 ^ 53 * int f_unit)"
    by (simp add: num_key_def)
  moreover have "sgn ((2 ^ 53 + 1) * int f_unit - 2 ^ 53 * int f_unit) = 1"
    by (simp add: distrib_right)
  ultimately show ?thesis
    using CompareNumeric_exact [of "Integer (2 ^ 53 + 1)" "Float 0x4340000000000000"]
    by (simp add: int64_def num_key_def)
qed


section \<open>Integer operators are those of 64-bit words\<close>

lemma wrap64_signed_take_bit: "wrap64 x = signed_take_bit 63 x"
  by (simp add: wrap64_def signed_take_bit_eq_take_bit_shift take_bit_eq_mod)

lemma sint_int64: "int64 (sint w)" for w :: "64 word"
  using sint_ge [of w] sint_lt [of w] by (simp add: int64_def)

lemma nat_sint: "0 \<le> sint w \<Longrightarrow> nat (sint w) = unat w" for w :: "64 word"
proof -
  assume "0 \<le> sint w"
  then have b: "\<not> bit w 63" by (simp add: sint_uint signed_take_bit_nonnegative_iff bit_uint_iff)
  have "bit (sint w) n = bit (uint w) n" for n
    using b by (cases "n = 63") (auto simp: sint_uint bit_signed_take_bit_iff bit_uint_iff min_def not_le)
  then have "sint w = uint w" by (rule bit_eqI)
  then show "nat (sint w) = unat w" by simp
qed

lemma shl64_word:
  fixes l r :: "64 word"
  assumes "0 \<le> sint r"
  shows "shl64 (sint l) (sint r) = sint (push_bit (unat r) l)"
proof -
  note n = nat_sint [OF assms]
  have push: "sint (push_bit k l) = wrap64 (sint l * 2 ^ k)" for k
    unfolding wrap64_signed_take_bit by (rule bit_eqI) (auto simp: bit_simps simp flip: push_bit_eq_mult)
  show ?thesis
  proof (cases "sint r \<le> 64")
    case False
    then have "64 \<le> unat r" unfolding n [symmetric] by simp
    then have "push_bit (unat r) l = 0" "push_bit 64 l = 0" by (auto intro!: bit_eqI simp: bit_simps)
    then show ?thesis using False push [of 64] by (simp add: shl64_def)
  qed (simp add: shl64_def push n)
qed

lemma shr64_word:
  fixes l r :: "64 word"
  assumes "0 \<le> sint r"
  shows "shr64 (sint l) (sint r) = sint (signed_drop_bit (unat r) l)"
proof -
  note n = nat_sint [OF assms]
  have far: "sint l div 2 ^ k = (if sint l < 0 then -1 else 0)" if "64 \<le> k" for k
  proof -
    have "(2 ^ 63 :: int) < 2 ^ k" using that by (intro power_strict_increasing) simp_all
    then have "- (2 ^ k) < sint l" "sint l < 2 ^ k" using sint_int64 [of l] by (simp_all add: int64_def)
    then show ?thesis using int_div_pos_eq [of "sint l" "2 ^ k" "-1" "sint l + 2 ^ k"] by (auto simp: div_pos_pos_trivial)
  qed
  show ?thesis
  proof (cases "sint r \<le> 64")
    case False
    then have "64 \<le> unat r" unfolding n [symmetric] by simp
    then show ?thesis using False far [of "unat r"] far [of 64]
      by (simp add: shr64_def sint_signed_drop_bit_eq drop_bit_eq_div)
  qed (simp add: shr64_def sint_signed_drop_bit_eq drop_bit_eq_div n)
qed

lemma quotient_remainder:
  assumes "r \<noteq> 0"
  shows "(sgn l * sgn r * (\<bar>l\<bar> div \<bar>r\<bar>)) * r + rem64 l r = l" "\<bar>rem64 l r\<bar> < \<bar>r\<bar>"
    "rem64 l r = 0 \<or> sgn (rem64 l r) = sgn l" "\<bar>rem64 l r\<bar> \<le> \<bar>l\<bar>"
proof -
  have "(sgn l * sgn r * (\<bar>l\<bar> div \<bar>r\<bar>)) * r = sgn l * ((\<bar>l\<bar> div \<bar>r\<bar>) * (sgn r * r))" by (simp only: ac_simps)
  also have "sgn r * r = \<bar>r\<bar>" by (simp add: abs_sgn)
  finally show "(sgn l * sgn r * (\<bar>l\<bar> div \<bar>r\<bar>)) * r + rem64 l r = l"
    by (simp only: rem64_def sgn_mult_abs div_mult_mod_eq flip: distrib_left)
  have m: "0 \<le> \<bar>l\<bar> mod \<bar>r\<bar>" "\<bar>l\<bar> mod \<bar>r\<bar> < \<bar>r\<bar>" "\<bar>l\<bar> mod \<bar>r\<bar> \<le> \<bar>l\<bar>"
    using assms by (simp_all add: zmod_le_nonneg_dividend)
  then show "\<bar>rem64 l r\<bar> < \<bar>r\<bar>" "\<bar>rem64 l r\<bar> \<le> \<bar>l\<bar>" using assms by (auto simp: rem64_def sgn_if)
  show "rem64 l r = 0 \<or> sgn (rem64 l r) = sgn l" using m(1) by (auto simp: rem64_def sgn_if)
qed

lemma int64_rem64: "int64 l \<Longrightarrow> r \<noteq> 0 \<Longrightarrow> int64 (rem64 l r)"
  using quotient_remainder(2-4) [of r l] by (auto simp: int64_def sgn_if split: if_splits)

lemma int64_quotient:
  assumes "int64 l" "r \<noteq> 0" "\<not> (l = - (2 ^ 63) \<and> r = -1)"
  shows "int64 (sgn l * sgn r * (\<bar>l\<bar> div \<bar>r\<bar>))"
proof -
  have q: "0 \<le> \<bar>l\<bar> div \<bar>r\<bar>" "\<bar>l\<bar> div \<bar>r\<bar> \<le> \<bar>l\<bar>" using assms(2) zdiv_mono2 [of "\<bar>l\<bar>" 1 "\<bar>r\<bar>"] by (simp_all add: div_int_pos_iff)
  show ?thesis
  proof (cases "\<bar>r\<bar> = 1")
    case True
    then have "r = 1 \<or> r = -1" by linarith
    then show ?thesis using assms by (auto simp: int64_def sgn_if)
  next
    case False
    then have "\<bar>l\<bar> div \<bar>r\<bar> \<le> \<bar>l\<bar> div 2" using assms(2) by (intro zdiv_mono2) simp_all
    then have "\<bar>l\<bar> div \<bar>r\<bar> < 2 ^ 63" using assms(1) unfolding int64_def by linarith
    then show ?thesis using q by (auto simp: int64_def sgn_if)
  qed
qed

lemma quo64_word:
  fixes l r :: "64 word"
  assumes "r \<noteq> 0"
  shows "\<exists>q m :: 64 word. quo64 (sint l) (sint r) = sint q \<and> rem64 (sint l) (sint r) = sint m \<and>
     \<bar>sint m\<bar> < \<bar>sint r\<bar> \<and> (m = 0 \<or> sgn (sint m) = sgn (sint l)) \<and>
     (if sint l = - (2 ^ 63) \<and> sint r = -1 then q = l \<and> m = 0 else sint q * sint r + sint m = sint l)"
proof -
  have r: "sint r \<noteq> 0" using assms by (simp add: signed_eq_0_iff)
  let ?q = "sgn (sint l) * sgn (sint r) * (\<bar>sint l\<bar> div \<bar>sint r\<bar>)"
  define q m :: "64 word" where "q = word_of_int ?q" and "m = word_of_int (rem64 (sint l) (sint r))"
  have q: "quo64 (sint l) (sint r) = sint q"
    unfolding q_def quo64_def wrap64_signed_take_bit sint_sbintrunc' by simp
  have m: "rem64 (sint l) (sint r) = sint m"
    using wrap64_id [OF int64_rem64 [OF sint_int64 r, of l]] by (simp add: m_def wrap64_signed_take_bit sint_sbintrunc')
  have "if sint l = - (2 ^ 63) \<and> sint r = -1 then q = l \<and> m = 0 else sint q * sint r + sint m = sint l"
  proof (cases "sint l = - (2 ^ 63) \<and> sint r = -1")
    case True
    then have "sint q = sint l" "sint m = 0" unfolding q [symmetric] m [symmetric]
      by (simp_all add: quo64_def rem64_def wrap64_def)
    then have "q = l" "m = 0" by (auto simp: signed_eq_0_iff intro: signed_word_eqI [where 'a = int])
    then show ?thesis using True by simp
  next
    case False
    then have "sint q = ?q" using wrap64_id [OF int64_quotient [OF sint_int64 r False]] q by (simp add: quo64_def)
    then have "sint q * sint r + sint m = sint l" using quotient_remainder(1) [OF r, of "sint l"] m by simp
    then show ?thesis using False by (simp only: if_False)
  qed
  moreover have "\<bar>sint m\<bar> < \<bar>sint r\<bar> \<and> (m = 0 \<or> sgn (sint m) = sgn (sint l))"
    using quotient_remainder(2,3) [OF r, of "sint l"] unfolding m signed_eq_0_iff by blast
  ultimately show ?thesis using q m by blast
qed

text \<open>
  C21: The integer operators are those of the machine.  On every pair of 64-bit words, read as two's
  complement, the sum, difference, product, conjunction, disjunction and exclusive or are those of
  words; a left shift fills with zeros and a right shift with the sign, by any count, and a negative
  count is refused; the comparisons are the signed ones.  A zero divisor is refused by both division
  and remainder; otherwise the division truncates toward zero and loses nothing, the remainder being
  smaller than the divisor and of the sign of the dividend, except that the one quotient that does
  not fit, of the least integer by minus one, is the least integer again with remainder zero.
\<close>

theorem integer_operators_64_bit:
  fixes l r :: "64 word"
  shows "let op = \<lambda>operator. NumericInfix operator (Integer (sint l)) (Integer (sint r)) in
    op ''+'' = Integer (sint (l + r)) \<and> op ''-'' = Integer (sint (l - r)) \<and> op ''*'' = Integer (sint (l * r)) \<and>
    op ''&'' = Integer (sint (and l r)) \<and> op ''|'' = Integer (sint (or l r)) \<and> op ''^'' = Integer (sint (xor l r)) \<and>
    op ''<<'' = (if sint r < 0 then infixError (''negative shift count: '' @ dec_int (sint r))
                 else Integer (sint (push_bit (unat r) l))) \<and>
    op ''>>'' = (if sint r < 0 then infixError (''negative shift count: '' @ dec_int (sint r))
                 else Integer (sint (signed_drop_bit (unat r) l))) \<and>
    op ''<'' = infixBool (l <s r) \<and> op ''<='' = infixBool (l \<le>s r) \<and> op ''>'' = infixBool (r <s l) \<and>
    op ''>='' = infixBool (r \<le>s l) \<and> op ''=='' = infixBool (l = r) \<and> op ''!='' = infixBool (l \<noteq> r) \<and>
    (if r = 0 then op ''/'' = infixError ''integer division by zero'' \<and> op ''%'' = infixError ''integer modulo by zero''
     else \<exists>q m :: 64 word. op ''/'' = Integer (sint q) \<and> op ''%'' = Integer (sint m) \<and>
       \<bar>sint m\<bar> < \<bar>sint r\<bar> \<and> (m = 0 \<or> sgn (sint m) = sgn (sint l)) \<and>
       (if sint l = - (2 ^ 63) \<and> sint r = -1 then q = l \<and> m = 0 else sint q * sint r + sint m = sint l))"
proof -
  let ?op = "\<lambda>operator. NumericInfix operator (Integer (sint l)) (Integer (sint r))"
  have infix_op: "?op operator = integerInfix operator (sint l) (sint r)" for operator by (simp add: NumericInfix_def)
  note ops = infix_op integerInfix_def IsBitwiseOperator_def BitwiseInfix_def
  have zero: "sint r = 0 \<longleftrightarrow> r = 0" and same: "sint l = sint r \<longleftrightarrow> l = r"
    by (rule signed_eq_0_iff, rule word_eq_iff_signed [symmetric])
  have "?op ''+'' = Integer (sint (l + r)) \<and> ?op ''-'' = Integer (sint (l - r)) \<and> ?op ''*'' = Integer (sint (l * r)) \<and>
    ?op ''&'' = Integer (sint (and l r)) \<and> ?op ''|'' = Integer (sint (or l r)) \<and> ?op ''^'' = Integer (sint (xor l r))"
    by (simp add: ops wrap64_signed_take_bit sint_word_ariths signed_and_eq signed_or_eq signed_xor_eq)
  moreover have "?op ''<'' = infixBool (l <s r) \<and> ?op ''<='' = infixBool (l \<le>s r) \<and> ?op ''>'' = infixBool (r <s l) \<and>
    ?op ''>='' = infixBool (r \<le>s l) \<and> ?op ''=='' = infixBool (l = r) \<and> ?op ''!='' = infixBool (l \<noteq> r)"
    by (simp add: ops word_sless_alt word_sle_eq same)
  moreover have "?op ''<<'' = (if sint r < 0 then infixError (''negative shift count: '' @ dec_int (sint r))
        else Integer (sint (push_bit (unat r) l)))"
    "?op ''>>'' = (if sint r < 0 then infixError (''negative shift count: '' @ dec_int (sint r))
        else Integer (sint (signed_drop_bit (unat r) l)))"
    by (simp_all add: ops shl64_word shr64_word not_less)
  moreover have "?op ''/'' = (if r = 0 then infixError ''integer division by zero'' else Integer (quo64 (sint l) (sint r)))"
    "?op ''%'' = (if r = 0 then infixError ''integer modulo by zero'' else Integer (rem64 (sint l) (sint r)))"
    by (simp_all add: ops zero)
  ultimately show ?thesis unfolding Let_def using quo64_word [of r l] by (cases "r = 0") auto
qed

section \<open>Types of results\<close>

definition arithmetic_ops :: "string list" where
  "arithmetic_ops = [''+'', ''-'', ''*'', ''/'', ''%'']"

definition comparison_ops :: "string list" where
  "comparison_ops = [''<'', ''>'', ''<='', ''>='', ''=='', ''!='']"

definition both_integers :: "object \<Rightarrow> object \<Rightarrow> bool" where
  "both_integers left right \<longleftrightarrow> Type left = ''INTEGER'' \<and> Type right = ''INTEGER''"

definition refused :: "string \<Rightarrow> object \<Rightarrow> object \<Rightarrow> bool" where
  "refused operator left right \<longleftrightarrow>
    (if IsBitwiseOperator operator then
       \<not> both_integers left right \<or> (operator \<in> {''<<'', ''>>''} \<and> (\<exists>n < 0. right = Integer n))
     else if operator \<in> {''/'', ''%''} then both_integers left right \<and> right = Integer 0
     else operator \<notin> set (arithmetic_ops @ comparison_ops))"

lemma numeric_cases:
  assumes "IsNumeric v"
  obtains (int) i where "v = Integer i" | (float) f where "v = Float f"
  using assms by (cases v) (auto simp: IsNumeric_def)

text \<open>Every operator is a bitwise, an arithmetic, a comparison or an unknown one.\<close>

lemma operator_cases:
  obtains (known) "operator \<in> {''&'', ''|'', ''^'', ''<<'', ''>>''} \<union> {''+'', ''-'', ''*'', ''/'', ''%''} \<union>
      {''<'', ''>'', ''<='', ''>='', ''=='', ''!=''}"
    | (unknown) "\<not> IsBitwiseOperator operator" "operator \<notin> set (arithmetic_ops @ comparison_ops)"
  by (auto simp: IsBitwiseOperator_def arithmetic_ops_def comparison_ops_def)

lemmas infix_type_defs = refused_def both_integers_def IsBitwiseOperator_def BitwiseInfix_def infixError_def infixBool_def
  arithmetic_ops_def comparison_ops_def

lemma integerInfix_type:
  "Type (integerInfix operator l r) =
    (if refused operator (Integer l) (Integer r) then ''ERROR_OBJ''
     else if operator \<in> set comparison_ops then ''BOOLEAN'' else ''INTEGER'')"
proof (cases rule: operator_cases [of operator])
  case known
  then show ?thesis unfolding Un_iff insert_iff empty_iff
    by (elim disjE) (simp_all add: integerInfix_def infix_type_defs)
next
  case unknown
  then show ?thesis by (simp add: integerInfix_def refused_def infixError_def arithmetic_ops_def comparison_ops_def)
qed

lemma floatInfix_type:
  assumes "\<not> IsBitwiseOperator operator" "\<not> both_integers left right"
  shows "Type (floatInfix operator l r) =
    (if refused operator left right then ''ERROR_OBJ''
     else if operator \<in> set comparison_ops then ''BOOLEAN'' else ''FLOAT'')"
proof (cases rule: operator_cases [of operator])
  case known
  then show ?thesis using assms unfolding Un_iff insert_iff empty_iff
    by (elim disjE) (simp_all add: floatInfix_def refused_def IsBitwiseOperator_def infixBool_def arithmetic_ops_def comparison_ops_def)
next
  case unknown
  then show ?thesis by (simp add: floatInfix_def refused_def infixError_def arithmetic_ops_def comparison_ops_def)
qed

text \<open>
  C16: The type of a numeric operator's result follows from the operator and the operands' types
  alone, but for the three refusals on a value: dividing an integer by zero, taking a remainder by
  zero, and shifting by a negative count.  Otherwise arithmetic on two integers gives an integer and
  with a float among them a float, a comparison a boolean, a bitwise operator on two integers an
  integer; everything else is an error.
\<close>

theorem NumericInfix_type:
  assumes "IsNumeric left" "IsNumeric right"
  shows "Type (NumericInfix operator left right) =
    (if refused operator left right then ''ERROR_OBJ''
     else if operator \<in> set comparison_ops then ''BOOLEAN''
     else if both_integers left right then ''INTEGER'' else ''FLOAT'')"
proof (cases "both_integers left right")
  case True
  then obtain l r where "left = Integer l" "right = Integer r"
    using assms by (auto simp: both_integers_def elim!: numeric_cases)
  then show ?thesis using True integerInfix_type by (simp add: NumericInfix_def)
next
  case False
  show ?thesis
  proof (cases "IsBitwiseOperator operator")
    case True
    then show ?thesis using False
      by (simp add: NumericInfix_def refused_def both_integers_def BitwiseOperandError_def infixError_def)
  next
    case bit: False
    have "NumericInfix operator left right = floatInfix operator (numericToFloat left) (numericToFloat right)"
      using False bit assms by (auto simp: NumericInfix_def both_integers_def elim!: numeric_cases)
    then show ?thesis using floatInfix_type [OF bit False] False by simp
  qed
qed

theorem NumericInfix_type_witness:
  "Type (NumericInfix ''<<'' (Integer 1) (Integer (-1))) = ''ERROR_OBJ'' \<and>
   Type (NumericInfix ''%'' (Integer 7) (Integer 2)) = ''INTEGER'' \<and>
   Type (NumericInfix ''*'' (Integer 7) (Float 0)) = ''FLOAT''"
  using NumericInfix_type [of "Integer 1" "Integer (-1)" "''<<''"] NumericInfix_type [of "Integer 7" "Integer 2" "''%''"]
    NumericInfix_type [of "Integer 7" "Float 0" "''*''"]
  by (simp add: IsNumeric_def refused_def both_integers_def IsBitwiseOperator_def arithmetic_ops_def comparison_ops_def)

end
