(* ===== verification/Values.thy ===== *)
theory Values
  imports Objects Indexing "HOL-Library.Product_Lexorder" "HOL-Library.Multiset"
begin

text \<open>
  Rendering, hash keys, equality and iteration of values, from \<^verbatim>\<open>src/object\<close>: \<^verbatim>\<open>Inspect\<close> of every
  type, \<^verbatim>\<open>HashKey\<close> and the order of hash entries, \<^verbatim>\<open>ValuesEqual\<close> with the struct and error
  equalities it calls, and the iterator of \<^verbatim>\<open>for (x in xs)\<close>.

  \<^verbatim>\<open>Inspect\<close> of a cell renders what the cell holds; the argument \<open>ci\<close> gives that text for an
  address.  A nil inside a container renders as \<^verbatim>\<open>null\<close>, as the guarded callers render it.
\<close>

section \<open>Rendering\<close>

definition hex_digit :: "nat \<Rightarrow> char" where
  "hex_digit n = ''0123456789abcdef'' ! (n mod 16)"

definition hex_EncodeToString :: "bytes \<Rightarrow> string" where
  "hex_EncodeToString bs = concat (map (\<lambda>b. [hex_digit (unat b div 16), hex_digit (unat b)]) bs)"

fun join_with :: "string \<Rightarrow> string list \<Rightarrow> string" where
  "join_with sep [] = ''''"
| "join_with sep [x] = x"
| "join_with sep (x # y # ys) = x @ sep @ join_with sep (y # ys)"

text \<open>\<^verbatim>\<open>%f\<close>: six decimals, rounded half to even on the exact value.\<close>

definition pad6 :: "nat \<Rightarrow> string" where
  "pad6 n = (let d = dec_nat n in replicate (6 - length d) CHR ''0'' @ d)"

definition fmt_f :: "float64 \<Rightarrow> string" where
  "fmt_f w =
    (if f_IsNaN w then ''NaN''
     else if f_is_inf w then (if f_neg w then ''-Inf'' else ''+Inf'')
     else let n = mag_scaled (f_mag w) * 1000000; q = n div f_unit; r = n mod f_unit;
              k = (if 2 * r > f_unit \<or> 2 * r = f_unit \<and> odd q then q + 1 else q)
          in (if f_neg w then ''-'' else '''') @ dec_nat (k div 1000000) @ ''.'' @ pad6 (k mod 1000000))"

definition fn_Inspect :: "CompiledFn \<Rightarrow> string" where
  "fn_Inspect cf =
    ''fn'' @ (if fn_Name cf \<noteq> '''' then '' '' @ fn_Name cf else '''') @ ''('' @
    (if length (fn_Params cf) > 0 then join_with '', '' (fn_Params cf)
     else if NumParams cf = 1 then ''<1 parameter>''
     else if NumParams cf > 1 then ''<'' @ dec_nat (NumParams cf) @ '' parameters>''
     else '''') @ '')''"

definition Location :: "ErrorInfo \<Rightarrow> string" where
  "Location e =
    (if err_Line e \<le> 0 then ''''
     else if err_File e = '''' then dec_int (err_Line e) @ '':'' @ dec_int (err_Column e)
     else err_File e @ '':'' @ dec_int (err_Line e) @ '':'' @ dec_int (err_Column e))"

text \<open>\<^verbatim>\<open>FieldNames\<close>: the declared names that the struct has, then the rest sorted.\<close>

fun declared_names :: "string list \<Rightarrow> (string \<times> 'v) list \<Rightarrow> string list \<Rightarrow> string list" where
  "declared_names [] flds shown = []"
| "declared_names (name # order) flds shown =
    (if map_of flds name = None \<or> name \<in> set shown then declared_names order flds shown
     else name # declared_names order flds (name # shown))"

definition FieldNames :: "string list \<Rightarrow> (string \<times> 'v) list \<Rightarrow> string list" where
  "FieldNames order flds =
    (let shown = declared_names order flds [] in
     shown @ sort (filter (\<lambda>name. name \<notin> set shown) (map fst flds)))"

definition floatKeyLess :: "float64 \<Rightarrow> float64 \<Rightarrow> bool" where
  "floatKeyLess left right =
    (if f_IsNaN left \<or> f_IsNaN right then
       (if f_IsNaN left \<noteq> f_IsNaN right then f_IsNaN right else left < right)
     else if \<not> f_eq left right then f_lt left right
     else f_neg left \<and> \<not> f_neg right)"

section \<open>Hash keys\<close>

definition text_of_bytes :: "bytes \<Rightarrow> string" where
  "text_of_bytes bs = map (\<lambda>b. char_of_byte (unat b)) bs"

text \<open>\<^verbatim>\<open>HashKey\<close> of the five hashable types; the others do not implement it.\<close>

definition Bytes_HashKey :: "bytes \<Rightarrow> HashKey" where
  [simp]: "Bytes_HashKey b = \<lparr>hk_Type = ''BYTES'', hk_Value = 0, hk_Text = text_of_bytes (sha256 b)\<rparr>"

definition hash_key :: "object \<Rightarrow> HashKey option" where
  "hash_key obj = (case obj of
      Boolean b \<Rightarrow> Some \<lparr>hk_Type = ''BOOLEAN'', hk_Value = (if b then 1 else 0), hk_Text = ''''\<rparr>
    | Integer i \<Rightarrow> Some \<lparr>hk_Type = ''INTEGER'', hk_Value = nat (i mod 2 ^ 64), hk_Text = ''''\<rparr>
    | Float f \<Rightarrow> Some \<lparr>hk_Type = ''FLOAT'', hk_Value = unat f, hk_Text = ''''\<rparr>
    | String s \<Rightarrow> Some \<lparr>hk_Type = ''STRING'', hk_Value = 0, hk_Text = s\<rparr>
    | Bytes b _ \<Rightarrow> Some (Bytes_HashKey b)
    | _ \<Rightarrow> None)"

definition compare3 :: "'a :: linorder \<Rightarrow> 'a \<Rightarrow> int" where
  "compare3 a b = (if a < b then -1 else if b < a then 1 else 0)"

definition compareHashKeys :: "HashKey \<Rightarrow> HashKey \<Rightarrow> int" where
  "compareHashKeys a b =
    (let c = compare3 (hk_Type a) (hk_Type b) in if c \<noteq> 0 then c
     else let c = compare3 (hk_Value a) (hk_Value b) in if c \<noteq> 0 then c
     else compare3 (hk_Text a) (hk_Text b))"

text \<open>
  \<^verbatim>\<open>hashKeyLess\<close> on the five hashable types.  The source ends with a comparison of renders for
  any other type, which no hash entry reaches: a key has a \<^verbatim>\<open>HashKey\<close>.
\<close>

definition hashKeyLess :: "object \<Rightarrow> object \<Rightarrow> bool" where
  "hashKeyLess a b =
    (if Type a \<noteq> Type b then Type a < Type b
     else case (a, b) of
       (Integer l, Integer r) \<Rightarrow> l < r
     | (String l, String r) \<Rightarrow> l < r
     | (Float l, Float r) \<Rightarrow> floatKeyLess l r
     | (Bytes l _, Bytes r _) \<Rightarrow> l < r
     | (Boolean l, Boolean r) \<Rightarrow> \<not> l \<and> r
     | _ \<Rightarrow> False)"

type_synonym hash_entry = "HashKey \<times> object \<times> object"

definition entry_cmp :: "hash_entry \<Rightarrow> hash_entry \<Rightarrow> int" where
  "entry_cmp a b =
    (if hashKeyLess (fst (snd a)) (fst (snd b)) then -1
     else if hashKeyLess (fst (snd b)) (fst (snd a)) then 1
     else compareHashKeys (fst a) (fst b))"

fun insert_entry :: "hash_entry \<Rightarrow> hash_entry list \<Rightarrow> hash_entry list" where
  "insert_entry x [] = [x]"
| "insert_entry x (y # ys) =
     (if entry_cmp x y \<le> 0 then x # y # ys else y # insert_entry x ys)"

definition sort_entries :: "hash_entry list \<Rightarrow> hash_entry list" where
  "sort_entries es = foldr insert_entry es []"

text \<open>
  \<^verbatim>\<open>SortedPairs\<close>: the argument lists the map's entries in the order the map happened to be
  ranged in; \<^verbatim>\<open>slices.SortFunc\<close> is an insertion sort here.
\<close>

definition SortedPairs :: "hash_entry list \<Rightarrow> (object \<times> object) list" where
  "SortedPairs pairs = map snd (sort_entries pairs)"

section \<open>Inspect\<close>

lemma set_insert_entry [simp]: "set (insert_entry x xs) = insert x (set xs)"
  by (induction xs) auto

lemma set_sort_entries [simp]: "set (sort_entries es) = set es"
  unfolding sort_entries_def by (induction es) auto

lemma size_in_pairs [termination_simp]:
  "(k, v) \<in> set (ps :: (string \<times> object) list) \<Longrightarrow> size v < Suc (size_list (size_prod (\<lambda>_. 0) size) ps)"
  by (induction ps) auto

lemma size_in_entries [termination_simp]:
  "(h, k, v) \<in> set (ps :: hash_entry list) \<Longrightarrow>
     size k < Suc (size_list (size_prod (\<lambda>_. 0) (size_prod size size)) ps) \<and>
     size v < Suc (size_list (size_prod (\<lambda>_. 0) (size_prod size size)) ps)"
  by (induction ps) auto

fun Inspect :: "(nat \<Rightarrow> string) \<Rightarrow> object \<Rightarrow> string" where
  "Inspect ci GoNil = ''null''"
| "Inspect ci (Integer i) = dec_int i"
| "Inspect ci (Float f) = fmt_f f"
| "Inspect ci (Boolean b) = (if b then ''true'' else ''false'')"
| "Inspect ci Null = ''''"
| "Inspect ci (String s) = s"
| "Inspect ci (Bytes b _) = hex_EncodeToString b"
| "Inspect ci (Array es) = ''['' @ join_with '', '' (map (Inspect ci) es) @ '']''"
| "Inspect ci (Hash ps) = ''{'' @ join_with '', ''
     (map (\<lambda>(_, k, v). Inspect ci k @ '': '' @ Inspect ci v) (sort_entries ps)) @ ''}''"
| "Inspect ci (MultiValue vs) =
     (let parts = map (Inspect ci) vs in
      if length parts = 2 \<and> parts ! 1 = '''' then parts ! 0
      else ''('' @ join_with '', '' parts @ '')'')"
| "Inspect ci (Struct tn order fs) =
     (let rendered = map (\<lambda>(n, v). (n, Inspect ci v)) fs in
      tn @ '' { '' @ join_with '', '' (map (\<lambda>n. n @ '': '' @ the (map_of rendered n)) (FieldNames order rendered))
         @ '' }'')"
| "Inspect ci (EnumValue tn tag v) =
     (if v = GoNil \<or> v = Null then tn @ ''.'' @ tag else tn @ ''.'' @ tag @ ''('' @ Inspect ci v @ '')'')"
| "Inspect ci (Error e related) =
     (let rendered = map (\<lambda>(n, v). (n, Inspect ci v)) related in
      join_with '' ''
       ([''ERROR:'' @ Message e] @
        (if Location e \<noteq> '''' then [''at '' @ Location e] else []) @
        (if Context e \<noteq> '''' then [''context='' @ Context e] else []) @
        (if related \<noteq> [] then
          [''related={'' @ join_with '','' (map (\<lambda>n. n @ ''='' @ the (map_of rendered n)) (sort (map fst related))) @ ''}'']
         else [])))"
| "Inspect ci (CompiledFunction cf) = fn_Inspect cf"
| "Inspect ci (Closure cf _ _) = fn_Inspect cf"
| "Inspect ci (Builtin _) = ''builtin function''"
| "Inspect ci (Cell a) = ci a"
| "Inspect ci (Iterator _) = ''<iterator>''"
| "Inspect ci (Function _ s) = s"
| "Inspect ci (Macro s) = s"
| "Inspect ci (Quote s) = ''QUOTE('' @ s @ '')''"
| "Inspect ci (ReturnValue v) = Inspect ci v"
| "Inspect ci Break = ''break''"
| "Inspect ci Continue = ''continue''"
| "Inspect ci (LuaPatch name payload _) =
     ''LuaPatch{name: '' @ name @ '', encrypted_size: '' @ dec_nat (length payload) @ ''}''"
| "Inspect ci (Encrypted v _ _ _) =
     ''['' @ join_with '' '' (map (\<lambda>b. dec_nat (unat b)) v) @ '']''"

section \<open>Equality\<close>

text \<open>
  A struct's and an error's own \<^verbatim>\<open>Equals\<close>, and the element-wise comparison of arrays and hashes,
  call back into \<^verbatim>\<open>ValuesEqual\<close>.  A map is compared by its size and by looking up each of its
  keys in the other.
\<close>

fun ValuesEqual :: "(nat \<Rightarrow> string) \<Rightarrow> object \<Rightarrow> object \<Rightarrow> bool" where
  "ValuesEqual ci GoNil b = (b = GoNil)"
| "ValuesEqual ci (Integer x) b = (case b of Integer y \<Rightarrow> x = y | _ \<Rightarrow> False)"
| "ValuesEqual ci (Float x) b = (case b of Float y \<Rightarrow> f_eq x y | _ \<Rightarrow> False)"
| "ValuesEqual ci (String x) b = (case b of String y \<Rightarrow> x = y | _ \<Rightarrow> False)"
| "ValuesEqual ci (Boolean x) b = (case b of Boolean y \<Rightarrow> x = y | _ \<Rightarrow> False)"
| "ValuesEqual ci Null b = (b = Null)"
| "ValuesEqual ci (Bytes x _) b = (case b of Bytes y _ \<Rightarrow> x = y | _ \<Rightarrow> False)"
| "ValuesEqual ci (Struct tn _ fs) b = (case b of
      Struct tn' _ fs' \<Rightarrow> tn = tn' \<and> length fs = length fs' \<and>
        (\<forall>(n, v) \<in> set fs. case map_of fs' n of None \<Rightarrow> False | Some v' \<Rightarrow> ValuesEqual ci v v')
    | _ \<Rightarrow> False)"
| "ValuesEqual ci (EnumValue tn tag _) b = (case b of EnumValue tn' tag' _ \<Rightarrow> tn = tn' \<and> tag = tag' | _ \<Rightarrow> False)"
| "ValuesEqual ci (Error e related) b = (case b of
      Error e' related' \<Rightarrow> Message e = Message e' \<and> Context e = Context e' \<and>
        length related = length related' \<and>
        (\<forall>(n, v) \<in> set related. case map_of related' n of None \<Rightarrow> False
           | Some v' \<Rightarrow> (v = GoNil) = (v' = GoNil) \<and> (v = GoNil \<or> ValuesEqual ci v v'))
    | _ \<Rightarrow> False)"
| "ValuesEqual ci (Closure _ _ i) b = (case b of Closure _ _ j \<Rightarrow> i = j | _ \<Rightarrow> False)"
| "ValuesEqual ci (Function a _) b = (case b of Function a' _ \<Rightarrow> a = a' | _ \<Rightarrow> False)"
| "ValuesEqual ci (Array es) b = (case b of
      Array es' \<Rightarrow> list_all2 (ValuesEqual ci) es es' | _ \<Rightarrow> False)"
| "ValuesEqual ci (Hash ps) b = (case b of
      Hash ps' \<Rightarrow> length ps = length ps' \<and>
        (\<forall>(h, k, v) \<in> set ps. case map_of ps' h of None \<Rightarrow> False | Some (_, v') \<Rightarrow> ValuesEqual ci v v')
    | _ \<Rightarrow> False)"
| "ValuesEqual ci (Builtin i) b = (b = Builtin i)"
| "ValuesEqual ci a b = (Type a = Type b \<and> Inspect ci a = Inspect ci b)"

text \<open>Whether a value is a function or holds one.\<close>

fun HoldsFunction :: "object \<Rightarrow> bool" where
  "HoldsFunction (Closure _ _ _) = True"
| "HoldsFunction (Function _ _) = True"
| "HoldsFunction (Array es) = (\<exists>e \<in> set es. HoldsFunction e)"
| "HoldsFunction (Hash ps) = (\<exists>(h, k, v) \<in> set ps. HoldsFunction v)"
| "HoldsFunction (Struct _ _ fs) = (\<exists>(n, v) \<in> set fs. HoldsFunction v)"
| "HoldsFunction (Error _ related) = (\<exists>(n, v) \<in> set related. HoldsFunction v)"
| "HoldsFunction obj = (Type obj = ''BUILTIN'')"

section \<open>Multi-values and error fields\<close>

definition IsVoid :: "object list \<Rightarrow> bool" where
  "IsVoid vs \<longleftrightarrow> (\<forall>v \<in> set vs. v = GoNil \<or> Type v = ''NULL'')"

definition relatedHash :: "(string \<times> object) list \<Rightarrow> object" where
  "relatedHash related = Hash (map (\<lambda>(n, v).
     (\<lparr>hk_Type = ''STRING'', hk_Value = 0, hk_Text = n\<rparr>, String n, if v = GoNil then Null else v)) related)"

definition ErrorFieldNames :: "string list" where
  "ErrorFieldNames = [''message'', ''context'', ''related'', ''file'', ''line'', ''column'',
     ''end_line'', ''end_column'', ''source_line'', ''stack'']"

definition Error_Field :: "ErrorInfo \<Rightarrow> (string \<times> object) list \<Rightarrow> string \<Rightarrow> object option" where
  "Error_Field e related name =
    (if name = ''message'' then Some (String (Message e))
     else if name = ''context'' then Some (String (Context e))
     else if name = ''related'' then Some (relatedHash related)
     else if name = ''file'' then Some (String (err_File e))
     else if name = ''line'' then Some (Integer (err_Line e))
     else if name = ''column'' then Some (Integer (err_Column e))
     else if name = ''end_line'' then Some (Integer (EndLine e))
     else if name = ''end_column'' then Some (Integer (EndColumn e))
     else if name = ''source_line'' then Some (String (SourceLine e))
     else if name = ''stack'' then Some (Array (map String (Stack e)))
     else None)"

section \<open>Iteration\<close>

record IteratorState =
  Keys :: "object list"
  Values :: "object list"
  Index :: nat
  KeyIsPrimary :: bool

definition Primary :: "IteratorState \<Rightarrow> object \<Rightarrow> object \<Rightarrow> object" where
  "Primary it key v = (if KeyIsPrimary it then key else v)"

definition Iterator_Next :: "IteratorState \<Rightarrow> (object \<times> object) option \<times> IteratorState" where
  "Iterator_Next it =
    (if Index it \<ge> length (Values it) then (None, it)
     else (Some (Keys it ! Index it, Values it ! Index it), it\<lparr>Index := Suc (Index it)\<rparr>))"

definition index_keys :: "nat \<Rightarrow> object list" where
  "index_keys n = map (\<lambda>i. Integer (int i)) [0..<n]"

definition NewIterator :: "object \<Rightarrow> IteratorState option" where
  "NewIterator over = (case over of
      Array es \<Rightarrow> Some \<lparr>Keys = index_keys (length es), Values = es, Index = 0, KeyIsPrimary = False\<rparr>
    | Hash ps \<Rightarrow> (let pairs = SortedPairs ps in
        Some \<lparr>Keys = map fst pairs, Values = map snd pairs, Index = 0, KeyIsPrimary = True\<rparr>)
    | String s \<Rightarrow> (let rs = runes s in
        Some \<lparr>Keys = index_keys (length rs), Values = map (\<lambda>r. String (encode_rune r)) rs, Index = 0,
              KeyIsPrimary = False\<rparr>)
    | Bytes b _ \<Rightarrow>
        Some \<lparr>Keys = index_keys (length b), Values = map (\<lambda>x. Integer (int (unat x))) b, Index = 0,
              KeyIsPrimary = False\<rparr>
    | _ \<Rightarrow> None)"

section \<open>The order of hash entries is definite\<close>

definition wf_hash :: "hash_entry list \<Rightarrow> bool" where
  "wf_hash ps \<longleftrightarrow> distinct (map fst ps) \<and> (\<forall>(h, k, v) \<in> set ps. hash_key k = Some h)"

text \<open>A sort key in a linear order that \<^verbatim>\<open>hashKeyLess\<close> agrees with.\<close>

type_synonym key_rank = "string \<times> int \<times> int \<times> string \<times> bytes"

definition float_rank :: "float64 \<Rightarrow> int" where
  "float_rank f = (if f_IsNaN f then uint f else 2 * f_scaled f - (if f_neg f \<and> f_mag f = 0 then 1 else 0))"

definition key_rank :: "object \<Rightarrow> key_rank" where
  "key_rank k = (Type k, (case k of
      Integer i \<Rightarrow> (0, i, '''', [])
    | Float f \<Rightarrow> (if f_IsNaN f then 1 else 0, float_rank f, '''', [])
    | String s \<Rightarrow> (0, 0, s, [])
    | Bytes b _ \<Rightarrow> (0, 0, '''', b)
    | Boolean b \<Rightarrow> (0, if b then 1 else 0, '''', [])
    | _ \<Rightarrow> (0, 0, '''', [])))"

lemma floatKeyLess_rank:
  "floatKeyLess l r \<longleftrightarrow> (if f_IsNaN l then 1 else 0 :: int, float_rank l) < (if f_IsNaN r then 1 else 0, float_rank r)"
proof (cases "f_IsNaN l \<or> f_IsNaN r")
  case True
  then show ?thesis by (auto simp: floatKeyLess_def float_rank_def less_prod_def word_less_def)
next
  case False
  have "f_scaled w = 0 \<longleftrightarrow> f_mag w = 0" for w
    using mag_scaled_eq_iff [of "f_mag w" 0] by (auto simp: f_scaled_def)
  then have zero: "f_mag l = 0 \<longleftrightarrow> f_mag r = 0" "f_mag l \<noteq> 0 \<longrightarrow> f_neg l = f_neg r" if "f_scaled l = f_scaled r"
    using that f_scaled_eq_iff [of l r] by auto
  show ?thesis
  proof (cases "f_scaled l = f_scaled r")
    case True
    then show ?thesis using False zero [OF True]
      by (auto simp: floatKeyLess_def float_rank_def less_prod_def f_eq_def)
  next
    case neq: False
    then show ?thesis using False
      by (auto simp: floatKeyLess_def float_rank_def less_prod_def f_eq_def f_lt_def)
  qed
qed

lemma HashKey_Some_cases:
  assumes "hash_key k = Some h"
  obtains (i) i where "k = Integer i" | (f) f where "k = Float f" | (s) s where "k = String s"
    | (b) b c where "k = Bytes b c" | (t) t where "k = Boolean t"
  using assms by (cases k) (auto simp: hash_key_def)

lemma Type_HashKey: "hash_key k = Some h \<Longrightarrow> Type k = hk_Type h"
  by (cases k) (auto simp: hash_key_def)

lemma rank_less:
  "((a :: string), (n :: int), (r :: int), (s :: string), (t :: bytes)) < (a, n', r', s, t) \<longleftrightarrow> (n, r) < (n', r')"
  by (auto simp: less_prod_simp)

lemma pair_less_fst: "x \<noteq> y \<Longrightarrow> (x, p) < (y, q) \<longleftrightarrow> x < y" for x :: "'a :: linorder" and p :: "'b :: linorder"
  by (auto simp: less_prod_simp)

lemma key_rank_less_Type: "Type a \<noteq> Type b \<Longrightarrow> key_rank a < key_rank b \<longleftrightarrow> Type a < Type b"
  unfolding key_rank_def by (rule pair_less_fst)

lemma hashKeyLess_rank:
  assumes "hash_key a = Some h" "hash_key b = Some h'"
  shows "hashKeyLess a b \<longleftrightarrow> key_rank a < key_rank b"
  using assms(1)
proof (cases rule: HashKey_Some_cases)
  case i
  with assms(2) show ?thesis
    by (cases rule: HashKey_Some_cases) (auto simp: hashKeyLess_def key_rank_def less_prod_def)
next
  case (f x)
  show ?thesis
  proof (cases "\<exists>y. b = Float y")
    case True
    then obtain y where y: "b = Float y" by blast
    have "hashKeyLess a b \<longleftrightarrow> floatKeyLess x y" using f y by (simp add: hashKeyLess_def)
    moreover have "key_rank a < key_rank b \<longleftrightarrow>
        (if f_IsNaN x then 1 else 0 :: int, float_rank x) < (if f_IsNaN y then 1 else 0, float_rank y)"
      using f y by (simp only: key_rank_def Type.simps object.case rank_less)
    ultimately show ?thesis by (simp only: floatKeyLess_rank)
  next
    case False
    then have "Type b \<noteq> Type a" using f assms(2) by (cases b) (simp_all add: hash_key_def)
    then show ?thesis using key_rank_less_Type [of a b] by (auto simp: hashKeyLess_def)
  qed
next
  case s
  with assms(2) show ?thesis
    by (cases rule: HashKey_Some_cases) (auto simp: hashKeyLess_def key_rank_def less_prod_def)
next
  case b
  with assms(2) show ?thesis
    by (cases rule: HashKey_Some_cases) (auto simp: hashKeyLess_def key_rank_def less_prod_def)
next
  case t
  with assms(2) show ?thesis
    by (cases rule: HashKey_Some_cases) (auto simp: hashKeyLess_def key_rank_def less_prod_def)
qed

lemma double_minus_bit:
  assumes "2 * (a :: int) - (if p then 1 else 0) = 2 * b - (if q then 1 else 0)"
  shows "a = b" "p = q"
  using assms by (cases p; cases q; simp; presburger)+

lemma float_rank_inj: "f_IsNaN f = f_IsNaN g \<Longrightarrow> float_rank f = float_rank g \<Longrightarrow> f = g"
proof -
  assume nan: "f_IsNaN f = f_IsNaN g" and eq: "float_rank f = float_rank g"
  show "f = g"
  proof (cases "f_IsNaN f")
    case True
    then show ?thesis using nan eq by (simp add: float_rank_def word_uint_eq_iff)
  next
    case False
    then have "2 * f_scaled f - (if f_neg f \<and> f_mag f = 0 then 1 else 0) =
        2 * f_scaled g - (if f_neg g \<and> f_mag g = 0 then 1 else 0)"
      using nan eq by (simp add: float_rank_def)
    then have "f_scaled f = f_scaled g" and "(f_neg f \<and> f_mag f = 0) = (f_neg g \<and> f_mag g = 0)"
      by (rule double_minus_bit)+
    then have "f_mag f = f_mag g \<and> f_neg f = f_neg g" unfolding f_scaled_eq_iff by metis
    then have eq: "f_mag f = f_mag g" "f_neg f = f_neg g" by blast+
    have "f = f_make (f_neg f) (f_mag f)" by (rule f_make_neg_mag [symmetric])
    also have "\<dots> = g" unfolding eq by (rule f_make_neg_mag)
    finally show ?thesis .
  qed
qed

lemma HashKey_same_Type:
  assumes "hash_key a = Some h" "hash_key b = Some h'" "Type a = Type b"
  obtains (i) i j where "a = Integer i" "b = Integer j" | (f) x y where "a = Float x" "b = Float y"
    | (s) s t where "a = String s" "b = String t" | (b) u v c d where "a = Bytes u c" "b = Bytes v d"
    | (t) p q where "a = Boolean p" "b = Boolean q"
  using assms(1)
proof (cases rule: HashKey_Some_cases)
  case i': (i x)
  from assms(2) show ?thesis by (cases rule: HashKey_Some_cases) (use i' assms(3) i in simp_all)
next
  case f': (f x)
  from assms(2) show ?thesis by (cases rule: HashKey_Some_cases) (use f' assms(3) f in simp_all)
next
  case s': (s x)
  from assms(2) show ?thesis by (cases rule: HashKey_Some_cases) (use s' assms(3) s in simp_all)
next
  case b': (b x c)
  from assms(2) show ?thesis by (cases rule: HashKey_Some_cases) (use b' assms(3) b in simp_all)
next
  case t': (t x)
  from assms(2) show ?thesis by (cases rule: HashKey_Some_cases) (use t' assms(3) t in simp_all)
qed

lemma key_rank_HashKey:
  assumes "hash_key a = Some h" "hash_key b = Some h'" "key_rank a = key_rank b"
  shows "h = h'"
proof -
  have ty: "Type a = Type b" using assms(3) by (simp add: key_rank_def)
  have "hash_key a = hash_key b" using assms(1,2) ty
  proof (cases rule: HashKey_same_Type)
    case (f x y)
    then have "f_IsNaN x = f_IsNaN y" "float_rank x = float_rank y"
      using assms(3) by (simp_all add: key_rank_def split: if_splits)
    then show ?thesis using f float_rank_inj by blast
  next
    case (t p q)
    then show ?thesis using assms(3) by (simp add: key_rank_def split: if_splits)
  next
    case (i x y)
    then show ?thesis using assms(3) by (simp add: key_rank_def)
  next
    case (s x y)
    then show ?thesis using assms(3) by (simp add: key_rank_def)
  next
    case (b u v c d)
    then show ?thesis using assms(3) by (simp add: key_rank_def hash_key_def)
  qed
  then show ?thesis using assms(1,2) by simp
qed


section \<open>The order of hash entries\<close>

definition entry_rank :: "hash_entry \<Rightarrow> key_rank" where
  "entry_rank e = key_rank (fst (snd e))"

definition wf_entry :: "hash_entry \<Rightarrow> bool" where
  "wf_entry e \<longleftrightarrow> hash_key (fst (snd e)) = Some (fst e)"

lemma compareHashKeys_refl: "compareHashKeys h h = 0"
  by (simp add: compareHashKeys_def compare3_def)

lemma entry_cmp_rank:
  assumes "wf_entry a" "wf_entry b"
  shows "entry_cmp a b \<le> 0 \<longleftrightarrow> entry_rank a \<le> entry_rank b"
proof (cases "entry_rank a = entry_rank b")
  case True
  then have "fst a = fst b"
    using assms key_rank_HashKey unfolding wf_entry_def entry_rank_def by blast
  then show ?thesis using True assms
    by (simp add: entry_cmp_def entry_rank_def hashKeyLess_rank [OF assms(1,2) [unfolded wf_entry_def]]
        hashKeyLess_rank [OF assms(2,1) [unfolded wf_entry_def]] compareHashKeys_refl)
next
  case False
  then show ?thesis using assms
    by (auto simp: entry_cmp_def entry_rank_def hashKeyLess_rank [OF assms(1,2) [unfolded wf_entry_def]]
        hashKeyLess_rank [OF assms(2,1) [unfolded wf_entry_def]])
qed

lemma insert_entry_insort:
  "wf_entry x \<Longrightarrow> \<forall>y \<in> set ys. wf_entry y \<Longrightarrow> insert_entry x ys = insort_key entry_rank x ys"
  by (induction ys) (simp_all add: entry_cmp_rank)

lemma sort_entries_sort_key: "\<forall>e \<in> set es. wf_entry e \<Longrightarrow> sort_entries es = sort_key entry_rank es"
proof (induction es)
  case (Cons e es)
  then show ?case by (simp add: sort_entries_def insert_entry_insort)
qed (simp add: sort_entries_def)

lemma wf_hash_entries: "wf_hash ps \<Longrightarrow> \<forall>e \<in> set ps. wf_entry e"
  by (auto simp: wf_hash_def wf_entry_def)

lemma wf_hash_inj: "wf_hash ps \<Longrightarrow> inj_on entry_rank (set ps)"
proof (rule inj_onI)
  fix a b assume wf: "wf_hash ps" and ab: "a \<in> set ps" "b \<in> set ps" "entry_rank a = entry_rank b"
  then have "fst a = fst b"
    using wf_hash_entries [OF wf] key_rank_HashKey unfolding wf_entry_def entry_rank_def by blast
  then show "a = b" using wf ab(1,2) by (meson distinct_map inj_onD wf_hash_def)
qed

lemma sort_entries_mset:
  assumes "wf_hash ps" "mset ps' = mset ps"
  shows "sort_entries ps' = sort_entries ps"
proof -
  have set: "set ps' = set ps" using assms(2) by (rule mset_eq_setD)
  have "sort_key entry_rank ps' = sort_key entry_rank ps"
    using wf_hash_inj [OF assms(1)] assms(2) by (intro sort_key_inj_key_eq) (simp_all add: set)
  then show ?thesis using wf_hash_entries [OF assms(1)] by (simp add: sort_entries_sort_key set)
qed


lemma sorted_SortedPairs:
  assumes "wf_hash ps"
  shows "sorted_wrt (\<lambda>a b. hashKeyLess (fst a) (fst b)) (SortedPairs ps)"
proof -
  let ?es = "sort_key entry_rank ps"
  have sp: "SortedPairs ps = map snd ?es"
    using wf_hash_entries [OF assms] by (simp add: SortedPairs_def sort_entries_sort_key)
  have "distinct ps" using assms by (auto simp: wf_hash_def distinct_map)
  then have "distinct (map entry_rank ?es)" using wf_hash_inj [OF assms] by (simp add: distinct_map)
  moreover have "sorted (map entry_rank ?es)" by (rule sorted_sort_key)
  ultimately have "sorted_wrt (<) (map entry_rank ?es)" unfolding strict_sorted_iff by blast
  then have "sorted_wrt (\<lambda>a b. entry_rank a < entry_rank b) ?es" by (simp only: sorted_wrt_map)
  then have "sorted_wrt (\<lambda>a b. hashKeyLess (fst (snd a)) (fst (snd b))) ?es"
  proof (rule sorted_wrt_mono_rel [rotated])
    fix a b assume ab: "a \<in> set ?es" "b \<in> set ?es" "entry_rank a < entry_rank b"
    then have "wf_entry a" "wf_entry b" using wf_hash_entries [OF assms] by simp_all
    then show "hashKeyLess (fst (snd a)) (fst (snd b))"
      using ab(3) hashKeyLess_rank unfolding wf_entry_def entry_rank_def by blast
  qed
  then show ?thesis by (simp add: sp sorted_wrt_map)
qed

section \<open>Properties of values\<close>

text \<open>
  C18: Ranging over a hash is deterministic: whatever order the map's entries come in, the sorted
  pairs are the same list, it holds every entry once, and it is strictly ascending in
  \<^verbatim>\<open>hashKeyLess\<close>, so a program prints, iterates and compiles the same on every run.
\<close>

theorem SortedPairs_deterministic:
  assumes "wf_hash ps" "mset ps' = mset ps"
  shows "SortedPairs ps' = SortedPairs ps \<and> mset (SortedPairs ps) = mset (map snd ps) \<and>
    sorted_wrt (\<lambda>a b. hashKeyLess (fst a) (fst b)) (SortedPairs ps)"
proof -
  have "mset (sort_entries ps) = mset ps"
    using wf_hash_entries [OF assms(1)] by (simp add: sort_entries_sort_key)
  then have "mset (SortedPairs ps) = mset (map snd ps)" by (simp add: SortedPairs_def)
  then show ?thesis
    using sort_entries_mset [OF assms] sorted_SortedPairs [OF assms(1)] by (simp add: SortedPairs_def)
qed

definition example_hash :: "hash_entry list" where
  "example_hash = map (\<lambda>(k, v). (the (hash_key k), k, v)) [(String ''b'', Null), (Integer 2, Null), (Integer (-1), Null)]"

theorem SortedPairs_deterministic_witness:
  "SortedPairs (rev example_hash) = SortedPairs example_hash \<and>
   map fst (SortedPairs example_hash) = [Integer (-1), Integer 2, String ''b'']"
proof -
  have "wf_hash example_hash" by (simp add: wf_hash_def example_hash_def hash_key_def)
  moreover have "map fst (SortedPairs example_hash) = [Integer (-1), Integer 2, String ''b'']"
    by (simp add: example_hash_def SortedPairs_def sort_entries_def entry_cmp_def hashKeyLess_def
        hash_key_def compareHashKeys_def)
  ultimately show ?thesis using SortedPairs_deterministic [of example_hash "rev example_hash"] by simp
qed

definition key64 :: "object \<Rightarrow> bool" where
  "key64 k \<longleftrightarrow> (case k of Integer i \<Rightarrow> int64 i | Bytes _ _ \<Rightarrow> False | _ \<Rightarrow> True)"

text \<open>
  C27: Two keys other than byte strings fall on the same hash entry only when they are the same
  value: integers by their 64 bits, floats by their bit pattern, strings by their text, and keys
  of different types never.
\<close>

theorem HashKey_injective:
  assumes "hash_key a = Some h" "hash_key b = Some h" "key64 a" "key64 b"
  shows "a = b"
proof -
  have "Type a = Type b" using Type_HashKey [OF assms(1)] Type_HashKey [OF assms(2)] by simp
  with assms(1,2) show ?thesis
  proof (cases rule: HashKey_same_Type)
    case (i x y)
    then have "nat (x mod 2 ^ 64) = nat (y mod 2 ^ 64)" using assms(1,2) by (auto simp: hash_key_def)
    then have "x mod 2 ^ 64 = y mod 2 ^ 64" by (simp add: eq_nat_nat_iff)
    then have "wrap64 x = wrap64 y" by (rule wrap64_cong)
    then show ?thesis using i assms(3,4) by (simp add: key64_def)
  qed (use assms in \<open>auto simp: hash_key_def key64_def word_unat_eq_iff split: if_splits\<close>)
qed

theorem HashKey_injective_witness:
  "hash_key (Integer 5) = Some \<lparr>hk_Type = ''INTEGER'', hk_Value = 5, hk_Text = ''''\<rparr> \<and> Integer 5 = Integer (2 + 3)"
proof -
  have "hash_key (Integer 5) = Some \<lparr>hk_Type = ''INTEGER'', hk_Value = 5, hk_Text = ''''\<rparr>"
    by (simp add: hash_key_def)
  moreover from this have "hash_key (Integer (2 + 3)) = Some \<lparr>hk_Type = ''INTEGER'', hk_Value = 5, hk_Text = ''''\<rparr>"
    by simp
  ultimately show ?thesis using HashKey_injective [of "Integer 5" _ "Integer (2 + 3)"]
    by (simp add: key64_def int64_def)
qed

text \<open>The successive results of calling \<^verbatim>\<open>Next\<close>.\<close>

fun drain :: "nat \<Rightarrow> IteratorState \<Rightarrow> (object \<times> object) option list" where
  "drain 0 it = []"
| "drain (Suc n) it = (let (r, it') = Iterator_Next it in r # drain n it')"

lemma drain_rest:
  "length (Keys it) = length (Values it) \<Longrightarrow> Index it \<le> length (Values it) \<Longrightarrow>
   drain (length (Values it) - Index it + n) it =
   map Some (drop (Index it) (zip (Keys it) (Values it))) @ replicate n None"
proof (induction "length (Values it) - Index it" arbitrary: it)
  case 0
  then have stop: "Iterator_Next it = (None, it)" by (simp add: Iterator_Next_def)
  then have "drain n it = replicate n None" by (induction n) simp_all
  then show ?case using 0 by simp
next
  case (Suc k)
  let ?it' = "it\<lparr>Index := Suc (Index it)\<rparr>"
  have less: "Index it < length (Values it)" using Suc.hyps(2) by simp
  have "drain (length (Values ?it') - Index ?it' + n) ?it' =
      map Some (drop (Index ?it') (zip (Keys ?it') (Values ?it'))) @ replicate n None"
    using Suc.prems Suc.hyps(2) less by (intro Suc.hyps(1)) simp_all
  moreover have "length (Values it) - Index it + n = Suc (length (Values it) - Suc (Index it) + n)"
    using less by simp
  moreover have "drop (Index it) (zip (Keys it) (Values it)) =
      (Keys it ! Index it, Values it ! Index it) # drop (Suc (Index it)) (zip (Keys it) (Values it))"
    using less Suc.prems(1) by (simp add: Cons_nth_drop_Suc [symmetric])
  ultimately show ?case using less by (simp add: Iterator_Next_def)
qed

definition iteration :: "object \<Rightarrow> (object \<times> object) list" where
  "iteration over = (case over of
      Array es \<Rightarrow> zip (index_keys (length es)) es
    | Hash ps \<Rightarrow> SortedPairs ps
    | String s \<Rightarrow> zip (index_keys (length (runes s))) (map (\<lambda>r. String (encode_rune r)) (runes s))
    | Bytes b _ \<Rightarrow> zip (index_keys (length b)) (map (\<lambda>x. Integer (int (unat x))) b)
    | _ \<Rightarrow> [])"

text \<open>
  C25: An iterator runs out: created over a string, bytes, an array or a hash, it hands out each
  element once, in index order (in key order for a hash), and from then on reports the end.
\<close>

theorem iterator_drains:
  assumes "NewIterator over = Some it"
  shows "drain (length (iteration over) + n) it = map Some (iteration over) @ replicate n None"
proof -
  have "length (Keys it) = length (Values it) \<and> Index it = 0 \<and> zip (Keys it) (Values it) = iteration over"
    using assms by (auto simp: NewIterator_def iteration_def index_keys_def Let_def zip_map_fst_snd split: object.splits)
  then show ?thesis using drain_rest [of it n] by (metis drop_0 length_zip min.idem minus_nat.diff_0 zero_le)
qed

theorem iterator_drains_witness:
  "\<exists>it. NewIterator (Array [Null, Boolean True]) = Some it \<and>
    drain 3 it = [Some (Integer 0, Null), Some (Integer 1, Boolean True), None]"
proof -
  obtain it where it: "NewIterator (Array [Null, Boolean True]) = Some it" by (simp add: NewIterator_def)
  have "iteration (Array [Null, Boolean True]) = [(Integer 0, Null), (Integer 1, Boolean True)]"
    by (simp add: iteration_def index_keys_def upt_rec)
  then show ?thesis using it iterator_drains [OF it, of 1] by (simp add: eval_nat_numeral)
qed

end
