(* ===== verification/Polymorphic.thy ===== *)
theory Polymorphic
  imports Bytecode LineTable Objects "HOL-Library.Multiset"
begin

text \<open>
  The polymorphic engine of \<^verbatim>\<open>src/compiler/polymorphic.go\<close>: it splices fillers into the
  instruction streams and repoints their jumps, shuffles the constant pool and the operands that
  index it, permutes the instruction set and records the inverse for the runtime.

  The engine's generator, \<^verbatim>\<open>math/rand\<close> seeded by the build, is an arbitrary stream of draws: \<^verbatim>\<open>Intn\<close>
  and \<^verbatim>\<open>Float64\<close> consume one each, and every theorem holds for every stream.  A function constant
  is a value, so a constant pool never holds one function object twice.
\<close>

section \<open>Engine and program\<close>

record rng =
  draws :: "nat \<Rightarrow> nat"
  drawn :: nat

definition Intn :: "nat \<Rightarrow> rng \<Rightarrow> nat \<times> rng" where
  "Intn n r = (draws r (drawn r) mod n, r\<lparr>drawn := Suc (drawn r)\<rparr>)"

text \<open>\<^verbatim>\<open>rng.Float64() < rate\<close>: the draw is a multiple of \<open>2 ^ (-53)\<close> below one.\<close>

definition Float64_less :: "float64 \<Rightarrow> rng \<Rightarrow> bool \<times> rng" where
  "Float64_less rate r =
    (f_lt (f_div (f_of_int (int (draws r (drawn r) mod 2 ^ 53))) (f_of_int (2 ^ 53))) rate,
     r\<lparr>drawn := Suc (drawn r)\<rparr>)"

record PolymorphicEngine =
  mutationLevel :: int
  rand :: rng

record MutationConfig =
  InsertNOPs :: bool
  MutateOpcodes :: bool
  InsertDeadCode :: bool
  RandomizeConstants :: bool
  Level :: int

text \<open>
  A compiled program.  Its patches and its legacy registry mark are left out.
\<close>

record ModuleSpan =
  span_Path :: string
  StartLine :: int

record ByteCode =
  Instructions :: bytes
  Constants :: "object list"
  StructDefs :: "(string \<times> string list) list"
  EnumDefs :: "(string \<times> string list) list"
  Version :: int
  BuiltinNames :: "string list"
  OpcodeMap :: bytes
  SourceFile :: string
  bc_LineTable :: bytes
  bc_MacroTable :: bytes
  bc_EndTable :: bytes
  SourceText :: string
  ModuleSpans :: "ModuleSpan list"
  GlobalNames :: "string list"

definition NewPolymorphicEngine :: "int \<Rightarrow> rng \<Rightarrow> PolymorphicEngine" where
  "NewPolymorphicEngine level r =
    \<lparr>mutationLevel = (let level = (if level < 0 then 0 else level) in if level > 10 then 10 else level),
     rand = r\<rparr>"

definition polymorphicSafeStagesEnabled :: bool where
  "polymorphicSafeStagesEnabled = True"

definition getConfig :: "PolymorphicEngine \<Rightarrow> MutationConfig" where
  "getConfig pe =
    (let active = (polymorphicSafeStagesEnabled \<and> mutationLevel pe \<ge> 1) in
     \<lparr>InsertNOPs = active, MutateOpcodes = active, InsertDeadCode = active,
      RandomizeConstants = active, Level = mutationLevel pe\<rparr>)"

section \<open>Walking a stream\<close>

text \<open>The width of the instruction at an offset, if it decodes and fits.\<close>

definition instr_width :: "bytes \<Rightarrow> nat \<Rightarrow> nat option" where
  "instr_width ins i = (case Lookup (ins ! i) of
      Inl _ \<Rightarrow> None
    | Inr def \<Rightarrow>
        let width = 1 + sum_list (OperandWidths def) in
        if i + width > length ins then None else Some width)"

lemma instr_width_pos: "instr_width ins i = Some w \<Longrightarrow> 0 < w \<and> i + w \<le> length ins"
  by (auto simp: instr_width_def Let_def split: sum.splits if_splits)

function boundaries_loop :: "bytes \<Rightarrow> nat \<Rightarrow> (nat \<times> nat) list \<Rightarrow> (nat \<times> nat) list option" where
  "boundaries_loop ins i acc =
    (if i < length ins then
       (case instr_width ins i of
          None \<Rightarrow> None
        | Some width \<Rightarrow> boundaries_loop ins (i + width) (acc @ [(i, width)]))
     else Some acc)"
  by pat_completeness auto
termination
  by (relation "measure (\<lambda>(ins, i, _). length ins - i)") (auto dest: instr_width_pos)

declare boundaries_loop.simps [simp del]

text \<open>\<^verbatim>\<open>decodeBoundaries\<close>: the start and width of every instruction, or none at all.\<close>

definition decodeBoundaries :: "bytes \<Rightarrow> (nat \<times> nat) list option" where
  "decodeBoundaries ins = boundaries_loop ins 0 []"

definition lastPopOffset :: "bytes \<Rightarrow> nat list \<Rightarrow> nat" where
  "lastPopOffset ins starts =
    (case find (\<lambda>s. ins ! s = opcode_byte OpPop) (rev starts) of None \<Rightarrow> 0 | Some s \<Rightarrow> s)"

definition containsInt :: "nat list \<Rightarrow> nat \<Rightarrow> bool" where
  "containsInt haystack needle \<longleftrightarrow> (\<exists>v \<in> set haystack. v = needle)"

definition read_u16 :: "bytes \<Rightarrow> nat \<Rightarrow> nat" where
  "read_u16 ins offset = get_be16 (ins ! offset) (ins ! (offset + 1))"

definition write_u16 :: "bytes \<Rightarrow> nat \<Rightarrow> nat \<Rightarrow> bytes" where
  "write_u16 ins offset v = ins[offset := byte_of_nat (v div 256), offset + 1 := byte_of_nat v]"

section \<open>Repointing jumps\<close>

text \<open>The operands of one instruction, from operand number \<open>k\<close> at \<open>offset\<close>.\<close>

fun rewrite_operands ::
    "nat list \<Rightarrow> (nat \<rightharpoonup> nat) \<Rightarrow> nat set \<Rightarrow> nat list \<Rightarrow> nat \<Rightarrow> nat \<Rightarrow> bytes \<Rightarrow> bytes option" where
  "rewrite_operands slots remap ownJumps [] k offset padded = Some padded"
| "rewrite_operands slots remap ownJumps (w # ws) k offset padded =
    (if w = 2 \<and> containsInt slots k \<and> offset \<notin> ownJumps then
       (case remap (read_u16 padded offset) of
          None \<Rightarrow> None
        | Some target \<Rightarrow>
            if target > 65535 then None
            else rewrite_operands slots remap ownJumps ws (Suc k) (offset + w) (write_u16 padded offset target))
     else rewrite_operands slots remap ownJumps ws (Suc k) (offset + w) padded)"

lemma length_write_u16 [simp]: "length (write_u16 ins offset v) = length ins"
  by (simp add: write_u16_def)

lemma length_rewrite_operands:
  "rewrite_operands slots remap own ws k offset padded = Some p \<Longrightarrow> length p = length padded"
  by (induction ws arbitrary: k offset padded) (auto split: if_splits option.splits)

text \<open>The opcode at an offset, for an opcode byte that is defined.\<close>

definition op_at :: "bytes \<Rightarrow> nat \<Rightarrow> opcode" where
  "op_at ins i = the (opcode_of_byte (ins ! i))"

function rewriteJumpTargets :: "(nat \<rightharpoonup> nat) \<Rightarrow> nat set \<Rightarrow> nat \<Rightarrow> bytes \<Rightarrow> bytes option" where
  "rewriteJumpTargets remap ownJumps i padded =
    (if i < length padded then
       (case instr_width padded i of
          None \<Rightarrow> None
        | Some width \<Rightarrow>
            (case rewrite_operands (JumpOperands (op_at padded i)) remap ownJumps
                    (op_widths (op_at padded i)) 0 (i + 1) padded of
               None \<Rightarrow> None
             | Some padded' \<Rightarrow> rewriteJumpTargets remap ownJumps (i + width) padded'))
     else Some padded)"
  by pat_completeness auto
termination
  by (relation "measure (\<lambda>(_, _, i, padded). length padded - i)")
     (auto dest: instr_width_pos simp: length_rewrite_operands)

declare rewriteJumpTargets.simps [simp del]

section \<open>Fillers\<close>

text \<open>\<^verbatim>\<open>code.Make\<close> of an instruction whose operands fit.\<close>

definition made :: "opcode \<Rightarrow> int list \<Rightarrow> bytes" where
  "made op vs = (case Make op vs of Inl _ \<Rightarrow> [] | Inr b \<Rightarrow> b)"

definition generateNOP :: "rng \<Rightarrow> bytes \<times> rng" where
  "generateNOP r =
    (let (c, r') = Intn 3 r;
         push = (if c = 0 then OpTrue else if c = 1 then OpFalse else OpNull)
     in (made push [] @ made OpPop [], r'))"

definition deadCodeFillers :: "opcode list" where
  "deadCodeFillers = [OpTrue, OpFalse, OpNull, OpAdd, OpSub, OpMul, OpDiv, OpMod, OpBang, OpMinus,
     OpPop, OpDup, OpEqual, OpUnEqual, OpGreater, OpGreaterEqual, OpBitAnd, OpBitOr, OpBitXor,
     OpBitNot, OpShiftLeft, OpShiftRight]"

fun dead_fill :: "nat \<Rightarrow> bytes \<Rightarrow> rng \<Rightarrow> bytes \<times> rng" where
  "dead_fill 0 blk r = (blk, r)"
| "dead_fill (Suc n) blk r =
    (let (k, r') = Intn (length deadCodeFillers) r
     in dead_fill n (blk @ made (deadCodeFillers ! k) []) r')"

definition generateDeadBlock :: "nat \<Rightarrow> rng \<Rightarrow> (bytes \<times> nat list) \<times> rng" where
  "generateDeadBlock at r =
    (let (g, r) = Intn 2 r; guarded = (g = 0);
         blk = (if guarded then made OpFalse [] else []);
         jumpOp = (if guarded then OpJumpFalse else OpJump);
         operandAt = length blk + 1;
         blk = blk @ made jumpOp [0];
         (n, r) = Intn 5 r;
         (blk, r) = dead_fill (2 + n) blk r;
         target = at + length blk
     in if target > 65535 then (([], []), r)
        else ((write_u16 blk operandAt target, [operandAt]), r))"

datatype padGenerator = NOPGenerator | DeadBlockGenerator

definition fillerGenerators :: "MutationConfig \<Rightarrow> padGenerator list" where
  "fillerGenerators config =
    (if InsertNOPs config then [NOPGenerator] else []) @
    (if InsertDeadCode config then [DeadBlockGenerator] else [])"

primrec run_generator :: "padGenerator \<Rightarrow> nat \<Rightarrow> rng \<Rightarrow> (bytes \<times> nat list) \<times> rng" where
  "run_generator NOPGenerator at r = (let (blk, r') = generateNOP r in ((blk, []), r'))"
| "run_generator DeadBlockGenerator at r = generateDeadBlock at r"

record pad_state =
  padded :: bytes
  remap :: "nat \<rightharpoonup> nat"
  ownJumps :: "nat set"
  pad_rng :: rng

definition pad_step ::
    "bytes \<Rightarrow> float64 \<Rightarrow> nat \<Rightarrow> padGenerator list \<Rightarrow> pad_state \<Rightarrow> nat \<times> nat \<Rightarrow> pad_state" where
  "pad_step ins rate cutoff gens s sw =
    (let (start, width) = sw;
         s = s\<lparr>remap := (remap s)(start \<mapsto> length (padded s)),
               padded := padded s @ take width (drop start ins)\<rparr>;
         (go, r) = (if start < cutoff then Float64_less rate (pad_rng s) else (False, pad_rng s))
     in if go then
          (let (g, r) = Intn (length gens) r;
               ((block, own), r) = run_generator (gens ! g) (length (padded s)) r
           in s\<lparr>ownJumps := ownJumps s \<union> (\<lambda>o'. length (padded s) + o') ` set own,
                padded := padded s @ block, pad_rng := r\<rparr>)
        else s\<lparr>pad_rng := r\<rparr>)"

text \<open>\<^verbatim>\<open>padInstructions\<close>: the padded stream with its offset map, or the stream as it was and no map.\<close>

definition padInstructions ::
    "bytes \<Rightarrow> float64 \<Rightarrow> bool \<Rightarrow> padGenerator list \<Rightarrow> rng \<Rightarrow> (bytes \<times> (nat \<rightharpoonup> nat) option) \<times> rng" where
  "padInstructions ins rate protectFinalPop gens r = (case decodeBoundaries ins of
      None \<Rightarrow> ((ins, None), r)
    | Some bs \<Rightarrow>
        if bs = [] \<or> gens = [] then ((ins, None), r)
        else
          let starts = map fst bs;
              cutoff = (if protectFinalPop then lastPopOffset ins starts else last starts);
              s = foldl (pad_step ins rate cutoff gens)
                    \<lparr>padded = [], remap = Map.empty, ownJumps = {}, pad_rng = r\<rparr> bs;
              offsets = (remap s)(length ins \<mapsto> length (padded s))
          in case rewriteJumpTargets offsets (ownJumps s) 0 (padded s) of
               None \<Rightarrow> ((ins, None), pad_rng s)
             | Some p \<Rightarrow> ((p, Some offsets), pad_rng s))"

section \<open>Stages\<close>

text \<open>A line table moved along an offset map; a nil map drops the table.\<close>

definition int_offsets :: "(nat \<rightharpoonup> nat) option \<Rightarrow> (int \<rightharpoonup> int)" where
  "int_offsets m = (\<lambda>i. case m of None \<Rightarrow> None | Some f \<Rightarrow> if i < 0 then None else map_option int (f (nat i)))"

definition filler_rate :: "int \<Rightarrow> float64" where
  "filler_rate level = f_div (f_mul (f_of_int level) (f_div (f_of_int 3) (f_of_int 2))) (f_of_int 100)"

definition splice_function ::
    "float64 \<Rightarrow> padGenerator list \<Rightarrow> CompiledFn \<Rightarrow> rng \<Rightarrow> CompiledFn \<times> rng" where
  "splice_function rate gens fn r =
    (let ((ins, m), r') = padInstructions (fn_Instructions fn) rate False gens r; offs = int_offsets m
     in (fn\<lparr>fn_Instructions := ins, fn_LineTable := Remap offs (fn_LineTable fn),
            fn_MacroTable := Remap offs (fn_MacroTable fn), fn_EndTable := Remap offs (fn_EndTable fn)\<rparr>, r'))"

fun splice_constants ::
    "float64 \<Rightarrow> padGenerator list \<Rightarrow> object list \<Rightarrow> rng \<Rightarrow> object list \<times> rng" where
  "splice_constants rate gens [] r = ([], r)"
| "splice_constants rate gens (c # cs) r =
    (let (c', r) = (case c of
            CompiledFunction fn \<Rightarrow> (let (fn', r') = splice_function rate gens fn r in (CompiledFunction fn', r'))
          | _ \<Rightarrow> (c, r));
         (cs', r) = splice_constants rate gens cs r
     in (c' # cs', r))"

definition spliceFillers :: "int \<Rightarrow> MutationConfig \<Rightarrow> ByteCode \<Rightarrow> rng \<Rightarrow> ByteCode \<times> rng" where
  "spliceFillers level config bc r =
    (let gens = fillerGenerators config; rate = filler_rate level in
     if gens = [] then (bc, r)
     else let ((ins, m), r) = padInstructions (Instructions bc) rate True gens r;
              offs = int_offsets m;
              (cs, r) = splice_constants rate gens (Constants bc) r
          in (bc\<lparr>Instructions := ins, bc_LineTable := Remap offs (bc_LineTable bc),
                 bc_MacroTable := Remap offs (bc_MacroTable bc),
                 bc_EndTable := Remap offs (bc_EndTable bc), Constants := cs\<rparr>, r))"

text \<open>Fisher-Yates from the last position down.\<close>

fun shuffle :: "nat \<Rightarrow> 'a list \<Rightarrow> rng \<Rightarrow> 'a list \<times> rng" where
  "shuffle 0 xs r = (xs, r)"
| "shuffle (Suc i) xs r =
    (let (j, r') = Intn (Suc (Suc i)) r
     in shuffle i (xs[Suc i := xs ! j, j := xs ! Suc i]) r')"

definition generateShuffleMapping :: "nat \<Rightarrow> rng \<Rightarrow> nat list \<times> rng" where
  "generateShuffleMapping n r = shuffle (n - 1) [0..<n] r"

fun update_operands :: "nat list \<Rightarrow> nat list \<Rightarrow> nat list \<Rightarrow> nat \<Rightarrow> nat \<Rightarrow> bytes \<Rightarrow> bytes" where
  "update_operands slots mapping [] k offset result = result"
| "update_operands slots mapping (w # ws) k offset result =
    update_operands slots mapping ws (Suc k) (offset + w)
      (if w = 2 \<and> containsInt slots k \<and> read_u16 result offset < length mapping
       then write_u16 result offset (mapping ! read_u16 result offset)
       else result)"

lemma length_update_operands [simp]: "length (update_operands slots m ws k offset res) = length res"
  by (induction ws arbitrary: k offset res) auto

function update_loop :: "nat list \<Rightarrow> nat \<Rightarrow> bytes \<Rightarrow> bytes" where
  "update_loop mapping i result =
    (if i < length result then
       (case instr_width result i of
          None \<Rightarrow> result
        | Some instLen \<Rightarrow>
            update_loop mapping (i + instLen)
              (update_operands (ConstantOperands (op_at result i)) mapping (op_widths (op_at result i)) 0 (i + 1) result))
     else result)"
  by pat_completeness auto
termination
  by (relation "measure (\<lambda>(_, i, result). length result - i)") (auto dest: instr_width_pos)

declare update_loop.simps [simp del]

definition updateConstantReferences :: "nat list \<Rightarrow> bytes \<Rightarrow> bytes" where
  "updateConstantReferences mapping ins = update_loop mapping 0 ins"

text \<open>Constant \<open>i\<close> goes to position \<open>mapping ! i\<close>.\<close>

definition reorder :: "nat list \<Rightarrow> object list \<Rightarrow> object list" where
  "reorder mapping xs =
     foldl (\<lambda>acc i. acc[mapping ! i := xs ! i]) (replicate (length xs) GoNil) [0..<length xs]"

definition update_function :: "nat list \<Rightarrow> object \<Rightarrow> object" where
  "update_function mapping c = (case c of
      CompiledFunction fn \<Rightarrow>
        CompiledFunction (fn\<lparr>fn_Instructions := updateConstantReferences mapping (fn_Instructions fn)\<rparr>)
    | _ \<Rightarrow> c)"

definition randomizeConstantPool :: "ByteCode \<Rightarrow> rng \<Rightarrow> ByteCode \<times> rng" where
  "randomizeConstantPool bc r =
    (if length (Constants bc) \<le> 1 then (bc, r)
     else let (mapping, r') = generateShuffleMapping (length (Constants bc)) r;
              newConstants = reorder mapping (Constants bc)
          in (bc\<lparr>Instructions := updateConstantReferences mapping (Instructions bc),
                 Constants := map (update_function mapping) newConstants\<rparr>, r'))"

text \<open>The permutation of the instruction set as a list of pairs, and the two tables it gives.\<close>

definition generateOpcodeMapping :: "rng \<Rightarrow> (byte \<times> byte) list \<times> rng" where
  "generateOpcodeMapping r =
    (let (shuffled, r') = shuffle (length AllOpcodes - 1) AllOpcodes r in (zip AllOpcodes shuffled, r'))"

definition opcodeTables :: "(byte \<times> byte) list \<Rightarrow> bytes \<times> bytes" where
  "opcodeTables mapping =
    (let identity = map byte_of_nat [0..<256]
     in foldl (\<lambda>(forward, reverse) (orig, mapped).
          (forward[unat orig := mapped], reverse[unat mapped := orig])) (identity, identity) mapping)"

function remap_loop :: "bytes \<Rightarrow> bytes \<Rightarrow> nat \<Rightarrow> bytes \<Rightarrow> bytes option" where
  "remap_loop forward ins i out =
    (if i < length ins then
       (case instr_width ins i of
          None \<Rightarrow> None
        | Some width \<Rightarrow> remap_loop forward ins (i + width) (out[i := forward ! unat (ins ! i)]))
     else Some out)"
  by pat_completeness auto
termination
  by (relation "measure (\<lambda>(_, ins, i, _). length ins - i)") (auto dest: instr_width_pos)

declare remap_loop.simps [simp del]

definition remapOpcodes :: "bytes \<Rightarrow> bytes \<Rightarrow> bytes option" where
  "remapOpcodes ins forward = remap_loop forward ins 0 ins"

definition remap_constant :: "bytes \<Rightarrow> object \<Rightarrow> object option" where
  "remap_constant forward c = (case c of
      CompiledFunction fn \<Rightarrow>
        map_option (\<lambda>ins. CompiledFunction (fn\<lparr>fn_Instructions := ins\<rparr>)) (remapOpcodes (fn_Instructions fn) forward)
    | _ \<Rightarrow> Some c)"

definition mutateOpcodes :: "ByteCode \<Rightarrow> rng \<Rightarrow> ByteCode \<times> rng" where
  "mutateOpcodes bc r =
    (let (mapping, r') = generateOpcodeMapping r; (forward, reverse) = opcodeTables mapping in
     case remapOpcodes (Instructions bc) forward of
       None \<Rightarrow> (bc, r')
     | Some remapped \<Rightarrow>
         (case those (map (remap_constant forward) (Constants bc)) of
            None \<Rightarrow> (bc, r')
          | Some cs \<Rightarrow> (bc\<lparr>Instructions := remapped, Constants := cs, OpcodeMap := reverse\<rparr>, r')))"

definition AddPolymorphicMarker :: "int \<Rightarrow> bytes \<Rightarrow> bytes" where
  "AddPolymorphicMarker level ins = ins @ [0xFF, of_int level]"

definition DetectPolymorphicLevel :: "bytes \<Rightarrow> nat" where
  "DetectPolymorphicLevel ins =
    (if length ins < 2 then 0
     else if ins ! (length ins - 2) = 0xFF then
       (let level = unat (ins ! (length ins - 1)) in if level \<le> 10 then level else 0)
     else 0)"

definition Mutate :: "PolymorphicEngine \<Rightarrow> ByteCode \<Rightarrow> ByteCode \<times> PolymorphicEngine" where
  "Mutate pe bc =
    (if mutationLevel pe = 0 then (bc, pe)
     else
       let config = getConfig pe; r = rand pe;
           (bc, r) = (if InsertNOPs config \<or> InsertDeadCode config
                      then spliceFillers (mutationLevel pe) config bc r else (bc, r));
           (bc, r) = (if RandomizeConstants config then randomizeConstantPool bc r else (bc, r));
           (bc, r) = (if MutateOpcodes config then mutateOpcodes bc r else (bc, r))
       in (bc\<lparr>Instructions := AddPolymorphicMarker (mutationLevel pe) (Instructions bc)\<rparr>, pe\<lparr>rand := r\<rparr>))"

section \<open>Shuffles are permutations\<close>

lemma mset_shuffle: "i < length xs \<Longrightarrow> mset (fst (shuffle i xs r)) = mset xs"
proof (induction i arbitrary: xs r)
  case (Suc i)
  obtain j r' where j: "Intn (Suc (Suc i)) r = (j, r')" by force
  then have "j < Suc (Suc i)" by (auto simp: Intn_def)
  then have "mset (xs[Suc i := xs ! j, j := xs ! Suc i]) = mset xs"
    using Suc.prems by (intro mset_swap) simp_all
  then show ?case using Suc.IH [of "xs[Suc i := xs ! j, j := xs ! Suc i]" r'] Suc.prems j by simp
qed simp

lemma mset_shuffle_all: "xs \<noteq> [] \<Longrightarrow> mset (fst (shuffle (length xs - 1) xs r)) = mset xs"
  by (rule mset_shuffle) simp

lemma shuffle_mapping:
  assumes "0 < n"
  shows "length (fst (generateShuffleMapping n r)) = n" "distinct (fst (generateShuffleMapping n r))"
    "set (fst (generateShuffleMapping n r)) = {..<n}"
proof -
  have "mset (fst (generateShuffleMapping n r)) = mset [0..<n]"
    using assms mset_shuffle_all [of "[0..<n]" r] by (simp add: generateShuffleMapping_def)
  then show "length (fst (generateShuffleMapping n r)) = n" "distinct (fst (generateShuffleMapping n r))"
    "set (fst (generateShuffleMapping n r)) = {..<n}"
    by (metis diff_zero length_upt mset_eq_length, metis distinct_upt mset_eq_imp_distinct_iff,
        metis atLeast_upt mset_eq_setD)
qed

section \<open>The permuted instruction set\<close>

text \<open>
  What the rewriting and the runtime rely on: two byte maps of which the second undoes the first,
  and which leave the bytes that are no opcode alone.
\<close>

locale opcode_permutation =
  fixes fwd rev :: "byte \<Rightarrow> byte"
  assumes rev_fwd [simp]: "rev (fwd b) = b"
    and fwd_undefined: "opcode_of_byte b = None \<Longrightarrow> fwd b = b"
begin

lemma fwd_inject [simp]: "fwd a = fwd b \<longleftrightarrow> a = b"
  by (metis rev_fwd)

lemma fwd_rev [simp]: "fwd (rev b) = b"
proof -
  have "inj fwd" by (rule injI) simp
  then have "surj fwd" using finite_UNIV_inj_surj [of fwd] by simp
  then show ?thesis by (metis rev_fwd surjD)
qed

lemma rev_undefined: "opcode_of_byte b = None \<Longrightarrow> rev b = b"
  by (metis fwd_undefined rev_fwd)

end

lemma foldl_pair:
  "foldl (\<lambda>(f, r) (a, b). (u f a b, v r a b)) (F, R) ms =
     (foldl (\<lambda>f (a, b). u f a b) F ms, foldl (\<lambda>r (a, b). v r a b) R ms)"
  by (induction ms arbitrary: F R) auto

lemma foldl_update_nth:
  fixes ms :: "(byte \<times> byte) list"
  assumes "distinct (map fst ms)" "length F = 256"
  shows "foldl (\<lambda>f (a, c). f[unat a := c]) F ms ! unat b = (case map_of ms b of None \<Rightarrow> F ! unat b | Some c \<Rightarrow> c)"
  using assms
proof (induction ms arbitrary: F)
  case (Cons p ms)
  obtain a c where p: "p = (a, c)" by force
  have "map_of ms a = None" using Cons.prems(1) p by (simp add: map_of_eq_None_iff)
  moreover have "b \<noteq> a \<Longrightarrow> unat a \<noteq> unat b" by (simp add: word_unat_eq_iff)
  ultimately show ?case using Cons p unat_byte_less [of b] by (auto split: option.split)
qed simp

definition swap_pairs :: "('a \<times> 'b) list \<Rightarrow> ('b \<times> 'a) list" where
  "swap_pairs ms = map (\<lambda>(a, b). (b, a)) ms"

lemma foldl_swap_pairs:
  "foldl (\<lambda>r (a, c). r[unat c := a]) R ms = foldl (\<lambda>r (c, a). r[unat c := a]) R (swap_pairs ms)"
  for ms :: "(byte \<times> byte) list"
  by (induction ms arbitrary: R) (auto simp: swap_pairs_def)

lemma identity_nth: "map byte_of_nat [0..<256] ! unat (b :: byte) = b"
  using unat_byte_less [of b] by (simp del: upt_rec_numeral)

lemma opcodeTables_nth:
  assumes "distinct (map fst ms)" "distinct (map snd ms)"
  shows "fst (opcodeTables ms) ! unat b = (case map_of ms b of None \<Rightarrow> b | Some c \<Rightarrow> c)"
    "snd (opcodeTables ms) ! unat b = (case map_of (swap_pairs ms) b of None \<Rightarrow> b | Some c \<Rightarrow> c)"
proof -
  let ?id = "map byte_of_nat [0..<256]"
  have t: "opcodeTables ms = (foldl (\<lambda>f (a, c). f[unat a := c]) ?id ms, foldl (\<lambda>r (c, a). r[unat c := a]) ?id (swap_pairs ms))"
    unfolding opcodeTables_def Let_def foldl_pair foldl_swap_pairs ..
  have len: "length ?id = 256" by simp
  have d: "distinct (map fst (swap_pairs ms))" using assms(2) by (simp add: swap_pairs_def comp_def case_prod_unfold)
  show "fst (opcodeTables ms) ! unat b = (case map_of ms b of None \<Rightarrow> b | Some c \<Rightarrow> c)"
    unfolding t fst_conv foldl_update_nth [OF assms(1) len] identity_nth ..
  show "snd (opcodeTables ms) ! unat b = (case map_of (swap_pairs ms) b of None \<Rightarrow> b | Some c \<Rightarrow> c)"
    unfolding t snd_conv foldl_update_nth [OF d len] identity_nth ..
qed

lemma distinct_AllOpcodes: "distinct AllOpcodes"
proof -
  have "distinct (map unat (map byte_of_nat [0..<256]))"
    by (simp only: map_unat_byte_of_nat order_refl distinct_upt)
  then have "distinct (map byte_of_nat [0..<256])" by (simp only: distinct_map)
  then show ?thesis unfolding AllOpcodes_def by (rule distinct_filter)
qed

lemma set_AllOpcodes: "b \<in> set AllOpcodes \<longleftrightarrow> opcode_of_byte b \<noteq> None"
proof -
  have "b = byte_of_nat (unat b)" "unat b \<in> {0..<256}" using unat_byte_less [of b] by simp_all
  then have "b \<in> byte_of_nat ` {0..<256}" by (rule image_eqI)
  then show ?thesis by (simp only: AllOpcodes_def set_filter set_map set_upt mem_Collect_eq simp_thms)
qed

lemma opcode_mapping:
  fixes r :: rng
  defines "m \<equiv> fst (generateOpcodeMapping r)"
  shows "distinct (map fst m)" "distinct (map snd m)" "map fst m = AllOpcodes"
    "set (map snd m) = set AllOpcodes"
proof -
  have ne: "AllOpcodes \<noteq> []" using set_AllOpcodes [of "opcode_byte OpPop"] by auto
  let ?s = "fst (shuffle (length AllOpcodes - 1) AllOpcodes r)"
  have ms: "mset ?s = mset AllOpcodes" using mset_shuffle_all [OF ne] by blast
  have m: "m = zip AllOpcodes ?s" by (simp add: m_def generateOpcodeMapping_def case_prod_unfold Let_def)
  have len: "length ?s = length AllOpcodes" using ms by (rule mset_eq_length)
  show fst: "map fst m = AllOpcodes" using m len by simp
  have snd: "map snd m = ?s" using m len by simp
  show "distinct (map fst m)" unfolding fst by (rule distinct_AllOpcodes)
  show "distinct (map snd m)" unfolding snd using ms distinct_AllOpcodes by (metis mset_eq_imp_distinct_iff)
  show "set (map snd m) = set AllOpcodes" unfolding snd using ms by (rule mset_eq_setD)
qed

text \<open>The tables of one run of the engine, as functions on bytes.\<close>

definition forward_byte :: "rng \<Rightarrow> byte \<Rightarrow> byte" where
  "forward_byte r b = fst (opcodeTables (fst (generateOpcodeMapping r))) ! unat b"

definition reverse_byte :: "rng \<Rightarrow> byte \<Rightarrow> byte" where
  "reverse_byte r b = snd (opcodeTables (fst (generateOpcodeMapping r))) ! unat b"

interpretation op: opcode_permutation "forward_byte r" "reverse_byte r" for r
proof
  fix b :: byte
  let ?m = "fst (generateOpcodeMapping r)"
  note m = opcode_mapping [of r]
  have f: "forward_byte r b = (case map_of ?m b of None \<Rightarrow> b | Some c \<Rightarrow> c)"
    unfolding forward_byte_def by (rule opcodeTables_nth(1) [OF m(1,2)])
  have r: "reverse_byte r c = (case map_of (swap_pairs ?m) c of None \<Rightarrow> c | Some a \<Rightarrow> a)" for c
    unfolding reverse_byte_def by (rule opcodeTables_nth(2) [OF m(1,2)])
  have keys: "fst ` set ?m = set AllOpcodes" "snd ` set ?m = set AllOpcodes" using m(3,4) by (metis set_map)+
  have swap_fst: "map fst (swap_pairs ?m) = map snd ?m" by (simp add: swap_pairs_def case_prod_unfold comp_def)
  then have d: "distinct (map fst (swap_pairs ?m))" using m(2) by simp
  show "opcode_of_byte b = None \<Longrightarrow> forward_byte r b = b"
    using keys(1) set_AllOpcodes [of b] by (simp add: f map_of_eq_None_iff [THEN iffD2])
  show "reverse_byte r (forward_byte r b) = b"
  proof (cases "map_of ?m b")
    case None
    then have "b \<notin> set AllOpcodes" using keys(1) by (simp add: map_of_eq_None_iff)
    then have "map_of (swap_pairs ?m) b = None" using keys(2) swap_fst
      by (metis map_of_eq_None_iff set_map)
    then show ?thesis using None by (simp add: f r)
  next
    case (Some c)
    then have "(c, b) \<in> set (swap_pairs ?m)" by (force simp: swap_pairs_def dest: map_of_SomeD)
    then have "map_of (swap_pairs ?m) c = Some b" using d by simp
    then show ?thesis using Some by (simp add: f r)
  qed
qed

section \<open>Remapped streams decode to the program\<close>

text \<open>
  Decoding through a reverse table, the way the runtime fetches opcodes: the opcode byte is
  translated, the operand bytes are taken as they are.
\<close>

fun decode_with :: "(byte \<Rightarrow> byte) \<Rightarrow> bytes \<Rightarrow> bytes list option" where
  "decode_with dec [] = Some []"
| "decode_with dec (b # bs) =
    (case opcode_of_byte (dec b) of
       None \<Rightarrow> None
     | Some op \<Rightarrow>
         let n = sum_list (op_widths op) in
         if length bs < n then None
         else map_option ((#) (dec b # take n bs)) (decode_with dec (drop n bs)))"

lemma decode_with_id: "decode_with (\<lambda>b. b) bs = chunks bs"
  by (induction bs rule: chunks.induct) (auto simp: Let_def split: option.split)

definition recode :: "(byte \<Rightarrow> byte) \<Rightarrow> bytes \<Rightarrow> bytes" where
  "recode fwd c = fwd (hd c) # tl c"

lemma instr_width_at:
  assumes "drop i ins = opcode_byte op # bs"
  shows "instr_width ins i = (if sum_list (op_widths op) \<le> length bs then Some (Suc (sum_list (op_widths op))) else None)"
proof -
  note at_i = drop_ConsD [OF assms]
  have "length ins = i + Suc (length bs)" using assms at_i(1) by (metis le_add_diff_inverse length_Cons length_drop less_imp_le)
  then show ?thesis using at_i by (auto simp: instr_width_def Lookup_opcode_byte)
qed

lemma remap_loop_chunks:
  "chunks bs = Some cs \<Longrightarrow> drop i ins = bs \<Longrightarrow> length pre = i \<Longrightarrow>
   remap_loop fwd ins i (pre @ bs) = Some (pre @ concat (map (recode (\<lambda>b. fwd ! unat b)) cs))"
proof (induction bs arbitrary: cs i pre rule: chunks.induct)
  case 1
  then show ?case by (subst remap_loop.simps) simp
next
  case (2 b bs)
  from "2.prems"(1) show ?case
  proof (cases rule: chunks_ConsE)
    case (1 op cs')
    let ?n = "sum_list (op_widths op)" let ?c = "fwd ! unat b # take ?n bs"
    note at_i = drop_ConsD [OF "2.prems"(2)]
    have "remap_loop fwd ins i (pre @ b # bs) = remap_loop fwd ins (i + Suc ?n) ((pre @ ?c) @ drop ?n bs)"
      using at_i 1 instr_width_at [of i ins op bs] "2.prems"(2,3)
      by (subst remap_loop.simps) (simp add: list_update_append)
    also have "\<dots> = Some ((pre @ ?c) @ concat (map (recode (\<lambda>b. fwd ! unat b)) cs'))"
      using 1 at_i(3) "2.prems"(3)
      by (intro "2.IH") (auto simp: opcode_of_byte_Some add.commute min_absorb2)
    finally show ?thesis using 1(3) by (simp add: recode_def [of _ "b # take ?n bs"])
  qed
qed

lemma length_recode [simp]: "is_instr c \<Longrightarrow> length (recode f c) = length c"
  by (auto simp: recode_def is_instr_def)

context opcode_permutation
begin

lemma decode_recoded:
  "\<forall>c \<in> set cs. is_instr c \<Longrightarrow> decode_with rev (concat (map (recode fwd) cs)) = Some cs"
proof (induction cs)
  case (Cons c cs)
  then obtain op args where c: "c = opcode_byte op # args" "length args = sum_list (op_widths op)"
    by (auto simp: is_instr_def)
  then show ?case using Cons by (simp add: recode_def [of _ "opcode_byte op # args"] Let_def)
qed simp

end

section \<open>Renumbered constants\<close>

text \<open>The constant indices one instruction names, and the instruction with them renumbered.\<close>

fun named_constants :: "nat list \<Rightarrow> nat list \<Rightarrow> nat \<Rightarrow> bytes \<Rightarrow> nat list" where
  "named_constants slots [] k args = []"
| "named_constants slots (w # ws) k args =
    (if w = 2 \<and> containsInt slots k then [read_u16 args 0] else []) @
    named_constants slots ws (Suc k) (drop w args)"

definition constants_of :: "bytes \<Rightarrow> nat list" where
  "constants_of c = named_constants (ConstantOperands (op_at c 0)) (op_widths (op_at c 0)) 0 (tl c)"

fun renumber_args :: "nat list \<Rightarrow> nat list \<Rightarrow> nat list \<Rightarrow> nat \<Rightarrow> bytes \<Rightarrow> bytes" where
  "renumber_args slots m [] k args = args"
| "renumber_args slots m (w # ws) k args =
    (if w = 2 \<and> containsInt slots k \<and> read_u16 args 0 < length m
     then [byte_of_nat (m ! read_u16 args 0 div 256), byte_of_nat (m ! read_u16 args 0)]
     else take w args) @ renumber_args slots m ws (Suc k) (drop w args)"

definition renumber :: "nat list \<Rightarrow> bytes \<Rightarrow> bytes" where
  "renumber m c = hd c # renumber_args (ConstantOperands (op_at c 0)) m (op_widths (op_at c 0)) 0 (tl c)"

lemma read_u16_append:
  "Suc (Suc 0) \<le> length args \<Longrightarrow> read_u16 (pre @ args @ post) (length pre) = read_u16 args 0"
  by (auto simp: read_u16_def nth_append)

lemma write_u16_append:
  "Suc (Suc 0) \<le> length args \<Longrightarrow>
   write_u16 (pre @ args @ post) (length pre) v =
   (pre @ [byte_of_nat (v div 256), byte_of_nat v]) @ drop 2 args @ post"
  by (cases args rule: list.exhaust; cases "tl args") (auto simp: write_u16_def list_update_append)

lemma length_renumber_args:
  "sum_list ws \<le> length args \<Longrightarrow> length (renumber_args slots m ws k args) = length args"
  by (induction ws arbitrary: k args) auto

lemma update_operands_renumber:
  "sum_list ws = length args \<Longrightarrow>
   update_operands slots m ws k (length pre) (pre @ args @ post) = pre @ renumber_args slots m ws k args @ post"
proof (induction ws arbitrary: k pre args)
  case (Cons w ws)
  have len: "sum_list ws = length (drop w args)" "w \<le> length args" using Cons.prems by simp_all
  show ?case
  proof (cases "w = 2 \<and> containsInt slots k \<and> read_u16 args 0 < length m")
    case True
    then show ?thesis using Cons.IH [OF len(1), of "Suc k"
        "pre @ [byte_of_nat (m ! read_u16 args 0 div 256), byte_of_nat (m ! read_u16 args 0)]"] len(2)
      by (simp add: read_u16_append write_u16_append numeral_2_eq_2)
  next
    case False
    moreover have td: "take w args @ drop w args @ post = args @ post" by (metis append_assoc append_take_drop_id)
    ultimately have "update_operands slots m (w # ws) k (length pre) (pre @ args @ post) =
        update_operands slots m ws (Suc k) (length (pre @ take w args)) ((pre @ take w args) @ drop w args @ post)"
      using len(2) by (auto simp: td read_u16_append min_absorb2)
    then show ?thesis using False Cons.IH [OF len(1), of "Suc k" "pre @ take w args"] by auto
  qed
qed simp

lemma op_at_append: "op_at (pre @ opcode_byte op # bs) (length pre) = op"
  by (simp add: op_at_def)

lemma update_loop_renumber:
  "chunks bs = Some cs \<Longrightarrow>
   update_loop m (length pre) (pre @ bs) = pre @ concat (map (renumber m) cs)"
proof (induction bs arbitrary: cs pre rule: chunks.induct)
  case 1
  then show ?case by (subst update_loop.simps) simp
next
  case (2 b bs)
  from "2.prems"(1) show ?case
  proof (cases rule: chunks_ConsE)
    case (1 op cs')
    let ?n = "sum_list (op_widths op)" let ?c = "b # take ?n bs"
    have "op_at ?c 0 = op" using op_at_append [of "[]"] 1(1) by simp
    then have ren: "renumber m ?c = b # renumber_args (ConstantOperands op) m (op_widths op) 0 (take ?n bs)"
      by (simp add: renumber_def)
    have len: "length (renumber m ?c) = Suc ?n" using 1(2) by (simp add: ren length_renumber_args)
    have w: "instr_width (pre @ b # bs) (length pre) = Some (Suc ?n)"
      using instr_width_at [of "length pre" "pre @ b # bs" op bs] 1 by simp
    have "update_operands (ConstantOperands op) m (op_widths op) 0 (Suc (length pre)) (pre @ b # bs) =
        (pre @ renumber m ?c) @ drop ?n bs"
      using update_operands_renumber [of "op_widths op" "take ?n bs" "ConstantOperands op" m 0 "pre @ [b]" "drop ?n bs"] 1(2)
      by (simp add: ren)
    then have "update_loop m (length pre) (pre @ b # bs) =
        update_loop m (length (pre @ renumber m ?c)) ((pre @ renumber m ?c) @ drop ?n bs)"
      using op_at_append [of pre op bs, folded 1(1)] by (subst update_loop.simps) (simp add: w len)
    also have "\<dots> = (pre @ renumber m ?c) @ concat (map (renumber m) cs')"
      using 1 by (intro "2.IH") (auto simp: opcode_of_byte_Some)
    finally show ?thesis using 1(3) by simp
  qed
qed

lemma renumber_instr: "is_instr c \<Longrightarrow> is_instr (renumber m c) \<and> op_at (renumber m c) 0 = op_at c 0"
  by (auto simp: is_instr_def renumber_def op_at_def length_renumber_args)

lemma named_renumbered:
  assumes "\<forall>i \<in> set m. i < 65536"
  shows "sum_list ws \<le> length args \<Longrightarrow> \<forall>i \<in> set (named_constants slots ws k args). i < length m \<Longrightarrow>
   named_constants slots ws k (renumber_args slots m ws k args) = map ((!) m) (named_constants slots ws k args)"
proof (induction ws arbitrary: k args)
  case (Cons w ws)
  have IH: "named_constants slots ws (Suc k) (renumber_args slots m ws (Suc k) (drop w args)) =
      map ((!) m) (named_constants slots ws (Suc k) (drop w args))"
    using Cons by (intro Cons.IH) (auto split: if_splits)
  show ?case
  proof (cases "w = 2 \<and> containsInt slots k")
    case True
    then have "read_u16 args 0 < length m" using Cons.prems(2) by simp
    moreover from this have "m ! read_u16 args 0 < 65536" using assms by simp
    ultimately show ?thesis using True IH by (simp add: read_u16_def [of "_ # _"])
  next
    case False
    then show ?thesis using IH Cons.prems(1) by auto
  qed
qed simp

lemma constants_of_renumber:
  assumes "is_instr c" "\<forall>i \<in> set m. i < 65536" "\<forall>i \<in> set (constants_of c). i < length m"
  shows "constants_of (renumber m c) = map ((!) m) (constants_of c)"
proof -
  from assms(1) obtain op args where c: "c = opcode_byte op # args" "length args = sum_list (op_widths op)"
    by (auto simp: is_instr_def)
  moreover have "op_at c 0 = op" "op_at (renumber m c) 0 = op"
    using c(1) renumber_instr [OF assms(1), of m] by (simp_all add: op_at_def)
  ultimately show ?thesis
    using named_renumbered [OF assms(2), of "op_widths op" args "ConstantOperands op" 0] assms(3)
    by (simp add: constants_of_def renumber_def [of m "_ # _"])
qed

lemma foldl_scatter:
  assumes "distinct m" "length m = length xs" "\<forall>i \<in> set m. i < length acc" "n \<le> length xs"
  shows "i < n \<Longrightarrow> foldl (\<lambda>acc i. acc[m ! i := xs ! i]) acc [0..<n] ! (m ! i) = xs ! i"
  using assms(4)
proof (induction n)
  case (Suc n)
  have len: "length (foldl (\<lambda>acc i. acc[m ! i := xs ! i]) acc [0..<n]) = length acc" for n
    by (induction n) simp_all
  have "m ! i < length acc" "m ! n < length acc" using Suc.prems assms(2,3) by simp_all
  moreover have "i \<noteq> n \<Longrightarrow> m ! n \<noteq> m ! i" using Suc.prems assms(1,2) by (simp add: nth_eq_iff_index_eq)
  ultimately show ?case using Suc len [of n] by (cases "i = n") auto
qed simp

lemma reorder_nth:
  "distinct m \<Longrightarrow> length m = length xs \<Longrightarrow> \<forall>i \<in> set m. i < length xs \<Longrightarrow> i < length xs \<Longrightarrow>
   reorder m xs ! (m ! i) = xs ! i"
  unfolding reorder_def by (rule foldl_scatter) simp_all

lemma length_reorder [simp]: "length (reorder m xs) = length xs"
proof -
  have "length (foldl (\<lambda>acc i. acc[m ! i := xs ! i]) acc [0..<n]) = length acc" for n and acc :: "object list"
    by (induction n) simp_all
  then show ?thesis by (simp add: reorder_def)
qed

section \<open>Properties of the engine\<close>

text \<open>
  C26: The permutation of the instruction set that the engine draws is undone by the reverse table
  it stores, byte by byte and for any source of randomness; bytes that are no opcode, the trailer's
  0xFF among them, are fixed.
\<close>

theorem opcodeTables_inverse:
  fixes r :: rng
  defines "tables \<equiv> opcodeTables (fst (generateOpcodeMapping r))"
  shows "snd tables ! unat (fst tables ! unat b) = b \<and> fst tables ! unat (snd tables ! unat b) = b \<and>
    (opcode_of_byte b = None \<longrightarrow> fst tables ! unat b = b \<and> snd tables ! unat b = b)"
  using op.rev_fwd [of r b] op.fwd_rev [of r b] op.fwd_undefined [of b r] op.rev_undefined [of b r]
  by (simp_all add: forward_byte_def reverse_byte_def tables_def)

text \<open>
  C10: Remapping the opcodes of a well-formed stream succeeds, keeps its length, and the result,
  read the way the runtime fetches opcodes through the stored reverse table, is exactly the
  original sequence of instructions.
\<close>

theorem remapOpcodes_decodes:
  fixes r :: rng
  defines "tables \<equiv> opcodeTables (fst (generateOpcodeMapping r))"
  assumes "chunks ins = Some cs"
  shows "\<exists>out. remapOpcodes ins (fst tables) = Some out \<and> length out = length ins \<and>
    decode_with (\<lambda>b. snd tables ! unat b) out = Some cs"
proof -
  let ?out = "concat (map (recode (forward_byte r)) cs)"
  note instrs = chunks_is_instr [OF assms(2)]
  have "remapOpcodes ins (fst tables) = Some ?out"
    using remap_loop_chunks [OF assms(2), of 0 ins "[]" "fst tables"]
    by (simp add: remapOpcodes_def forward_byte_def [abs_def] tables_def)
  moreover have "length ?out = length (concat cs)"
    using instrs by (simp add: length_concat comp_def cong: map_cong)
  moreover have "decode_with (reverse_byte r) ?out = Some cs" by (rule op.decode_recoded [OF instrs])
  moreover have "reverse_byte r = (\<lambda>b. snd tables ! unat b)" by (simp add: reverse_byte_def [abs_def] tables_def)
  ultimately show ?thesis using chunks_concat [OF assms(2)] by simp
qed

text \<open>
  Two streams that differ only in where their constants lie in the pool: the same opcodes, and the
  same operands but for those that index the pool, which follow \<open>m\<close>.
\<close>

definition operand_values :: "bytes \<Rightarrow> int list" where
  "operand_values c = fst (ReadOperands (definitions (op_at c 0)) (tl c))"

definition same_instruction :: "nat list \<Rightarrow> bytes \<Rightarrow> bytes \<Rightarrow> bool" where
  "same_instruction m c c' \<longleftrightarrow> hd c' = hd c \<and>
     operand_values c' = map (\<lambda>(k, v). if k \<in> set (ConstantOperands (op_at c 0)) then int (m ! nat v) else v)
       (enumerate 0 (operand_values c))"

definition same_stream :: "nat list \<Rightarrow> bytes \<Rightarrow> bytes \<Rightarrow> bool" where
  "same_stream m ins ins' \<longleftrightarrow> (case (chunks ins, chunks ins') of
      (Some cs, Some cs') \<Rightarrow> list_all2 (same_instruction m) cs cs'
    | _ \<Rightarrow> False)"

definition same_constant :: "nat list \<Rightarrow> object \<Rightarrow> object \<Rightarrow> bool" where
  "same_constant m v v' \<longleftrightarrow> (case v of
      CompiledFunction fn \<Rightarrow>
        (\<exists>ins'. v' = CompiledFunction (fn\<lparr>fn_Instructions := ins'\<rparr>) \<and> same_stream m (fn_Instructions fn) ins')
    | _ \<Rightarrow> v' = v)"

text \<open>A stream of whole instructions whose constants lie in a pool of \<open>n\<close>.\<close>

definition pool_stream :: "nat \<Rightarrow> bytes \<Rightarrow> bool" where
  "pool_stream n ins \<longleftrightarrow> (case chunks ins of
      None \<Rightarrow> False
    | Some cs \<Rightarrow> \<forall>c \<in> set cs. \<forall>k \<in> set (constants_of c). k < n)"

fun slice_values :: "nat list \<Rightarrow> bytes \<Rightarrow> int list" where
  "slice_values [] args = []"
| "slice_values (w # ws) args =
    (if w = 1 then int (unat (args ! 0)) else if w = 2 then int (read_u16 args 0) else 0) # slice_values ws (drop w args)"

lemma read_loop_slices: "offset + sum_list ws \<le> length ins \<Longrightarrow> fst (read_loop ws ins offset) = slice_values ws (drop offset ins)"
  by (induction ws arbitrary: offset) (auto simp: Let_def case_prod_unfold read_u16_def add.commute)

lemma operand_values_slices:
  "length args = sum_list (op_widths op) \<Longrightarrow> operand_values (opcode_byte op # args) = slice_values (op_widths op) args"
  using read_loop_slices [of 0 "op_widths op" args] op_at_append [of "[]" op args]
  by (simp add: operand_values_def ReadOperands_def)

lemma length_slice_values [simp]: "length (slice_values ws args) = length ws"
  by (induction ws arbitrary: args) auto

lemma slice_values_renumber:
  assumes "\<forall>i \<in> set m. i < 65536"
  shows "sum_list ws \<le> length args \<Longrightarrow> \<forall>w \<in> set ws. w = 1 \<or> w = 2 \<Longrightarrow>
    (\<And>j. j < length ws \<Longrightarrow> k + j \<in> set slots \<Longrightarrow> ws ! j = 2) \<Longrightarrow>
    \<forall>i \<in> set (named_constants slots ws k args). i < length m \<Longrightarrow>
    slice_values ws (renumber_args slots m ws k args) =
    map (\<lambda>(j, v). if j \<in> set slots then int (m ! nat v) else v) (enumerate k (slice_values ws args))"
proof (induction ws arbitrary: k args)
  case (Cons w ws)
  have IH: "slice_values ws (renumber_args slots m ws (Suc k) (drop w args)) =
      map (\<lambda>(j, v). if j \<in> set slots then int (m ! nat v) else v) (enumerate (Suc k) (slice_values ws (drop w args)))"
  proof (rule Cons.IH)
    show "ws ! j = 2" if "j < length ws" "Suc k + j \<in> set slots" for j
      using Cons.prems(3) [of "Suc j"] that by simp
  qed (use Cons.prems in \<open>auto split: if_splits\<close>)
  show ?case
  proof (cases "k \<in> set slots")
    case True
    then have w: "w = 2" "containsInt slots k" using Cons.prems(3) [of 0] by (simp_all add: containsInt_def)
    then have "read_u16 args 0 < length m" using Cons.prems(4) by simp
    moreover from this have "m ! read_u16 args 0 < 65536" using assms by simp
    ultimately show ?thesis using w True IH by (simp add: read_u16_def [of "_ # _"])
  next
    case False
    then have "\<not> containsInt slots k" by (auto simp: containsInt_def)
    moreover have "w = 1 \<or> w = 2" "w \<le> length args" using Cons.prems(1,2) by auto
    ultimately show ?thesis using False IH by (auto simp: read_u16_def nth_append)
  qed
qed simp

lemma ConstantOperands_wide: "k < length (op_widths op) \<Longrightarrow> k \<in> set (ConstantOperands op) \<Longrightarrow> op_widths op ! k = 2"
  by (auto simp: ConstantOperands_def op_widths_def split: if_splits)

lemma renumber_same:
  assumes "is_instr c" "\<forall>i \<in> set m. i < 65536" "\<forall>i \<in> set (constants_of c). i < length m"
  shows "same_instruction m c (renumber m c)"
proof -
  from assms(1) obtain op args where c: "c = opcode_byte op # args" "length args = sum_list (op_widths op)"
    by (auto simp: is_instr_def)
  have op: "op_at c 0 = op" using c(1) by (simp add: op_at_def)
  let ?args = "renumber_args (ConstantOperands op) m (op_widths op) 0 args"
  have r: "renumber m c = opcode_byte op # ?args" "length ?args = sum_list (op_widths op)"
    using c op by (simp_all add: renumber_def length_renumber_args)
  have "slice_values (op_widths op) ?args =
      map (\<lambda>(j, v). if j \<in> set (ConstantOperands op) then int (m ! nat v) else v)
        (enumerate 0 (slice_values (op_widths op) args))"
  proof (rule slice_values_renumber [OF assms(2)])
    show "\<forall>w \<in> set (op_widths op). w = 1 \<or> w = 2" using set_op_widths by blast
    show "\<forall>i \<in> set (named_constants (ConstantOperands op) (op_widths op) 0 args). i < length m"
      using assms(3) c(1) op by (simp add: constants_of_def)
  qed (use c(2) ConstantOperands_wide in simp_all)
  then show ?thesis
    unfolding same_instruction_def r(1) operand_values_slices [OF r(2)] op using c by (simp add: operand_values_slices)
qed

lemma updateConstantReferences_same:
  assumes "pool_stream (length m) ins" "\<forall>i \<in> set m. i < 65536"
  shows "same_stream m ins (updateConstantReferences m ins)"
proof -
  obtain cs where cs: "chunks ins = Some cs" "\<forall>c \<in> set cs. \<forall>k \<in> set (constants_of c). k < length m"
    using assms(1) by (auto simp: pool_stream_def split: option.splits)
  note instrs = chunks_is_instr [OF cs(1)]
  have "updateConstantReferences m ins = concat (map (renumber m) cs)"
    using update_loop_renumber [OF cs(1), of m "[]"] by (simp add: updateConstantReferences_def)
  moreover have "chunks (concat (map (renumber m) cs)) = Some (map (renumber m) cs)"
    using instrs renumber_instr by (intro chunks_of_instrs) auto
  moreover have "same_instruction m c (renumber m c)" if "c \<in> set cs" for c
    using renumber_same [OF _ assms(2)] instrs cs(2) that by blast
  then have "list_all2 (same_instruction m) cs (map (renumber m) cs)"
    by (simp add: list_all2_conv_all_nth)
  ultimately show ?thesis using cs(1) by (simp add: same_stream_def)
qed

lemma renumber_args_id: "sum_list ws = length args \<Longrightarrow> renumber_args slots [0..<n] ws k args = args"
proof (induction ws arbitrary: k args)
  case (Cons w ws)
  have d: "renumber_args slots [0..<n] ws (Suc k) (drop w args) = drop w args" using Cons by (intro Cons.IH) auto
  have "[byte_of_nat (read_u16 args 0 div 256), byte_of_nat (read_u16 args 0)] = take w args" if "w = 2"
  proof -
    have "2 \<le> length args" using Cons.prems that by simp
    then obtain x y zs where "args = x # y # zs" by (cases args; cases "tl args") auto
    then show ?thesis using put_get_be16 [of x y] that by (simp add: read_u16_def put_be16_def)
  qed
  then show ?case using d append_take_drop_id [of w args] by (cases "w = 2") simp_all
qed simp

lemma updateConstantReferences_id: "chunks ins = Some cs \<Longrightarrow> updateConstantReferences [0..<n] ins = ins"
proof -
  assume cs: "chunks ins = Some cs"
  have "renumber [0..<n] c = c" if "c \<in> set cs" for c
    using chunks_is_instr [OF cs] that by (auto simp: is_instr_def renumber_def op_at_def renumber_args_id)
  then have "map (renumber [0..<n]) cs = cs" by (simp add: map_idI)
  then show ?thesis using update_loop_renumber [OF cs, of "[0..<n]" "[]"] chunks_concat [OF cs]
    by (simp add: updateConstantReferences_def)
qed

lemma update_function_same:
  assumes "\<forall>fn. v = CompiledFunction fn \<longrightarrow> pool_stream (length m) (fn_Instructions fn)" "\<forall>i \<in> set m. i < 65536"
  shows "same_constant m v (update_function m v)"
  using updateConstantReferences_same [OF _ assms(2)] assms(1)
  by (cases v) (auto simp: same_constant_def update_function_def)

lemma update_function_id: "(\<And>fn. v = CompiledFunction fn \<Longrightarrow> pool_stream n (fn_Instructions fn)) \<Longrightarrow> update_function [0..<n] v = v"
  by (cases v) (auto simp: update_function_def pool_stream_def updateConstantReferences_id split: option.splits)

text \<open>
  C12: Shuffling the constant pool keeps the program.  There is a permutation of the pool such that
  every constant is found where the permutation puts it, and every instruction, of the main stream
  and of every function in the pool, has the opcode and the operands it had, but that an operand which
  indexes the pool names the new place of the constant it named before.  This holds for any source of
  randomness and any pool a 16-bit operand can index.
\<close>

theorem randomizeConstantPool_keeps_constants:
  fixes r :: rng
  assumes "length (Constants bc) \<le> 65536" "pool_stream (length (Constants bc)) (Instructions bc)"
    and "\<forall>fn. CompiledFunction fn \<in> set (Constants bc) \<longrightarrow> pool_stream (length (Constants bc)) (fn_Instructions fn)"
  defines "bc' \<equiv> fst (randomizeConstantPool bc r)"
  shows "\<exists>m. distinct m \<and> set m = {..<length (Constants bc)} \<and> length (Constants bc') = length (Constants bc) \<and>
    same_stream m (Instructions bc) (Instructions bc') \<and>
    (\<forall>k < length (Constants bc). same_constant m (Constants bc ! k) (Constants bc' ! (m ! k)))"
proof -
  let ?n = "length (Constants bc)"
  define m where "m = (if ?n \<le> 1 then [0..<?n] else fst (generateShuffleMapping ?n r))"
  have m: "length m = ?n" "distinct m" "set m = {..<?n}"
  proof -
    have "0 < ?n" if "\<not> ?n \<le> 1" using that by linarith
    then show "length m = ?n" "distinct m" "set m = {..<?n}"
      using shuffle_mapping [of ?n r] unfolding m_def by (cases "?n \<le> 1"; simp add: lessThan_atLeast0)+
  qed
  have fits: "\<forall>i \<in> set m. i < 65536" using m(3) assms(1) by auto
  have bc': "Instructions bc' = updateConstantReferences m (Instructions bc)"
    "length (Constants bc') = ?n" "\<And>k. k < ?n \<Longrightarrow> Constants bc' ! (m ! k) = update_function m (Constants bc ! k)"
  proof -
    have small: "updateConstantReferences m (Instructions bc) = Instructions bc" if "?n \<le> 1"
      using that assms(2) by (auto simp: m_def pool_stream_def updateConstantReferences_id split: option.splits)
    have small_at: "update_function m (Constants bc ! k) = Constants bc ! k \<and> m ! k = k" if "?n \<le> 1" "k < ?n" for k
    proof -
      have "update_function [0..<?n] (Constants bc ! k) = Constants bc ! k"
        using assms(3) nth_mem [OF that(2)] by (intro update_function_id) simp
      then show ?thesis using that by (simp add: m_def)
    qed
    have large: "bc' = bc\<lparr>Instructions := updateConstantReferences m (Instructions bc),
        Constants := map (update_function m) (reorder m (Constants bc))\<rparr>" if "\<not> ?n \<le> 1"
      using that by (simp add: bc'_def randomizeConstantPool_def m_def case_prod_unfold Let_def)
    show "Instructions bc' = updateConstantReferences m (Instructions bc)" "length (Constants bc') = ?n"
      using small large by (cases "?n \<le> 1"; simp add: bc'_def randomizeConstantPool_def)+
    show "Constants bc' ! (m ! k) = update_function m (Constants bc ! k)" if k: "k < ?n" for k
    proof (cases "?n \<le> 1")
      case True
      then show ?thesis using small_at [OF True k] by (simp add: bc'_def randomizeConstantPool_def)
    next
      case False
      then show ?thesis using large k m reorder_nth [of m "Constants bc" k] nth_mem [of k m] by simp
    qed
  qed
  have "same_stream m (Instructions bc) (Instructions bc')"
    unfolding bc'(1) using assms(2) fits m(1) by (intro updateConstantReferences_same) simp_all
  moreover have "same_constant m (Constants bc ! k) (Constants bc' ! (m ! k))" if "k < ?n" for k
    unfolding bc'(3) [OF that] using assms(3) fits m(1) that
    by (intro update_function_same) (simp_all, metis nth_mem)
  ultimately show ?thesis using m bc'(2) by blast
qed


text \<open>A source of randomness for the examples: every draw is zero.\<close>

definition zero_rng :: rng where
  "zero_rng = \<lparr>draws = (\<lambda>_. 0), drawn = 0\<rparr>"

theorem opcodeTables_inverse_witness:
  "fst (opcodeTables (fst (generateOpcodeMapping zero_rng))) ! unat (0xFF :: byte) = 0xFF"
proof -
  have "opcode_of_byte 0xFF = None" by code_simp
  then show ?thesis using opcodeTables_inverse [of zero_rng "0xFF"] by blast
qed

definition example_stream :: bytes where
  "example_stream = [opcode_byte OpConstant, 0, 1, opcode_byte OpPop]"

lemma chunks_example: "chunks example_stream = Some [[opcode_byte OpConstant, 0, 1], [opcode_byte OpPop]]"
  by code_simp

theorem remapOpcodes_decodes_witness:
  "\<exists>out. remapOpcodes example_stream (fst (opcodeTables (fst (generateOpcodeMapping zero_rng)))) = Some out \<and>
    length out = 4"
  using remapOpcodes_decodes [OF chunks_example, of zero_rng] by (auto simp: example_stream_def)

text \<open>A pool of two: a number, and a function that names it.\<close>

definition example_bytecode :: ByteCode where
  "example_bytecode = \<lparr>Instructions = example_stream, Constants = [Integer 7,
       CompiledFunction \<lparr>fn_Instructions = [opcode_byte OpConstant, 0, 0], NumLocals = 0, NumParams = 0, CapturedLocals = [],
         fn_Name = ''f'', fn_Params = [], fn_LineTable = [], fn_MacroTable = [], fn_EndTable = [], LocalNames = []\<rparr>],
     StructDefs = [], EnumDefs = [], Version = 2, BuiltinNames = [], OpcodeMap = [], SourceFile = [],
     bc_LineTable = [], bc_MacroTable = [], bc_EndTable = [], SourceText = [], ModuleSpans = [], GlobalNames = []\<rparr>"

theorem randomizeConstantPool_keeps_constants_witness:
  "\<exists>m. distinct m \<and> set m = {..<2} \<and> length (Constants (fst (randomizeConstantPool example_bytecode zero_rng))) = 2 \<and>
    same_stream m (Instructions example_bytecode) (Instructions (fst (randomizeConstantPool example_bytecode zero_rng))) \<and>
    (\<forall>k < 2. same_constant m (Constants example_bytecode ! k)
       (Constants (fst (randomizeConstantPool example_bytecode zero_rng)) ! (m ! k)))"
proof -
  have n: "length (Constants example_bytecode) = 2" by (simp add: example_bytecode_def)
  have main: "pool_stream 2 example_stream" and fn: "pool_stream 2 [opcode_byte OpConstant, 0, 0]" by code_simp+
  have "\<forall>fn. CompiledFunction fn \<in> set (Constants example_bytecode) \<longrightarrow> pool_stream 2 (fn_Instructions fn)"
    using fn by (auto simp: example_bytecode_def)
  then show ?thesis
    using randomizeConstantPool_keeps_constants [of example_bytecode zero_rng] main
    unfolding n by (simp add: example_bytecode_def)
qed



end
