(* ===== verification/SymbolTable.thy ===== *)
theory SymbolTable
  imports Prelude "HOL-Library.AList" "HOL-Library.List_Lexorder" "HOL-Library.Char_ord" "HOL-Library.Multiset"
begin

text \<open>
  The compiler's symbol table, \<^verbatim>\<open>src/compiler/symbol_table.go\<close>.

  A table and the tables around it are a list, innermost first: the Go pointer \<^verbatim>\<open>Outer\<close> is the tail,
  and a table is the root when its tail is empty.  An operation on a table returns the whole list,
  because resolving a name writes captures into every table it crosses.  A Go map is an
  association list; ranging over one is a fold over the list in its order.
\<close>

section \<open>Symbols and tables\<close>

datatype SymbolScope = GlobalScope | LocalScope | BuiltinScope | FreeScope | FunctionScope

record Symbol =
  sym_Name :: string
  Scope :: SymbolScope
  sym_Index :: int

record shadowed =
  sh_key :: string
  previous :: "Symbol option"

type_synonym blockFrame = "shadowed list"

record SymbolTable =
  store :: "(string \<times> Symbol) list"
  numDefinitions :: nat
  FreeSymbols :: "Symbol list"
  blocks :: "blockFrame list"
  capturedLocals :: "int list"
  builtinRefs :: "string list"
  builtinRef :: "(string \<times> nat) list"
  currentModule :: string
  moduleNamespaces :: "(string \<times> (string \<times> string) list) list"

type_synonym tables = "SymbolTable list"

definition moduleSeparator :: string where
  "moduleSeparator = [CHR 0x00]"

definition qualify :: "string \<Rightarrow> string \<Rightarrow> string" where
  "qualify module name = (if module = '''' then name else module @ moduleSeparator @ name)"

definition IsModulePrivate :: "string \<Rightarrow> bool" where
  "IsModulePrivate name \<longleftrightarrow> take 1 name = ''_''"

definition NewSymbolTable :: SymbolTable where
  "NewSymbolTable = \<lparr>store = [], numDefinitions = 0, FreeSymbols = [], blocks = [], capturedLocals = [],
     builtinRefs = [], builtinRef = [], currentModule = '''', moduleNamespaces = []\<rparr>"

definition NewEnclosedSymbolTable :: "tables \<Rightarrow> tables" where
  "NewEnclosedSymbolTable outer = NewSymbolTable # outer"

section \<open>Blocks\<close>

text \<open>The innermost block is the head of the list.\<close>

definition OpenBlock :: "SymbolTable \<Rightarrow> SymbolTable" where
  "OpenBlock st = st\<lparr>blocks := [] # blocks st\<rparr>"

definition undo_shadow :: "shadowed \<Rightarrow> (string \<times> Symbol) list \<Rightarrow> (string \<times> Symbol) list" where
  "undo_shadow entry m = (case previous entry of
      Some p \<Rightarrow> AList.update (sh_key entry) p m
    | None \<Rightarrow> AList.delete (sh_key entry) m)"

text \<open>The records of a frame are kept in the order they were made, and undone from the last.\<close>

definition CloseBlock :: "SymbolTable \<Rightarrow> SymbolTable" where
  "CloseBlock st = (case blocks st of
      [] \<Rightarrow> st
    | frame # rest \<Rightarrow> st\<lparr>blocks := rest, store := foldr undo_shadow frame (store st)\<rparr>)"

definition noteShadowed :: "string \<Rightarrow> SymbolTable \<Rightarrow> SymbolTable" where
  "noteShadowed key st = (case blocks st of
      [] \<Rightarrow> st
    | frame # rest \<Rightarrow>
        st\<lparr>blocks := (frame @ [\<lparr>sh_key = key, previous = map_of (store st) key\<rparr>]) # rest\<rparr>)"

section \<open>Declarations\<close>

definition set_store :: "string \<Rightarrow> Symbol \<Rightarrow> SymbolTable \<Rightarrow> SymbolTable" where
  "set_store key symbol st = st\<lparr>store := AList.update key symbol (store st)\<rparr>"

definition slot_scope :: "tables \<Rightarrow> SymbolScope" where
  "slot_scope ts = (if tl ts = [] then GlobalScope else LocalScope)"

definition slot_key :: "tables \<Rightarrow> string \<Rightarrow> string" where
  "slot_key ts name = (if tl ts = [] then qualify (currentModule (hd ts)) name else name)"

definition Define :: "string \<Rightarrow> tables \<Rightarrow> Symbol \<times> tables" where
  "Define name ts =
    (let st = hd ts;
         symbol = \<lparr>sym_Name = name, Scope = slot_scope ts, sym_Index = int (numDefinitions st)\<rparr>;
         key = slot_key ts name;
         st = set_store key symbol (noteShadowed key st)
     in (symbol, st\<lparr>numDefinitions := numDefinitions st + 1\<rparr> # tl ts))"

definition DefineInternal :: "string \<Rightarrow> tables \<Rightarrow> Symbol \<times> tables" where
  "DefineInternal key ts =
    (let st = hd ts;
         symbol = \<lparr>sym_Name = '''', Scope = slot_scope ts, sym_Index = int (numDefinitions st)\<rparr>;
         st = set_store (slot_key ts key) symbol st
     in (symbol, st\<lparr>numDefinitions := numDefinitions st + 1\<rparr> # tl ts))"

definition ResolveInternal :: "string \<Rightarrow> tables \<Rightarrow> Symbol option" where
  "ResolveInternal key ts = map_of (store (hd ts)) (slot_key ts key)"

definition DefineBuiltin :: "int \<Rightarrow> string \<Rightarrow> SymbolTable \<Rightarrow> Symbol \<times> SymbolTable" where
  "DefineBuiltin index name st =
    (let symbol = \<lparr>sym_Name = name, Scope = BuiltinScope, sym_Index = index\<rparr>
     in (symbol, set_store name symbol st))"

definition DefineFunctionName :: "string \<Rightarrow> SymbolTable \<Rightarrow> Symbol \<times> SymbolTable" where
  "DefineFunctionName name st =
    (let symbol = \<lparr>sym_Name = name, Scope = FunctionScope, sym_Index = 0\<rparr>
     in (symbol, set_store name symbol st))"

section \<open>Resolution and capture\<close>

definition own :: "tables \<Rightarrow> string \<Rightarrow> Symbol option" where
  "own ts name =
    (let st = hd ts in
     if tl ts = [] \<and> currentModule st \<noteq> '''' then
       (case map_of (store st) (qualify (currentModule st) name) of
          Some obj \<Rightarrow> Some obj
        | None \<Rightarrow> map_of (store st) name)
     else map_of (store st) name)"

definition markCaptured :: "int \<Rightarrow> SymbolTable \<Rightarrow> SymbolTable" where
  "markCaptured index st = st\<lparr>capturedLocals := List.insert index (capturedLocals st)\<rparr>"

definition CapturedLocals :: "SymbolTable \<Rightarrow> int list" where
  "CapturedLocals st = sort (capturedLocals st)"

definition IsCaptured :: "int \<Rightarrow> SymbolTable \<Rightarrow> bool" where
  "IsCaptured index st \<longleftrightarrow> index \<in> set (capturedLocals st)"

definition defineFree :: "Symbol \<Rightarrow> SymbolTable \<Rightarrow> Symbol \<times> SymbolTable" where
  "defineFree original st =
    (let st = st\<lparr>FreeSymbols := FreeSymbols st @ [original]\<rparr>;
         symbol = \<lparr>sym_Name = sym_Name original, Scope = FreeScope, sym_Index = int (length (FreeSymbols st)) - 1\<rparr>
     in (symbol, set_store (sym_Name original) symbol st))"

fun Resolve :: "string \<Rightarrow> tables \<Rightarrow> Symbol option \<times> tables" where
  "Resolve name [] = (None, [])"
| "Resolve name (st # outer) = (case own (st # outer) name of
      Some obj \<Rightarrow> (Some obj, st # outer)
    | None \<Rightarrow>
        if outer = [] then (None, [st])
        else (case Resolve name outer of
            (None, outer') \<Rightarrow> (None, st # outer')
          | (Some obj, outer') \<Rightarrow>
              if Scope obj = GlobalScope \<or> Scope obj = BuiltinScope then (Some obj, st # outer')
              else
                let outer'' = (if Scope obj = LocalScope
                               then markCaptured (sym_Index obj) (hd outer') # tl outer' else outer');
                    (free, st') = defineFree obj st
                in (Some free, st' # outer'')))"

definition freeOriginal :: "int \<Rightarrow> SymbolTable \<Rightarrow> Symbol option" where
  "freeOriginal index st =
    (if index < 0 \<or> index \<ge> int (length (FreeSymbols st)) then None else Some (FreeSymbols st ! nat index))"

fun freeCapturesFunctionName :: "int \<Rightarrow> tables \<Rightarrow> bool" where
  "freeCapturesFunctionName index [] = False"
| "freeCapturesFunctionName index (st # outer) = (case freeOriginal index st of
      None \<Rightarrow> False
    | Some original \<Rightarrow>
        if Scope original \<noteq> FreeScope then Scope original = FunctionScope
        else freeCapturesFunctionName (sym_Index original) outer)"

section \<open>Modules\<close>

definition map_root :: "(SymbolTable \<Rightarrow> SymbolTable) \<Rightarrow> tables \<Rightarrow> tables" where
  "map_root f ts = butlast ts @ [f (last ts)]"

definition SetCurrentModule :: "string \<Rightarrow> tables \<Rightarrow> tables" where
  "SetCurrentModule key = map_root (\<lambda>r. r\<lparr>currentModule := key\<rparr>)"

definition CurrentModule :: "tables \<Rightarrow> string" where
  "CurrentModule ts = currentModule (last ts)"

definition BindNamespace :: "string \<Rightarrow> string \<Rightarrow> tables \<Rightarrow> tables" where
  "BindNamespace namespace key = map_root (\<lambda>r.
    let bindings = (case map_of (moduleNamespaces r) (currentModule r) of None \<Rightarrow> [] | Some b \<Rightarrow> b)
    in r\<lparr>moduleNamespaces := AList.update (currentModule r) (AList.update namespace key bindings) (moduleNamespaces r)\<rparr>)"

definition LookupNamespace :: "string \<Rightarrow> tables \<Rightarrow> string option" where
  "LookupNamespace namespace ts =
    (let r = last ts in case map_of (moduleNamespaces r) (currentModule r) of
       None \<Rightarrow> None | Some b \<Rightarrow> map_of b namespace)"

definition ResolveIn :: "string \<Rightarrow> string \<Rightarrow> tables \<Rightarrow> Symbol option" where
  "ResolveIn key name ts = map_of (store (last ts)) (qualify key name)"

definition ModuleNames :: "string \<Rightarrow> tables \<Rightarrow> string list" where
  "ModuleNames key ts =
    (let prefix = qualify key '''' in
     sort (map (\<lambda>(_, symbol). sym_Name symbol)
       (filter (\<lambda>(stored, symbol). Scope symbol = GlobalScope \<and> take (length prefix) stored = prefix \<and>
                  \<not> IsModulePrivate (sym_Name symbol)) (store (last ts)))))"

section \<open>Builtin references\<close>

definition ReferenceBuiltin :: "string \<Rightarrow> tables \<Rightarrow> nat \<times> tables" where
  "ReferenceBuiltin name ts =
    (let r = last ts in case map_of (builtinRef r) name of
       Some index \<Rightarrow> (index, ts)
     | None \<Rightarrow>
         let index = length (builtinRefs r) in
         (index, map_root (\<lambda>r. r\<lparr>builtinRefs := builtinRefs r @ [name],
                                  builtinRef := AList.update name index (builtinRef r)\<rparr>) ts))"

definition ReferencedBuiltins :: "tables \<Rightarrow> string list" where
  "ReferencedBuiltins ts = builtinRefs (last ts)"

section \<open>Names of slots\<close>

definition st_GlobalNames :: "SymbolTable \<Rightarrow> string list" where
  "st_GlobalNames st = sort (map (\<lambda>(_, symbol). sym_Name symbol)
     (filter (\<lambda>(_, symbol). Scope symbol = GlobalScope) (store st)))"

definition named_in :: "SymbolScope \<Rightarrow> nat \<Rightarrow> Symbol \<Rightarrow> bool" where
  "named_in scope n symbol \<longleftrightarrow>
    \<not> (Scope symbol \<noteq> scope \<or> sym_Index symbol < 0 \<or> sym_Index symbol \<ge> int n) \<and> sym_Name symbol \<noteq> ''''"

definition slotNames :: "(string \<times> Symbol) list \<Rightarrow> SymbolScope \<Rightarrow> nat \<Rightarrow> string list" where
  "slotNames m scope n =
    (let named = filter (named_in scope n) (map snd m);
         names = foldl (\<lambda>ns symbol. ns[nat (sym_Index symbol) := sym_Name symbol]) (replicate n '''') named
     in if named = [] then [] else names)"

definition LocalSlotNames :: "tables \<Rightarrow> string list" where
  "LocalSlotNames ts =
    (let st = hd ts in
     if tl ts = [] \<or> numDefinitions st = 0 then [] else slotNames (store st) LocalScope (numDefinitions st))"

definition GlobalSlotNames :: "tables \<Rightarrow> string list" where
  "GlobalSlotNames ts =
    (let r = last ts in
     if numDefinitions r = 0 then [] else slotNames (store r) GlobalScope (numDefinitions r))"

section \<open>Blocks, restored\<close>

text \<open>What a frame's records leave of a name map once they are undone.\<close>

definition restore :: "blockFrame \<Rightarrow> (string \<rightharpoonup> Symbol) \<Rightarrow> (string \<rightharpoonup> Symbol)" where
  "restore f g k = (case find (\<lambda>e. sh_key e = k) f of Some e \<Rightarrow> previous e | None \<Rightarrow> g k)"

lemma map_of_undo: "map_of (undo_shadow e m) k = (if sh_key e = k then previous e else map_of m k)"
  by (auto simp: undo_shadow_def update_conv' delete_conv' split: option.split)

lemma map_of_undo_all: "map_of (foldr undo_shadow f m) = restore f (map_of m)"
proof
  fix k
  show "map_of (foldr undo_shadow f m) k = restore f (map_of m) k"
    by (induction f) (auto simp: restore_def map_of_undo)
qed

lemma find_append: "find P (xs @ ys) = (case find P xs of None \<Rightarrow> find P ys | Some x \<Rightarrow> Some x)"
  by (induction xs) auto

lemma restore_snoc:
  "restore (f @ [\<lparr>sh_key = k, previous = g k\<rparr>]) (g(k \<mapsto> s)) = restore f g"
  by (auto simp: restore_def find_append fun_eq_iff split: option.split)

lemma restore_Nil [simp]: "restore [] g = g"
  by (simp add: restore_def fun_eq_iff)

section \<open>Names and captures\<close>

text \<open>Source names hold neither the separator nor the space that spells a compiler temporary.\<close>

definition source_name :: "string \<Rightarrow> bool" where
  "source_name n \<longleftrightarrow> n \<noteq> '''' \<and> CHR '' '' \<notin> set n \<and> CHR 0x00 \<notin> set n"

text \<open>A binding a table holds, or will hold again once a block closes.\<close>

definition binds :: "SymbolTable \<Rightarrow> string \<Rightarrow> Symbol \<Rightarrow> bool" where
  "binds st k s \<longleftrightarrow> map_of (store st) k = Some s \<or>
     (\<exists>f \<in> set (blocks st). \<exists>e \<in> set f. sh_key e = k \<and> previous e = Some s)"

text \<open>A free symbol stands for what the enclosing tables mean by the name, and a captured slot is boxed.\<close>

definition capture_ok :: "SymbolTable \<Rightarrow> tables \<Rightarrow> string \<Rightarrow> Symbol \<Rightarrow> bool" where
  "capture_ok st outer k s \<longleftrightarrow> source_name k \<and> (\<exists>orig. freeOriginal (sym_Index s) st = Some orig \<and>
     own outer k = Some orig \<and> Scope orig \<in> {LocalScope, FreeScope, FunctionScope} \<and>
     (Scope orig = LocalScope \<longrightarrow> IsCaptured (sym_Index orig) (hd outer)))"

definition binding_ok :: "SymbolTable \<Rightarrow> tables \<Rightarrow> string \<Rightarrow> Symbol \<Rightarrow> bool" where
  "binding_ok st outer k s \<longleftrightarrow>
    (if outer = [] then Scope s \<in> {GlobalScope, BuiltinScope}
     else Scope s \<in> {LocalScope, FreeScope, FunctionScope} \<and> (source_name k \<longrightarrow> sym_Name s = k) \<and>
          (Scope s = FreeScope \<longrightarrow> capture_ok st outer k s))"

fun chain_inv :: "tables \<Rightarrow> bool" where
  "chain_inv [] \<longleftrightarrow> True"
| "chain_inv (st # outer) \<longleftrightarrow> (\<forall>k s. binds st k s \<longrightarrow> binding_ok st outer k s) \<and> chain_inv outer"

definition extends :: "tables \<Rightarrow> tables \<Rightarrow> bool" where
  "extends ts ts' \<longleftrightarrow> length ts' = length ts \<and>
     (\<forall>k s. own ts k = Some s \<longrightarrow> own ts' k = Some s) \<and>
     (\<forall>i. IsCaptured i (hd ts) \<longrightarrow> IsCaptured i (hd ts'))"

lemma extends_refl [simp]: "extends ts ts"
  by (simp add: extends_def)

lemma own_inner [simp]: "outer \<noteq> [] \<Longrightarrow> own (st # outer) k = map_of (store st) k"
  by (simp add: own_def)

lemma own_binds: "own (st # outer) k = Some s \<Longrightarrow> \<exists>k'. binds st k' s \<and> (outer \<noteq> [] \<longrightarrow> k' = k)"
  by (auto simp: own_def binds_def Let_def split: if_splits option.splits)

lemma store_markCaptured [simp]:
  "store (markCaptured i st) = store st" "blocks (markCaptured i st) = blocks st"
  "FreeSymbols (markCaptured i st) = FreeSymbols st" "currentModule (markCaptured i st) = currentModule st"
  by (simp_all add: markCaptured_def)

lemma IsCaptured_mark [simp]: "IsCaptured j (markCaptured i st) \<longleftrightarrow> j = i \<or> IsCaptured j st"
  by (auto simp: IsCaptured_def markCaptured_def)

lemma own_markCaptured [simp]: "own (markCaptured i st # ts) = own (st # ts)"
  by (auto simp: own_def fun_eq_iff Let_def split: option.split)

lemma freeOriginal_mark [simp]: "freeOriginal j (markCaptured i st) = freeOriginal j st"
  by (simp add: freeOriginal_def)

lemma binds_markCaptured [simp]: "binds (markCaptured i st) = binds st"
  by (simp add: binds_def fun_eq_iff)

lemma capture_ok_extends:
  "capture_ok st outer k s \<Longrightarrow> extends outer outer' \<Longrightarrow> capture_ok st outer' k s"
  by (auto simp: capture_ok_def extends_def)

lemma binding_ok_extends:
  "binding_ok st outer k s \<Longrightarrow> extends outer outer' \<Longrightarrow> binding_ok st outer' k s"
  using capture_ok_extends [of st outer k s outer'] by (auto simp: binding_ok_def extends_def split: if_splits)

lemma binding_ok_mark: "binding_ok (markCaptured i st) = binding_ok st"
  unfolding binding_ok_def capture_ok_def freeOriginal_mark ..

lemma chain_inv_mark: "chain_inv (st # ts) \<Longrightarrow> chain_inv (markCaptured i st # ts)"
  by (simp add: binding_ok_mark)

lemma freeOriginal_append: "freeOriginal i st = Some orig \<Longrightarrow> freeOriginal i (st\<lparr>FreeSymbols := FreeSymbols st @ xs\<rparr>) = Some orig"
  by (auto simp: freeOriginal_def nth_append split: if_splits)

lemma binds_set_store: "binds (set_store k s st) k' s' \<Longrightarrow> binds st k' s' \<or> k' = k \<and> s' = s"
  by (auto simp: binds_def set_store_def update_conv' split: if_splits)

lemma extends_trans: "extends a b \<Longrightarrow> extends b c \<Longrightarrow> extends a c"
  by (auto simp: extends_def)

lemma extends_length: "extends ts ts' \<Longrightarrow> length ts' = length ts"
  by (simp add: extends_def)

lemma extends_outer: "extends outer outer' \<Longrightarrow> outer \<noteq> [] \<Longrightarrow> extends (st # outer) (st # outer')"
  by (cases outer') (auto simp: extends_def)

lemma chain_inv_outer: "chain_inv (st # outer) \<Longrightarrow> chain_inv outer' \<Longrightarrow> extends outer outer' \<Longrightarrow> chain_inv (st # outer')"
  by (auto intro: binding_ok_extends)

text \<open>The outcome of resolving a source name.\<close>

definition resolved :: "string \<Rightarrow> tables \<Rightarrow> Symbol \<Rightarrow> bool" where
  "resolved name ts s \<longleftrightarrow> Scope s \<in> {GlobalScope, BuiltinScope} \<or>
     (Scope s \<in> {LocalScope, FreeScope, FunctionScope} \<and> own ts name = Some s \<and> sym_Name s = name)"

lemma own_resolved: "chain_inv (st # outer) \<Longrightarrow> source_name name \<Longrightarrow> own (st # outer) name = Some s \<Longrightarrow>
  resolved name (st # outer) s"
  using own_binds [of st outer name s] by (auto simp: resolved_def binding_ok_def split: if_splits)

lemma capture_step:
  assumes inv: "chain_inv (st # outer)" "chain_inv outer'" and ext: "extends outer outer'" and ne: "outer \<noteq> []"
    and obj: "resolved name outer' obj" "Scope obj \<notin> {GlobalScope, BuiltinScope}" "source_name name"
    and fresh: "own (st # outer) name = None"
  defines "outer'' \<equiv> (if Scope obj = LocalScope then markCaptured (sym_Index obj) (hd outer') # tl outer' else outer')"
    and "d \<equiv> defineFree obj st"
  shows "chain_inv (snd d # outer'')" "extends (st # outer) (snd d # outer'')" "resolved name (snd d # outer'') (fst d)"
proof -
  obtain t ts where outer': "outer' = t # ts" using ext ne by (cases outer') (auto simp: extends_def)
  have name: "sym_Name obj = name" "own outer' name = Some obj" "Scope obj \<in> {LocalScope, FreeScope, FunctionScope}"
    using obj(1,2) by (auto simp: resolved_def)
  have own'': "own outer'' = own outer'" by (simp add: outer''_def outer')
  have inv'': "chain_inv outer''" using inv(2) chain_inv_mark unfolding outer''_def outer' by simp
  have "extends outer' outer''" by (simp add: extends_def outer''_def outer')
  then have ext'': "extends outer outer''" using ext extends_trans by blast
  have ne'': "outer'' \<noteq> []" by (simp add: outer''_def outer')
  let ?f = "st\<lparr>FreeSymbols := FreeSymbols st @ [obj]\<rparr>"
  have d: "d = (\<lparr>sym_Name = name, Scope = FreeScope, sym_Index = int (length (FreeSymbols st))\<rparr>,
      set_store name \<lparr>sym_Name = name, Scope = FreeScope, sym_Index = int (length (FreeSymbols st))\<rparr> ?f)"
    by (simp add: d_def defineFree_def name Let_def)
  have free: "freeOriginal i (set_store name s ?f) = freeOriginal i ?f" for i s
    by (simp add: freeOriginal_def set_store_def)
  have new: "binding_ok (snd d) outer'' name (fst d)"
    using name ne'' obj(3) by (auto simp: d binding_ok_def capture_ok_def free own'')
      (auto simp: freeOriginal_def outer''_def)
  have old: "binding_ok (snd d) outer'' k s" if b: "binds st k s" for k s
  proof -
    have "binding_ok st outer'' k s" using b inv(1) ext'' by (auto intro: binding_ok_extends)
    then show ?thesis using freeOriginal_append [of _ st _ "[obj]"]
      by (auto simp: binding_ok_def capture_ok_def d free split: if_splits)
  qed
  have "binding_ok (snd d) outer'' k s" if "binds (snd d) k s" for k s
  proof -
    from that have "binds ?f k s \<or> k = name \<and> s = fst d" unfolding d fst_conv snd_conv by (rule binds_set_store)
    then show ?thesis using new old by (auto simp: binds_def)
  qed
  then show "chain_inv (snd d # outer'')" using inv'' by simp
  show "extends (st # outer) (snd d # outer'')"
    using fresh ne ne'' extends_length [OF ext'']
    by (auto simp: extends_def d set_store_def update_conv' IsCaptured_def)
  show "resolved name (snd d # outer'') (fst d)"
    using ne'' by (simp add: resolved_def d set_store_def update_conv')
qed

lemma Resolve_inv:
  "chain_inv ts \<Longrightarrow> source_name name \<Longrightarrow> Resolve name ts = (r, ts') \<Longrightarrow>
   chain_inv ts' \<and> extends ts ts' \<and> (\<forall>s. r = Some s \<longrightarrow> resolved name ts' s)"
proof (induction ts arbitrary: r ts')
  case (Cons st outer)
  show ?case
  proof (cases "own (st # outer) name")
    case (Some obj)
    then show ?thesis using Cons.prems own_resolved [of st outer name obj] by auto
  next
    case None
    show ?thesis
    proof (cases "outer = []")
      case True
      then show ?thesis using Cons.prems None by auto
    next
      case ne: False
      obtain r' outer' where res: "Resolve name outer = (r', outer')" by force
      with Cons have IH: "chain_inv outer'" "extends outer outer'" "\<And>s. r' = Some s \<Longrightarrow> resolved name outer' s" by auto
      note step = chain_inv_outer [OF Cons.prems(1) IH(1,2)] extends_outer [OF IH(2) ne]
      show ?thesis
      proof (cases "\<exists>obj. r' = Some obj \<and> Scope obj \<notin> {GlobalScope, BuiltinScope}")
        case True
        then obtain obj where "r' = Some obj" "Scope obj \<notin> {GlobalScope, BuiltinScope}" by blast
        then show ?thesis
          using capture_step [OF Cons.prems(1) IH(1,2) ne IH(3), of obj] Cons.prems(2,3) None ne res
          by (auto simp: Let_def case_prod_unfold)
      next
        case False
        then show ?thesis using step Cons.prems(3) None ne res
          by (cases r') (auto simp: resolved_def)
      qed
    qed
  qed
qed simp


section \<open>Reachable tables\<close>

text \<open>
  The operations the compiler performs on the innermost table: declarations of source names and of
  temporaries, blocks, references, and the entering and leaving of functions and modules.
\<close>

inductive reach :: "tables \<Rightarrow> bool" where
  new: "reach [NewSymbolTable]"
| enclose: "reach ts \<Longrightarrow> reach (NewEnclosedSymbolTable ts)"
| leave: "reach (st # ts) \<Longrightarrow> ts \<noteq> [] \<Longrightarrow> reach ts"
| declared: "reach ts \<Longrightarrow> source_name n \<Longrightarrow> reach (snd (Define n ts))"
| internal: "reach ts \<Longrightarrow> reach (snd (DefineInternal (CHR '' '' # k) ts))"
| builtin: "reach [st] \<Longrightarrow> reach [snd (DefineBuiltin i n st)]"
| function_name: "reach (st # ts) \<Longrightarrow> ts \<noteq> [] \<Longrightarrow> reach (snd (DefineFunctionName n st) # ts)"
| open_block: "reach (st # ts) \<Longrightarrow> reach (OpenBlock st # ts)"
| close_block: "reach (st # ts) \<Longrightarrow> reach (CloseBlock st # ts)"
| resolve: "reach ts \<Longrightarrow> source_name n \<Longrightarrow> reach (snd (Resolve n ts))"
| set_module: "reach ts \<Longrightarrow> reach (SetCurrentModule m ts)"
| bind_namespace: "reach ts \<Longrightarrow> reach (BindNamespace a m ts)"
| reference_builtin: "reach ts \<Longrightarrow> reach (snd (ReferenceBuiltin n ts))"

lemma binds_noteShadowed: "binds (noteShadowed k st) k' s \<longleftrightarrow> binds st k' s"
  by (auto simp: binds_def noteShadowed_def split: list.splits)

lemma binds_OpenBlock [simp]: "binds (OpenBlock st) = binds st"
  by (simp add: binds_def OpenBlock_def fun_eq_iff)

lemma binds_CloseBlock: "binds (CloseBlock st) k s \<Longrightarrow> binds st k s"
  by (auto simp: binds_def CloseBlock_def map_of_undo_all restore_def find_Some_iff
      split: list.splits option.splits dest!: nth_mem)

lemma FreeSymbols_block [simp]:
  "FreeSymbols (OpenBlock st) = FreeSymbols st" "FreeSymbols (CloseBlock st) = FreeSymbols st"
  "FreeSymbols (noteShadowed k st) = FreeSymbols st" "FreeSymbols (set_store k s st) = FreeSymbols st"
  by (auto simp: OpenBlock_def CloseBlock_def noteShadowed_def set_store_def split: list.split)

text \<open>A table whose bindings are old ones or a fresh declaration keeps the invariant.\<close>

lemma chain_inv_step:
  assumes "chain_inv (st # ts)" "FreeSymbols st' = FreeSymbols st"
    and "\<And>k s. binds st' k s \<Longrightarrow> binds st k s \<or> binding_ok st' ts k s"
  shows "chain_inv (st' # ts)"
proof -
  have "binding_ok st' ts = binding_ok st ts"
    by (simp add: fun_eq_iff binding_ok_def capture_ok_def freeOriginal_def assms(2) cong: conj_cong)
  then show ?thesis using assms(1,3) by auto
qed

lemma binding_ok_slot:
  "Scope s = slot_scope (st # ts) \<Longrightarrow> (source_name k \<Longrightarrow> sym_Name s = k) \<Longrightarrow> binding_ok st' ts k s"
  by (auto simp: binding_ok_def slot_scope_def split: if_splits)

lemma chain_inv_root:
  assumes "\<And>r. store (f r) = store r" "\<And>r. blocks (f r) = blocks r" "\<And>r. FreeSymbols (f r) = FreeSymbols r"
    "\<And>r. capturedLocals (f r) = capturedLocals r"
  shows "chain_inv ts \<Longrightarrow> ts \<noteq> [] \<Longrightarrow> chain_inv (map_root f ts)"
proof (induction ts)
  case (Cons st ts)
  show ?case
  proof (cases "ts = []")
    case True
    have "binds (f st) = binds st" by (simp add: binds_def assms fun_eq_iff)
    with Cons True show ?thesis by (simp add: map_root_def binding_ok_def)
  next
    case False
    then have m: "map_root f (st # ts) = st # map_root f ts" by (simp add: map_root_def)
    show ?thesis
    proof (cases "tl ts = []")
      case True
      then obtain r where ts: "ts = [r]" using False by (cases ts) auto
      have noroot: "own [r] k = Some orig \<Longrightarrow> Scope orig \<in> {GlobalScope, BuiltinScope}" for k orig
        using own_binds [of r "[]" k orig] Cons.prems(1) ts by (auto simp: binding_ok_def)
      have "binding_ok st ts k s \<Longrightarrow> binding_ok st (map_root f ts) k s" for k s
        using noroot by (fastforce simp: binding_ok_def capture_ok_def map_root_def ts)
      then show ?thesis using Cons False m by auto
    next
      case inner: False
      then obtain t t' ts' where ts: "ts = t # t' # ts'" using False by (cases ts; cases "tl ts") auto
      have "map_root f ts = t # map_root f (t' # ts')" by (simp add: ts map_root_def)
      moreover have "map_root f (t' # ts') \<noteq> []" by (simp add: map_root_def)
      ultimately have "binding_ok st ts k s \<Longrightarrow> binding_ok st (map_root f ts) k s" for k s
        by (simp add: binding_ok_def capture_ok_def ts)
      then show ?thesis using Cons False m by auto
    qed
  qed
qed simp

lemma Define_Cons:
  "Define n (st # ts) = (let symbol = \<lparr>sym_Name = n, Scope = slot_scope (st # ts), sym_Index = int (numDefinitions st)\<rparr>;
     st' = set_store (slot_key (st # ts) n) symbol (noteShadowed (slot_key (st # ts) n) st)
   in (symbol, st'\<lparr>numDefinitions := numDefinitions st' + 1\<rparr> # ts))"
  by (simp add: Define_def Let_def)

lemma binds_numDefinitions [simp]: "binds (st\<lparr>numDefinitions := n\<rparr>) = binds st"
  by (simp add: binds_def fun_eq_iff)

lemma length_Resolve [simp]: "length (snd (Resolve n ts)) = length ts"
proof (induction ts)
  case (Cons st ts)
  obtain r ts' where "Resolve n ts = (r, ts')" by force
  then show ?case using Cons by (cases ts') (auto simp: Let_def case_prod_unfold split: option.split)
qed simp

lemma Resolve_nonempty: "ts \<noteq> [] \<Longrightarrow> snd (Resolve n ts) \<noteq> []"
  using length_Resolve [of n ts] by (metis length_0_conv)

lemma reach_nonempty: "reach ts \<Longrightarrow> ts \<noteq> []"
proof (induction rule: reach.induct)
  case (resolve ts n)
  then show ?case by (intro Resolve_nonempty)
qed (simp_all add: NewEnclosedSymbolTable_def Define_def DefineInternal_def Let_def SetCurrentModule_def
      BindNamespace_def map_root_def ReferenceBuiltin_def split: option.split)

lemma slot_key_inner: "ts \<noteq> [] \<Longrightarrow> slot_key (st # ts) n = n"
  by (simp add: slot_key_def)

lemma chain_inv_slot:
  assumes "chain_inv (st # ts)" and "FreeSymbols st' = FreeSymbols st" and "Scope s = slot_scope (st # ts)"
    and "ts \<noteq> [] \<Longrightarrow> source_name k \<Longrightarrow> sym_Name s = k"
    and "\<And>k' s'. binds st' k' s' \<Longrightarrow> binds st k' s' \<or> k' = k \<and> s' = s"
  shows "chain_inv (st' # ts)"
proof (rule chain_inv_step [OF assms(1,2)])
  have "binding_ok st' ts k s" using assms(3,4) by (auto simp: binding_ok_def slot_scope_def split: if_splits)
  then show "binds st k' s' \<or> binding_ok st' ts k' s'" if "binds st' k' s'" for k' s'
    using assms(5) [OF that] by blast
qed

lemma reach_chain_inv: "reach ts \<Longrightarrow> chain_inv ts"
proof (induction rule: reach.induct)
  case (resolve ts n)
  then show ?case using Resolve_inv [of ts n "fst (Resolve n ts)" "snd (Resolve n ts)"] by simp
next
  case (declared ts n)
  obtain st us where ts: "ts = st # us" using reach_nonempty [OF declared.hyps(1)] by (cases ts) auto
  have "chain_inv (hd (snd (Define n ts)) # us)"
    using declared.IH unfolding ts
    by (rule chain_inv_slot [where k = "slot_key (st # us) n" and s = "fst (Define n ts)"])
       (auto simp: Define_def ts Let_def slot_key_inner binds_noteShadowed dest: binds_set_store)
  then show ?case by (simp add: Define_def ts Let_def)
next
  case (internal ts k)
  obtain st us where ts: "ts = st # us" using reach_nonempty [OF internal.hyps(1)] by (cases ts) auto
  have "chain_inv (hd (snd (DefineInternal (CHR '' '' # k) ts)) # us)"
    using internal.IH unfolding ts
    by (rule chain_inv_slot [where k = "slot_key (st # us) (CHR '' '' # k)" and s = "fst (DefineInternal (CHR '' '' # k) ts)"])
       (auto simp: DefineInternal_def ts Let_def slot_key_inner source_name_def dest: binds_set_store)
  then show ?case by (simp add: DefineInternal_def ts Let_def)
next
  case (builtin st i n)
  show ?case using builtin.IH
    by (rule chain_inv_step) (auto simp: DefineBuiltin_def Let_def binding_ok_def dest: binds_set_store)
next
  case (function_name st ts n)
  show ?case using function_name.IH
    by (rule chain_inv_step) (use function_name.hyps(2) in
      \<open>auto simp: DefineFunctionName_def Let_def binding_ok_def dest: binds_set_store\<close>)
next
  case (open_block st ts)
  show ?case using open_block.IH by (rule chain_inv_step) simp_all
next
  case (close_block st ts)
  show ?case using close_block.IH by (rule chain_inv_step) (simp_all add: binds_CloseBlock)
next
  case (reference_builtin ts n)
  then show ?case using reach_nonempty
    by (auto simp: ReferenceBuiltin_def Let_def split: option.split intro!: chain_inv_root)
qed (use reach_nonempty in \<open>auto simp: NewEnclosedSymbolTable_def NewSymbolTable_def SetCurrentModule_def
      BindNamespace_def Let_def binds_def intro!: chain_inv_root\<close>)

section \<open>Lexical meaning\<close>

text \<open>
  What a symbol ultimately stands for: the number of tables that remain at the table that owns it,
  and the owner's symbol.  A free symbol is followed outward, one table at a time.
\<close>

fun denotes :: "Symbol \<Rightarrow> tables \<Rightarrow> (nat \<times> Symbol) option" where
  "denotes s [] = None"
| "denotes s (st # outer) =
    (if Scope s = FreeScope then
       (case freeOriginal (sym_Index s) st of None \<Rightarrow> None | Some orig \<Rightarrow> denotes orig outer)
     else Some (if Scope s \<in> {GlobalScope, BuiltinScope} then 1 else length (st # outer), s))"

text \<open>
  The reference semantics of a name: the innermost table that declares it, captures skipped.
\<close>

fun lexical :: "string \<Rightarrow> tables \<Rightarrow> (nat \<times> Symbol) option" where
  "lexical name [] = None"
| "lexical name (st # outer) = (case own (st # outer) name of
      Some s \<Rightarrow> if Scope s = FreeScope then lexical name outer
                else Some (if Scope s \<in> {GlobalScope, BuiltinScope} then 1 else length (st # outer), s)
    | None \<Rightarrow> lexical name outer)"

lemma denotes_own:
  "chain_inv ts \<Longrightarrow> own ts name = Some s \<Longrightarrow> ts \<noteq> [] \<Longrightarrow> denotes s ts = lexical name ts"
proof (induction ts arbitrary: s)
  case (Cons st outer)
  show ?case
  proof (cases "Scope s = FreeScope")
    case True
    have ne: "outer \<noteq> []" using own_binds [OF Cons.prems(2)] Cons.prems(1) True by (fastforce simp: binding_ok_def)
    then have "binds st name s" using Cons.prems(2) by (simp add: binds_def)
    then obtain orig where "freeOriginal (sym_Index s) st = Some orig" "own outer name = Some orig"
      using Cons.prems(1) True ne by (auto simp: binding_ok_def capture_ok_def)
    then show ?thesis using Cons True ne by simp
  qed (use Cons.prems in simp)
qed simp

lemma lexical_extends_step:
  "lexical name outer' = lexical name outer \<Longrightarrow> length outer' = length outer \<Longrightarrow> outer \<noteq> [] \<Longrightarrow>
   lexical name (st # outer') = lexical name (st # outer)"
  by (cases outer'; cases outer) (auto split: option.split)

lemma lexical_mark [simp]: "lexical n (markCaptured i st # ts) = lexical n (st # ts)"
  by (cases "own (st # ts) n") auto

text \<open>Tables that agree on every name and have the same depth are interchangeable around a table.\<close>

lemma Resolve_lexical:
  "chain_inv ts \<Longrightarrow> source_name name \<Longrightarrow> lexical n (snd (Resolve name ts)) = lexical n ts"
proof (induction ts)
  case (Cons st outer)
  show ?case
  proof (cases "own (st # outer) name = None \<and> outer \<noteq> []")
    case True
    let ?r = "fst (Resolve name outer)" and ?o = "snd (Resolve name outer)"
    have IH: "lexical n ?o = lexical n outer" using Cons by simp
    have len: "length ?o = length outer" by simp
    note around = lexical_extends_step [OF IH len]
    obtain t ts' where o: "?o = t # ts'" using Resolve_nonempty [of outer name] True by (cases ?o) auto
    show ?thesis
    proof (cases "\<exists>obj. ?r = Some obj \<and> Scope obj \<notin> {GlobalScope, BuiltinScope}")
      case free: True
      then obtain obj where obj: "?r = Some obj" "Scope obj \<notin> {GlobalScope, BuiltinScope}" by blast
      have res: "resolved name ?o obj"
        using Resolve_inv [OF _ _ prod.collapse [symmetric], of outer name] Cons.prems obj(1) by auto
      let ?o'' = "if Scope obj = LocalScope then markCaptured (sym_Index obj) (hd ?o) # tl ?o else ?o"
      have lex'': "lexical n ?o'' = lexical n outer" using IH by (simp add: o del: lexical.simps)
      have len'': "length ?o'' = length outer" "?o'' \<noteq> []" using len by (auto simp: o)
      have r: "snd (Resolve name (st # outer)) = snd (defineFree obj st) # ?o''"
        using True obj by (simp add: case_prod_unfold Let_def)
      have name: "sym_Name obj = name" using res obj(2) by (simp add: resolved_def)
      have "lexical n (snd (defineFree obj st) # ?o'') = lexical n (st # ?o'')"
        using True len''(2) name
        by (auto simp: defineFree_def Let_def set_store_def update_conv' split: option.split)
      also have "\<dots> = lexical n (st # outer)" using lex'' len''(1) True by (intro lexical_extends_step) auto
      finally show ?thesis unfolding r .
    next
      case False
      then have "snd (Resolve name (st # outer)) = st # ?o"
        using True by (auto simp: case_prod_unfold split: option.split)
      then show ?thesis using around True by simp
    qed
  next
    case False
    then show ?thesis by (cases "own (st # outer) name") auto
  qed
qed simp

lemma Resolve_global:
  "Resolve name ts = (r, ts') \<Longrightarrow> (r = None \<longrightarrow> lexical name ts = None) \<and>
   (\<forall>s. r = Some s \<and> Scope s \<in> {GlobalScope, BuiltinScope} \<longrightarrow> lexical name ts = Some (1, s))"
proof (induction ts arbitrary: r ts')
  case (Cons st outer)
  obtain r' o' where "Resolve name outer = (r', o')" by force
  with Cons show ?case
    by (cases "own (st # outer) name"; cases r')
       (auto simp: Let_def defineFree_def split: if_splits)
qed simp

lemma denotes_depth: "denotes x us = Some (e, y) \<Longrightarrow> e \<le> length us"
  by (induction us arbitrary: x) (fastforce split: if_splits option.splits)+

lemma captured_own:
  "chain_inv ts \<Longrightarrow> own ts name = Some s \<Longrightarrow> denotes s ts = Some (d, orig) \<Longrightarrow>
   Scope orig = LocalScope \<Longrightarrow> d < length ts \<Longrightarrow> IsCaptured (sym_Index orig) (ts ! (length ts - d))"
proof (induction ts arbitrary: s)
  case (Cons st outer)
  show ?case
  proof (cases "Scope s = FreeScope")
    case True
    have ne: "outer \<noteq> []" using own_binds [OF Cons.prems(2)] Cons.prems(1) True by (fastforce simp: binding_ok_def)
    then have "binds st name s" using Cons.prems(2) by (simp add: binds_def)
    then obtain o1 where o1: "freeOriginal (sym_Index s) st = Some o1" "own outer name = Some o1"
        "Scope o1 = LocalScope \<longrightarrow> IsCaptured (sym_Index o1) (hd outer)"
      using Cons.prems(1) True ne by (auto simp: binding_ok_def capture_ok_def)
    have den: "denotes o1 outer = Some (d, orig)" using Cons.prems(3) True o1(1) by simp
    show ?thesis
    proof (cases "d < length outer")
      case True
      then have "IsCaptured (sym_Index orig) (outer ! (length outer - d))"
        using Cons.IH [of o1] Cons.prems o1 den by simp
      then show ?thesis using True by (simp add: Suc_diff_le)
    next
      case False
      then have d: "d = length outer" using Cons.prems(5) by simp
      obtain t ts' where outer: "outer = t # ts'" using ne by (cases outer) auto

      have "Scope o1 \<noteq> FreeScope"
      proof
        assume "Scope o1 = FreeScope"
        then obtain o2 where "denotes o2 ts' = Some (d, orig)" using den outer by (auto split: option.splits)
        then show False using denotes_depth [of o2 ts' d orig] d outer by simp
      qed
      then have "orig = o1" using den outer by simp
      then show ?thesis using o1(3) Cons.prems(4) d ne by (simp add: hd_conv_nth)
    qed
  next
    case False
    then show ?thesis using Cons.prems by (auto split: if_splits)
  qed
qed simp

section \<open>Blocks put the names back\<close>

datatype block_op = Declare string | Reference string | Nested "block_op list"

definition on_hd :: "(SymbolTable \<Rightarrow> SymbolTable) \<Rightarrow> tables \<Rightarrow> tables" where
  "on_hd f ts = f (hd ts) # tl ts"

fun run_op :: "block_op \<Rightarrow> tables \<Rightarrow> tables" where
  "run_op (Declare n) ts = snd (Define n ts)"
| "run_op (Reference n) ts = snd (Resolve n ts)"
| "run_op (Nested ops) ts = on_hd CloseBlock (fold run_op ops (on_hd OpenBlock ts))"

fun names_ok :: "block_op \<Rightarrow> bool" where
  "names_ok (Declare n) \<longleftrightarrow> source_name n"
| "names_ok (Reference n) \<longleftrightarrow> source_name n"
| "names_ok (Nested ops) \<longleftrightarrow> (\<forall>x \<in> set ops. names_ok x)"

text \<open>Afterwards every name means what it meant, except that a name may have been captured.\<close>

definition same_names :: "(string \<rightharpoonup> Symbol) \<Rightarrow> (string \<rightharpoonup> Symbol) \<Rightarrow> bool" where
  "same_names g g' \<longleftrightarrow> (\<forall>k. g' k = g k \<or> g k = None \<and> (\<exists>s. g' k = Some s \<and> Scope s = FreeScope))"

lemma same_names_refl [simp]: "same_names g g"
  by (simp add: same_names_def)

lemma same_names_trans: "same_names a b \<Longrightarrow> same_names b c \<Longrightarrow> same_names a c"
  unfolding same_names_def by metis

lemma same_names_restore: "same_names g g' \<Longrightarrow> same_names (restore f g) (restore f g')"
  by (auto simp: same_names_def restore_def split: option.split)

text \<open>One operation inside the block whose records are \<open>f\<close>.\<close>

definition inside :: "tables \<Rightarrow> tables \<Rightarrow> bool" where
  "inside ts ts' \<longleftrightarrow> (\<forall>f rest. blocks (hd ts) = f # rest \<longrightarrow>
     (\<exists>f'. blocks (hd ts') = f' # rest \<and>
           same_names (restore f (map_of (store (hd ts)))) (restore f' (map_of (store (hd ts'))))))"

lemma inside_trans: "inside a b \<Longrightarrow> inside b c \<Longrightarrow> inside a c"
  unfolding inside_def using same_names_trans by meson

lemma inside_Define: "ts \<noteq> [] \<Longrightarrow> inside ts (snd (Define n ts))"
  by (auto simp: inside_def Define_def Let_def noteShadowed_def set_store_def update_conv' restore_snoc)

lemma hd_defineFree:
  "blocks (snd (defineFree orig st)) = blocks st"
  "map_of (store (snd (defineFree orig st))) = (map_of (store st))(sym_Name orig \<mapsto> fst (defineFree orig st))"
  "Scope (fst (defineFree orig st)) = FreeScope"
  by (simp_all add: defineFree_def Let_def set_store_def update_conv')

lemma Resolve_hd:
  assumes "chain_inv (st # outer)" "source_name n"
  shows "blocks (hd (snd (Resolve n (st # outer)))) = blocks st \<and>
    same_names (map_of (store st)) (map_of (store (hd (snd (Resolve n (st # outer))))))"
proof (cases "own (st # outer) n = None \<and> outer \<noteq> []")
  case True
  let ?r = "fst (Resolve n outer)" and ?o = "snd (Resolve n outer)"
  show ?thesis
  proof (cases "\<exists>obj. ?r = Some obj \<and> Scope obj \<notin> {GlobalScope, BuiltinScope}")
    case free: True
    then obtain obj where obj: "?r = Some obj" "Scope obj \<notin> {GlobalScope, BuiltinScope}" by blast
    have "resolved n ?o obj"
      using Resolve_inv [OF _ _ prod.collapse [symmetric], of outer n] assms obj(1) by auto
    then have name: "sym_Name obj = n" using obj(2) by (simp add: resolved_def)
    have hd: "hd (snd (Resolve n (st # outer))) = snd (defineFree obj st)"
      using True obj by (simp add: case_prod_unfold Let_def)
    have "same_names (map_of (store st)) (map_of (store (snd (defineFree obj st))))"
      using True name hd_defineFree(3) [of obj st] by (auto simp: same_names_def hd_defineFree(2))
    then show ?thesis unfolding hd hd_defineFree(1) by blast
  next
    case False
    then have "hd (snd (Resolve n (st # outer))) = st"
      using True by (auto simp: case_prod_unfold split: option.split)
    then show ?thesis by simp
  qed
next
  case False
  then show ?thesis by (cases "own (st # outer) n") auto
qed

lemma inside_keep:
  "blocks (hd ts') = blocks (hd ts) \<Longrightarrow> same_names (map_of (store (hd ts))) (map_of (store (hd ts'))) \<Longrightarrow>
   inside ts ts'"
  by (simp add: inside_def same_names_restore)

lemma inside_Resolve: "chain_inv (st # outer) \<Longrightarrow> source_name n \<Longrightarrow> inside (st # outer) (snd (Resolve n (st # outer)))"
  using Resolve_hd [of st outer n] by (intro inside_keep) (simp_all del: Resolve.simps)

lemma close_inside:
  assumes "inside (on_hd OpenBlock (st # outer)) vs"
  shows "blocks (CloseBlock (hd vs)) = blocks st \<and>
    same_names (map_of (store st)) (map_of (store (CloseBlock (hd vs))))"
proof -
  obtain f' where "blocks (hd vs) = f' # blocks st"
    "same_names (map_of (store st)) (restore f' (map_of (store (hd vs))))"
    using assms by (auto simp: inside_def on_hd_def OpenBlock_def)
  then show ?thesis by (simp add: CloseBlock_def map_of_undo_all)
qed



lemma fold_run_op:
  assumes "\<And>x us. x \<in> set xs \<Longrightarrow> reach us \<Longrightarrow> reach (run_op x us) \<and> inside us (run_op x us)" "reach us"
  shows "reach (fold run_op xs us) \<and> inside us (fold run_op xs us)"
  using assms
proof (induction xs arbitrary: us)
  case (Cons y ys)
  have y: "reach (run_op y us)" "inside us (run_op y us)" using Cons.prems by simp_all
  have "reach (fold run_op ys (run_op y us)) \<and> inside (run_op y us) (fold run_op ys (run_op y us))"
    using Cons.prems(1) y(1) by (intro Cons.IH) simp_all
  then show ?case using inside_trans [OF y(2)] by simp
qed (simp add: inside_def)

lemma run_op_reach: "names_ok x \<Longrightarrow> reach ts \<Longrightarrow> reach (run_op x ts) \<and> inside ts (run_op x ts)"
proof (induction x arbitrary: ts)
  case (Declare n)
  then show ?case using reach.declared [of ts n] inside_Define [of ts n] reach_nonempty by simp
next
  case (Reference n)
  obtain st outer where ts: "ts = st # outer" using reach_nonempty [OF Reference.prems(2)] by (cases ts) auto
  have "inside ts (snd (Resolve n ts))"
    using Reference.prems(1) reach_chain_inv [OF Reference.prems(2)] unfolding ts by (intro inside_Resolve) auto
  then show ?case using reach.resolve [of ts n] Reference.prems by simp
next
  case (Nested ops)
  obtain st outer where ts: "ts = st # outer" using reach_nonempty [OF Nested.prems(2)] by (cases ts) auto
  let ?us = "on_hd OpenBlock ts" let ?vs = "fold run_op ops ?us"
  have "reach ?us" using Nested.prems(2) reach.open_block by (simp add: ts on_hd_def)
  then have vs: "reach ?vs" "inside ?us ?vs"
    using fold_run_op [of ops ?us] Nested.IH Nested.prems(1) by auto
  have r: "run_op (Nested ops) ts = CloseBlock (hd ?vs) # tl ?vs" by (simp add: on_hd_def)
  have "reach (CloseBlock (hd ?vs) # tl ?vs)"
    using vs(1) reach_nonempty [OF vs(1)] reach.close_block [of "hd ?vs" "tl ?vs"] by simp
  moreover have "inside ts (CloseBlock (hd ?vs) # tl ?vs)"
    using close_inside [of st outer ?vs] vs(2) unfolding ts by (intro inside_keep) simp_all
  ultimately show ?case unfolding r by blast
qed

section \<open>Slots\<close>

text \<open>The slots a table's symbols hold, displaced ones included.\<close>

definition slot_of :: "Symbol \<Rightarrow> int multiset" where
  "slot_of s = (if Scope s \<in> {GlobalScope, LocalScope} then {#sym_Index s#} else {#})"

definition opt_slot :: "Symbol option \<Rightarrow> int multiset" where
  "opt_slot p = (case p of None \<Rightarrow> {#} | Some s \<Rightarrow> slot_of s)"

definition store_slots :: "(string \<times> Symbol) list \<Rightarrow> int multiset" where
  "store_slots m = sum_list (map (slot_of \<circ> snd) m)"

definition frame_slots :: "blockFrame \<Rightarrow> int multiset" where
  "frame_slots f = sum_list (map (opt_slot \<circ> previous) f)"

definition table_slots :: "SymbolTable \<Rightarrow> int multiset" where
  "table_slots st = store_slots (store st) + sum_list (map frame_slots (blocks st))"

definition slots_inv :: "SymbolTable \<Rightarrow> bool" where
  "slots_inv st \<longleftrightarrow> table_slots st \<subseteq># mset (map int [0..<numDefinitions st])"

lemma store_slots_update: "store_slots (AList.update k s m) + opt_slot (map_of m k) = store_slots m + slot_of s"
  by (induction m) (auto simp: store_slots_def opt_slot_def)

lemma store_slots_delete: "store_slots (AList.delete k m) + opt_slot (map_of m k) \<subseteq># store_slots m"
proof (induction m)
  case (Cons p m)
  obtain k' s where p: "p = (k', s)" by force
  have sub: "store_slots (AList.delete k m) \<subseteq># store_slots m"
    using Cons mset_subset_eq_add_left subset_mset.order_trans by blast
  show ?case
  proof (cases "k' = k")
    case True
    then show ?thesis using sub by (simp add: p store_slots_def opt_slot_def)
  next
    case False
    then show ?thesis using Cons by (simp add: p store_slots_def add.assoc)
  qed
qed (simp add: store_slots_def opt_slot_def)

lemma store_slots_update_le: "store_slots (AList.update k s m) \<subseteq># store_slots m + slot_of s"
  by (metis store_slots_update mset_subset_eq_add_left)

lemma store_slots_undo: "store_slots (undo_shadow e m) \<subseteq># opt_slot (previous e) + store_slots m"
  using store_slots_update_le [of "sh_key e" _ m] store_slots_delete [of "sh_key e" m]
  by (auto simp: undo_shadow_def opt_slot_def [of "Some _"] opt_slot_def [of None] add.commute split: option.split
      intro: subset_mset.order_trans [OF mset_subset_eq_add_left])

lemma store_slots_undo_all: "store_slots (foldr undo_shadow f m) \<subseteq># frame_slots f + store_slots m"
proof (induction f)
  case (Cons e f)
  have "store_slots (foldr undo_shadow (e # f) m) \<subseteq># opt_slot (previous e) + store_slots (foldr undo_shadow f m)"
    using store_slots_undo by simp
  also have "\<dots> \<subseteq># opt_slot (previous e) + (frame_slots f + store_slots m)" using Cons by simp
  finally show ?case by (simp add: frame_slots_def add.assoc)
qed (simp add: frame_slots_def)

lemma CloseBlock_slots: "table_slots (CloseBlock st) \<subseteq># table_slots st"
  using store_slots_undo_all [of _ "store st"]
  by (auto simp: table_slots_def CloseBlock_def add_ac split: list.split)

lemma set_store_slots: "table_slots (set_store k s st) \<subseteq># table_slots st + slot_of s"
  using store_slots_update_le [of k s "store st"] by (simp add: table_slots_def set_store_def add_ac)

lemma declare_slots: "table_slots (set_store k s (noteShadowed k st)) \<subseteq># table_slots st + slot_of s"
proof (cases "blocks st")
  case Nil
  then show ?thesis using set_store_slots by (simp add: noteShadowed_def)
next
  case (Cons f rest)
  have "table_slots (set_store k s (noteShadowed k st)) =
      (store_slots (AList.update k s (store st)) + opt_slot (map_of (store st) k)) +
      (frame_slots f + sum_list (map frame_slots rest))"
    by (simp add: table_slots_def set_store_def noteShadowed_def Cons frame_slots_def add_ac)
  then show ?thesis unfolding store_slots_update by (simp add: table_slots_def Cons add_ac)
qed

lemma slots_inv_new_slot:
  assumes "slots_inv st" "table_slots st' \<subseteq># table_slots st + slot_of s" "sym_Index s = int (numDefinitions st)"
    "numDefinitions st' = numDefinitions st + 1"
  shows "slots_inv st'"
proof -
  have "slot_of s \<subseteq># {#int (numDefinitions st)#}" using assms(3) by (simp add: slot_of_def)
  then have "table_slots st + slot_of s \<subseteq># mset (map int [0..<numDefinitions st]) + {#int (numDefinitions st)#}"
    using assms(1) unfolding slots_inv_def by (rule subset_mset.add_mono [rotated])
  then show ?thesis using assms(2,4) subset_mset.order_trans by (fastforce simp: slots_inv_def)
qed

lemma slots_inv_mono:
  "slots_inv st \<Longrightarrow> table_slots st' \<subseteq># table_slots st \<Longrightarrow> numDefinitions st' = numDefinitions st \<Longrightarrow> slots_inv st'"
  unfolding slots_inv_def using subset_mset.order_trans by metis

lemma slots_inv_no_slot: "slots_inv st \<Longrightarrow> slot_of s = {#} \<Longrightarrow> slots_inv (set_store k s st)"
  using set_store_slots [of k s st] by (auto simp: set_store_def intro: slots_inv_mono)

lemma slots_inv_fields [simp]:
  "slots_inv (st\<lparr>FreeSymbols := a\<rparr>) = slots_inv st" "slots_inv (markCaptured i st) = slots_inv st"
  "slots_inv (st\<lparr>currentModule := b\<rparr>) = slots_inv st" "slots_inv (st\<lparr>moduleNamespaces := c\<rparr>) = slots_inv st"
  "slots_inv (st\<lparr>builtinRefs := d, builtinRef := e\<rparr>) = slots_inv st" "slots_inv (OpenBlock st) = slots_inv st"
  by (simp_all add: slots_inv_def table_slots_def markCaptured_def OpenBlock_def frame_slots_def)

lemma slots_inv_defineFree: "slots_inv st \<Longrightarrow> slots_inv (snd (defineFree orig st))"
  by (simp add: defineFree_def Let_def slots_inv_no_slot slot_of_def)

lemma slots_inv_Resolve: "\<forall>st \<in> set ts. slots_inv st \<Longrightarrow> \<forall>st \<in> set (snd (Resolve n ts)). slots_inv st"
proof (induction ts)
  case (Cons st outer)
  obtain r o' where r: "Resolve n outer = (r, o')" by force
  have o': "\<forall>t \<in> set o'. slots_inv t" "slots_inv st" using Cons r by simp_all
  show ?case
  proof (cases "own (st # outer) n = None \<and> outer \<noteq> []")
    case True
    then obtain t ts' where t: "o' = t # ts'" using Resolve_nonempty [of outer n] r by (cases o') auto
    show ?thesis using True o' r slots_inv_defineFree [of st]
      by (cases r) (simp_all add: Let_def case_prod_unfold t)
  next
    case False
    then show ?thesis using Cons.prems by (cases "own (st # outer) n") simp_all
  qed
qed simp

lemma slots_inv_map_root:
  "(\<And>r. slots_inv (f r) = slots_inv r) \<Longrightarrow> ts \<noteq> [] \<Longrightarrow> \<forall>st \<in> set ts. slots_inv st \<Longrightarrow> \<forall>st \<in> set (map_root f ts). slots_inv st"
  by (auto simp: map_root_def dest: in_set_butlastD)

lemma slots_fields [simp]:
  "table_slots (st\<lparr>numDefinitions := x\<rparr>) = table_slots st" "numDefinitions (set_store k s st) = numDefinitions st"
  "numDefinitions (noteShadowed k st) = numDefinitions st"
  by (simp_all add: table_slots_def set_store_def noteShadowed_def split: list.split)

lemma slots_inv_New: "slots_inv NewSymbolTable"
  by (simp add: slots_inv_def NewSymbolTable_def table_slots_def store_slots_def)

lemma reach_slots_inv: "reach ts \<Longrightarrow> \<forall>st \<in> set ts. slots_inv st"
proof (induction rule: reach.induct)
  case (resolve ts n)
  then show ?case by (intro slots_inv_Resolve) simp
next
  case (declared ts n)
  obtain st us where ts: "ts = st # us" using reach_nonempty [OF declared.hyps(1)] by (cases ts) auto
  have "slots_inv (hd (snd (Define n ts)))"
  proof (rule slots_inv_new_slot [of st _ "fst (Define n ts)"])
    show "slots_inv st" using declared.IH by (simp add: ts)
    show "table_slots (hd (snd (Define n ts))) \<subseteq># table_slots st + slot_of (fst (Define n ts))"
      using declare_slots by (simp add: Define_Cons ts Let_def)
  qed (simp_all add: Define_Cons ts Let_def)
  then show ?case using declared.IH by (simp add: Define_def ts Let_def)
next
  case (internal ts k)
  obtain st us where ts: "ts = st # us" using reach_nonempty [OF internal.hyps(1)] by (cases ts) auto
  have "slots_inv (hd (snd (DefineInternal (CHR '' '' # k) ts)))"
  proof (rule slots_inv_new_slot [of st _ "fst (DefineInternal (CHR '' '' # k) ts)"])
    show "slots_inv st" using internal.IH by (simp add: ts)
    show "table_slots (hd (snd (DefineInternal (CHR '' '' # k) ts))) \<subseteq>#
        table_slots st + slot_of (fst (DefineInternal (CHR '' '' # k) ts))"
      using set_store_slots by (simp add: DefineInternal_def ts Let_def)
  qed (simp_all add: DefineInternal_def ts Let_def)
  then show ?case using internal.IH by (simp add: DefineInternal_def ts Let_def)
next
  case (close_block st ts)
  then show ?case using CloseBlock_slots [of st] slots_inv_mono [of st "CloseBlock st"]
    by (auto simp: CloseBlock_def split: list.splits)
next
  case (reference_builtin ts n)
  show ?case
  proof (cases "map_of (builtinRef (last ts)) n")
    case None
    have "\<forall>st \<in> set (map_root (\<lambda>r. r\<lparr>builtinRefs := builtinRefs r @ [n],
        builtinRef := AList.update n (length (builtinRefs (last ts))) (builtinRef r)\<rparr>) ts). slots_inv st"
      using reference_builtin reach_nonempty by (intro slots_inv_map_root) simp_all
    then show ?thesis using None by (simp add: ReferenceBuiltin_def Let_def)
  qed (use reference_builtin in \<open>simp add: ReferenceBuiltin_def Let_def\<close>)
next
  case (set_module ts m)
  then show ?case using reach_nonempty unfolding SetCurrentModule_def by (intro slots_inv_map_root) simp_all
next
  case (bind_namespace ts a m)
  then show ?case using reach_nonempty unfolding BindNamespace_def by (intro slots_inv_map_root) (simp_all add: Let_def)
qed (simp_all add: NewEnclosedSymbolTable_def slots_inv_New DefineBuiltin_def DefineFunctionName_def Let_def
      slots_inv_no_slot slot_of_def)

section \<open>Properties of the symbol table\<close>

text \<open>
  C5: Resolving a name finds what lexical scoping says it means.  The symbol handed back, followed
  through the captures that resolution recorded, stands for the innermost declaration of the name;
  a name without one is not found; and no other name changes its meaning on the way.
\<close>

theorem Resolve_denotes:
  assumes "reach ts" "source_name name"
  shows "case Resolve name ts of (r, ts') \<Rightarrow>
    Option.bind r (\<lambda>s. denotes s ts') = lexical name ts \<and> lexical n ts' = lexical n ts \<and> reach ts'"
proof -
  obtain r ts' where res: "Resolve name ts = (r, ts')" by force
  have inv: "chain_inv ts" using assms(1) by (rule reach_chain_inv)
  note inv' = Resolve_inv [OF inv assms(2) res] and glob = Resolve_global [OF res]
  have lex: "lexical m ts' = lexical m ts" for m using Resolve_lexical [OF inv assms(2)] res by (metis snd_conv)
  have "reach ts'" using reach.resolve [OF assms] res by simp
  then have ne: "ts' \<noteq> []" by (rule reach_nonempty)
  have "denotes s ts' = lexical name ts" if s: "r = Some s" for s
  proof (cases "Scope s \<in> {GlobalScope, BuiltinScope}")
    case True
    then show ?thesis using glob s ne by (cases ts') auto
  next
    case False
    then have "own ts' name = Some s" using inv' s by (auto simp: resolved_def)
    then show ?thesis using denotes_own [of ts' name s] inv' ne lex by simp
  qed
  then show ?thesis using glob res lex \<open>reach ts'\<close> by (cases r) auto
qed

definition example_tables :: tables where
  "example_tables = NewEnclosedSymbolTable (snd (Define ''x'' (NewEnclosedSymbolTable [NewSymbolTable])))"

lemma reach_example: "reach example_tables"
  unfolding example_tables_def by (intro reach.enclose reach.declared reach.new) (simp add: source_name_def)

theorem Resolve_denotes_witness:
  "Option.bind (fst (Resolve ''x'' example_tables)) (\<lambda>s. denotes s (snd (Resolve ''x'' example_tables))) =
   Some (2, \<lparr>sym_Name = ''x'', Scope = LocalScope, sym_Index = 0\<rparr>)"
proof -
  have "source_name ''x''" by (simp add: source_name_def)
  moreover have "lexical ''x'' example_tables = Some (2, \<lparr>sym_Name = ''x'', Scope = LocalScope, sym_Index = 0\<rparr>)"
    by code_simp
  ultimately show ?thesis using Resolve_denotes [OF reach_example, of "''x''"] by (simp add: case_prod_beta)
qed

text \<open>
  C19: Every captured variable is boxed: when a resolved name stands for a local slot of an enclosing
  function, that function's table has the slot marked as captured.
\<close>

theorem captured_slot_is_boxed:
  assumes "reach ts" "source_name name" "Resolve name ts = (Some s, ts')"
    and "denotes s ts' = Some (d, orig)" "Scope orig = LocalScope" "d < length ts'"
  shows "IsCaptured (sym_Index orig) (ts' ! (length ts' - d))"
proof -
  note inv' = Resolve_inv [OF reach_chain_inv [OF assms(1)] assms(2,3)]
  have "ts' \<noteq> []" using assms(6) by auto
  then have "Scope s \<notin> {GlobalScope, BuiltinScope}" using assms(4,5) by (cases ts') (auto split: if_splits)
  then have "own ts' name = Some s" using inv' by (auto simp: resolved_def)
  then show ?thesis using captured_own inv' assms(4,5,6) by blast
qed

theorem captured_slot_is_boxed_witness:
  "IsCaptured 0 (snd (Resolve ''x'' example_tables) ! 1)"
proof -
  let ?s = "\<lparr>sym_Name = ''x'', Scope = FreeScope, sym_Index = 0\<rparr>"
  have name: "source_name ''x''" by (simp add: source_name_def)
  have "fst (Resolve ''x'' example_tables) = Some ?s" "length (snd (Resolve ''x'' example_tables)) = 3"
    and den: "denotes ?s (snd (Resolve ''x'' example_tables)) = Some (2, \<lparr>sym_Name = ''x'', Scope = LocalScope, sym_Index = 0\<rparr>)"
    by code_simp+
  then have r: "Resolve ''x'' example_tables = (Some ?s, snd (Resolve ''x'' example_tables))"
    by (metis prod.collapse)
  have len: "length example_tables = 3" by code_simp
  from captured_slot_is_boxed [OF reach_example name r den] show ?thesis by (simp add: len)
qed

text \<open>
  C6: A block leaves no trace in the names of its function: whatever a block declares, references
  and nests, once it closes every name that was bound before means what it meant, and a name that
  was not is unbound again, or a capture of an enclosing function's variable.
\<close>

theorem CloseBlock_restores:
  assumes "reach ts" "\<forall>x \<in> set ops. names_ok x"
  defines "ts' \<equiv> on_hd CloseBlock (fold run_op ops (on_hd OpenBlock ts))"
  shows "blocks (hd ts') = blocks (hd ts) \<and> same_names (map_of (store (hd ts))) (map_of (store (hd ts')))"
proof -
  obtain st outer where ts: "ts = st # outer" using reach_nonempty [OF assms(1)] by (cases ts) auto
  have "reach (on_hd OpenBlock ts)" using assms(1) reach.open_block by (simp add: ts on_hd_def)
  then have "inside (on_hd OpenBlock ts) (fold run_op ops (on_hd OpenBlock ts))"
    using fold_run_op [of ops "on_hd OpenBlock ts"] run_op_reach assms(2) by blast
  then show ?thesis using close_inside unfolding ts ts'_def by (simp add: on_hd_def)
qed

theorem CloseBlock_restores_witness:
  "same_names (map_of (store (hd example_tables)))
    (map_of (store (hd (on_hd CloseBlock (fold run_op [Reference ''x'', Declare ''y''] (on_hd OpenBlock example_tables))))))"
proof -
  have "\<forall>x \<in> set [Reference ''x'', Declare ''y'']. names_ok x" by (simp add: source_name_def)
  from CloseBlock_restores [OF reach_example this] show ?thesis by blast
qed

text \<open>
  The variables of a table that can still be reached: what its names mean now, and what open blocks
  have displaced and will put back when they close.
\<close>

definition live_symbols :: "SymbolTable \<Rightarrow> Symbol list" where
  "live_symbols st = map snd (store st) @ concat (map (List.map_filter previous) (blocks st))"

definition live_slots :: "SymbolTable \<Rightarrow> int list" where
  "live_slots st = map sym_Index (filter (\<lambda>s. Scope s \<in> {GlobalScope, LocalScope}) (live_symbols st))"

lemma mset_slots: "mset (map sym_Index (filter (\<lambda>s. Scope s \<in> {GlobalScope, LocalScope}) ss)) = sum_list (map slot_of ss)"
  by (induction ss) (auto simp: slot_of_def)

lemma frame_slots_filter: "frame_slots f = sum_list (map slot_of (List.map_filter previous f))"
  by (induction f) (auto simp: frame_slots_def opt_slot_def map_filter_simps split: option.split)

lemma mset_live_slots: "mset (live_slots st) = table_slots st"
proof -
  have "sum_list (map slot_of (concat (map (List.map_filter previous) fs))) = sum_list (map frame_slots fs)" for fs
    by (induction fs) (simp_all add: frame_slots_filter)
  then show ?thesis
    unfolding live_slots_def mset_slots by (simp add: live_symbols_def table_slots_def store_slots_def)
qed

text \<open>
  C20: Slots are never shared.  Take every variable of a table that can still be reached: those its
  names mean now, and those an open block has displaced and will put back when it closes.  No two of
  them have the same slot, and every slot lies below the count the frame is sized by, across blocks,
  captures and temporaries.
\<close>

theorem slots_distinct:
  assumes "reach ts" "st \<in> set ts"
  shows "distinct (live_slots st) \<and> set (live_slots st) \<subseteq> {0..<int (numDefinitions st)}"
proof -
  let ?n = "map int [0..<numDefinitions st]"
  have sub: "mset (live_slots st) \<subseteq># mset ?n"
    using reach_slots_inv [OF assms(1)] assms(2) by (simp add: mset_live_slots slots_inv_def)
  have "distinct ?n" by (simp add: distinct_map)
  then have "\<forall>i. count (mset (live_slots st)) i \<le> 1"
    using mset_subset_eq_count [OF sub] unfolding distinct_count_atmost_1 by (metis le_trans count_mset_0_iff le_numeral_extra(3) zero_le)
  then have "distinct (live_slots st)"
    unfolding distinct_count_atmost_1 by (metis One_nat_def count_greater_eq_one_iff le_antisym set_mset_mset count_mset_0_iff)
  moreover have "set (live_slots st) \<subseteq> set ?n" using set_mset_mono [OF sub] by simp
  ultimately show ?thesis by auto
qed

text \<open>A global declared again inside an open block: both variables are live.\<close>

definition example_block :: tables where
  "example_block =
    snd (Define ''x'' (OpenBlock (hd (snd (Define ''x'' [NewSymbolTable]))) # []))"

theorem slots_distinct_witness:
  "live_slots (hd example_block) = [1, 0] \<and> distinct (live_slots (hd example_block)) \<and>
   set (live_slots (hd example_block)) \<subseteq> {0..<int (numDefinitions (hd example_block))}"
proof -
  let ?a = "snd (Define ''x'' [NewSymbolTable])"
  have n: "source_name ''x''" by (simp add: source_name_def)
  have a: "reach ?a" by (rule reach.declared [OF reach.new n])
  have "?a = hd ?a # []" by (simp add: Define_def Let_def)
  then have "reach (OpenBlock (hd ?a) # [])" using a reach.open_block [of "hd ?a" "[]"] by simp
  then have r: "reach example_block" unfolding example_block_def by (rule reach.declared [OF _ n])
  have st: "hd example_block \<in> set example_block" using reach_nonempty [OF r] by simp
  have "live_slots (hd example_block) = [1, 0]" by code_simp
  with slots_distinct [OF r st] show ?thesis by simp
qed

end
