(* ===== verification/Token.thy ===== *)
theory Token
  imports Prelude "HOL-Library.List_Lexorder" "HOL-Library.Char_ord"
begin

text \<open>
  Positions, comments and tokens, \<^verbatim>\<open>src/token/token.go\<close>.  A token type is a string, as it is in
  the source; \<^verbatim>\<open>AND\<close> and \<^verbatim>\<open>OR\<close> are spelled \<open>AND_AND\<close> and \<open>OR_OR\<close>, \<^verbatim>\<open>INT\<close> is \<open>INTEGER\<close>.
\<close>

section \<open>Positions and tokens\<close>

record Position =
  Line :: int
  Column :: int
  Offset :: int

definition IsValid :: "Position \<Rightarrow> bool" where
  "IsValid p \<longleftrightarrow> Line p > 0"

definition Shift :: "Position \<Rightarrow> int \<Rightarrow> int \<Rightarrow> Position" where
  "Shift p ls off = (if \<not> IsValid p then p else p\<lparr>Line := Line p + ls, Offset := Offset p + off\<rparr>)"

record Comment =
  com_Text :: string
  com_Start :: Position
  com_End :: Position

definition IsTrailing :: "Comment \<Rightarrow> Position \<Rightarrow> bool" where
  "IsTrailing c prev \<longleftrightarrow>
    (if \<not> IsValid prev \<or> \<not> IsValid (com_Start c) then False
     else Line prev = Line (com_Start c) \<and> Offset (com_Start c) \<ge> Offset prev)"

type_synonym TokenType = string

abbreviation ILLEGAL :: TokenType where "ILLEGAL \<equiv> ''ILLEGAL''"
abbreviation EOF :: TokenType where "EOF \<equiv> ''EOF''"
abbreviation UNTERMINATED :: TokenType where "UNTERMINATED \<equiv> ''UNTERMINATED''"
abbreviation IDENT :: TokenType where "IDENT \<equiv> ''IDENT''"
abbreviation INTEGER :: TokenType where "INTEGER \<equiv> ''INT''"
abbreviation FLOAT :: TokenType where "FLOAT \<equiv> ''FLOAT''"
abbreviation STRING :: TokenType where "STRING \<equiv> ''STRING''"
abbreviation TEMPLATE :: TokenType where "TEMPLATE \<equiv> ''TEMPLATE''"
abbreviation ASSIGN :: TokenType where "ASSIGN \<equiv> ''=''"
abbreviation PLUS :: TokenType where "PLUS \<equiv> ''+''"
abbreviation MINUS :: TokenType where "MINUS \<equiv> ''-''"
abbreviation ASTERISK :: TokenType where "ASTERISK \<equiv> ''*''"
abbreviation FSLASH :: TokenType where "FSLASH \<equiv> ''/''"
abbreviation MODULO :: TokenType where "MODULO \<equiv> ''%''"
abbreviation DOT :: TokenType where "DOT \<equiv> ''.''"
abbreviation LT :: TokenType where "LT \<equiv> ''<''"
abbreviation GT :: TokenType where "GT \<equiv> ''>''"
abbreviation LTE :: TokenType where "LTE \<equiv> ''<=''"
abbreviation GTE :: TokenType where "GTE \<equiv> ''>=''"
abbreviation BANG :: TokenType where "BANG \<equiv> ''!''"
abbreviation EQUALITY :: TokenType where "EQUALITY \<equiv> ''==''"
abbreviation INEQUALITY :: TokenType where "INEQUALITY \<equiv> ''!=''"
abbreviation AND_AND :: TokenType where "AND_AND \<equiv> ''&&''"
abbreviation OR_OR :: TokenType where "OR_OR \<equiv> ''||''"
abbreviation COLON :: TokenType where "COLON \<equiv> '':''"
abbreviation AMPERSAND :: TokenType where "AMPERSAND \<equiv> ''&''"
abbreviation PIPE :: TokenType where "PIPE \<equiv> ''|''"
abbreviation CARET :: TokenType where "CARET \<equiv> ''^''"
abbreviation TILDE :: TokenType where "TILDE \<equiv> ''~''"
abbreviation SHL :: TokenType where "SHL \<equiv> ''<<''"
abbreviation SHR :: TokenType where "SHR \<equiv> ''>>''"
abbreviation PLUS_ASSIGN :: TokenType where "PLUS_ASSIGN \<equiv> ''+=''"
abbreviation MINUS_ASSIGN :: TokenType where "MINUS_ASSIGN \<equiv> ''-=''"
abbreviation ASTERISK_ASSIGN :: TokenType where "ASTERISK_ASSIGN \<equiv> ''*=''"
abbreviation SLASH_ASSIGN :: TokenType where "SLASH_ASSIGN \<equiv> ''/=''"
abbreviation MODULO_ASSIGN :: TokenType where "MODULO_ASSIGN \<equiv> ''%=''"
abbreviation INCREMENT :: TokenType where "INCREMENT \<equiv> ''++''"
abbreviation DECREMENT :: TokenType where "DECREMENT \<equiv> ''--''"
abbreviation AND_ASSIGN :: TokenType where "AND_ASSIGN \<equiv> ''&=''"
abbreviation OR_ASSIGN :: TokenType where "OR_ASSIGN \<equiv> ''|=''"
abbreviation XOR_ASSIGN :: TokenType where "XOR_ASSIGN \<equiv> ''^=''"
abbreviation SHL_ASSIGN :: TokenType where "SHL_ASSIGN \<equiv> ''<<=''"
abbreviation SHR_ASSIGN :: TokenType where "SHR_ASSIGN \<equiv> ''>>=''"
abbreviation FATARROW :: TokenType where "FATARROW \<equiv> ''=>''"
abbreviation COMMA :: TokenType where "COMMA \<equiv> '',''"
abbreviation SEMICOLON :: TokenType where "SEMICOLON \<equiv> '';''"
abbreviation LPAREN :: TokenType where "LPAREN \<equiv> ''(''"
abbreviation RPAREN :: TokenType where "RPAREN \<equiv> '')''"
abbreviation LBRACE :: TokenType where "LBRACE \<equiv> ''{''"
abbreviation RBRACE :: TokenType where "RBRACE \<equiv> ''}''"
abbreviation LSQUARE :: TokenType where "LSQUARE \<equiv> ''[''"
abbreviation RSQUARE :: TokenType where "RSQUARE \<equiv> '']''"
abbreviation FUNCTION :: TokenType where "FUNCTION \<equiv> ''FUNCTION''"
abbreviation LET :: TokenType where "LET \<equiv> ''LET''"
abbreviation TRUE :: TokenType where "TRUE \<equiv> ''TRUE''"
abbreviation FALSE :: TokenType where "FALSE \<equiv> ''FALSE''"
abbreviation IF :: TokenType where "IF \<equiv> ''IF''"
abbreviation ELSE :: TokenType where "ELSE \<equiv> ''ELSE''"
abbreviation RETURN :: TokenType where "RETURN \<equiv> ''RETURN''"
abbreviation MACRO :: TokenType where "MACRO \<equiv> ''MACRO''"
abbreviation FOR :: TokenType where "FOR \<equiv> ''FOR''"
abbreviation WHILE :: TokenType where "WHILE \<equiv> ''WHILE''"
abbreviation IN :: TokenType where "IN \<equiv> ''IN''"
abbreviation BREAK :: TokenType where "BREAK \<equiv> ''BREAK''"
abbreviation CONTINUE :: TokenType where "CONTINUE \<equiv> ''CONTINUE''"
abbreviation STRUCT :: TokenType where "STRUCT \<equiv> ''STRUCT''"
abbreviation ENUM :: TokenType where "ENUM \<equiv> ''ENUM''"
abbreviation MATCH :: TokenType where "MATCH \<equiv> ''MATCH''"
abbreviation IMPORT :: TokenType where "IMPORT \<equiv> ''IMPORT''"

record StringPart =
  Text :: string
  Expression :: bool
  part_Start :: Position

record Token =
  tok_Type :: TokenType
  Literal :: string
  Start :: Position
  End :: Position
  Raw :: string
  Parts :: "StringPart list"
  Err :: string

definition keyword_table :: "(string \<times> TokenType) list" where
  "keyword_table = [(''fn'', FUNCTION), (''let'', LET), (''true'', TRUE), (''false'', FALSE), (''if'', IF),
     (''else'', ELSE), (''return'', RETURN), (''macro'', MACRO), (''for'', FOR), (''while'', WHILE),
     (''in'', IN), (''break'', BREAK), (''continue'', CONTINUE), (''struct'', STRUCT), (''enum'', ENUM),
     (''match'', MATCH), (''import'', IMPORT)]"

definition LookupIdent :: "string \<Rightarrow> TokenType" where
  "LookupIdent ident = (case map_of keyword_table ident of Some tok \<Rightarrow> tok | None \<Rightarrow> IDENT)"

definition KeywordLiterals :: "string list" where
  "KeywordLiterals = sort (map fst keyword_table)"

end
