(* ===== verification/Lexer.thy ===== *)
theory Lexer
  imports Token Float64 Utf8 "HOL-Library.Monad_Syntax"
begin

text \<open>
  The lexer, \<^verbatim>\<open>src/lexer/lexer.go\<close>.

  The source is a byte string and the cursor's character a rune.  The letter and digit tables of the
  \<^verbatim>\<open>unicode\<close> package are parameters, a record of two predicates; NUL is in neither of them.  The white
  space of \<^verbatim>\<open>unicode.IsSpace\<close> is written out.  Every scanning loop is a partial function into \<open>option\<close>:
  \<open>None\<close> is a loop that never returns, and a reader that calls one is itself \<open>None\<close> then.
\<close>

section \<open>Characters\<close>

record unicode_tables =
  letter_table :: "nat \<Rightarrow> bool"
  digit_table :: "nat \<Rightarrow> bool"

definition IsLetter :: "unicode_tables \<Rightarrow> nat \<Rightarrow> bool" where
  "IsLetter u r \<longleftrightarrow> r \<noteq> 0 \<and> letter_table u r"

definition IsDigit :: "unicode_tables \<Rightarrow> nat \<Rightarrow> bool" where
  "IsDigit u r \<longleftrightarrow> r \<noteq> 0 \<and> digit_table u r"

definition IsSpace :: "nat \<Rightarrow> bool" where
  "IsSpace r \<longleftrightarrow> 9 \<le> r \<and> r \<le> 13 \<or> r = 0x20 \<or> r = 0x85 \<or> r = 0xA0 \<or> r = 0x1680 \<or>
     0x2000 \<le> r \<and> r \<le> 0x200A \<or> r = 0x2028 \<or> r = 0x2029 \<or> r = 0x202F \<or> r = 0x205F \<or> r = 0x3000"

definition is_ch :: "nat \<Rightarrow> char \<Rightarrow> bool" where
  "is_ch r c \<longleftrightarrow> r = byte_val c"

section \<open>The cursor\<close>

record Lexer =
  input :: string
  position :: nat
  readPosition :: nat
  ch :: nat
  line :: int
  lineStart :: nat
  origin :: Position
  comments :: "Comment list"

text \<open>The Go substr \<^verbatim>\<open>s[a:b]\<close>.\<close>

definition substr :: "string \<Rightarrow> nat \<Rightarrow> nat \<Rightarrow> string" where
  "substr s a b = take (b - a) (drop a s)"

definition readRune :: "Lexer \<Rightarrow> Lexer" where
  "readRune l =
    (let l = (if ch l = 10 then l\<lparr>line := line l + 1, lineStart := readPosition l\<rparr> else l);
         (r, width) = (if readPosition l \<ge> length (input l) then (0, 1)
                       else DecodeRuneInString (drop (readPosition l) (input l)))
     in l\<lparr>ch := r, position := min (readPosition l) (length (input l)), readPosition := readPosition l + width\<rparr>)"

definition NewAt :: "string \<Rightarrow> Position \<Rightarrow> Lexer" where
  "NewAt inp at = readRune \<lparr>input = inp, position = 0, readPosition = 0, ch = 0, line = 1, lineStart = 0,
     origin = at, comments = []\<rparr>"

definition New :: "string \<Rightarrow> Lexer" where
  "New inp = NewAt inp \<lparr>Line = 1, Column = 1, Offset = 0\<rparr>"

definition currentPos :: "Lexer \<Rightarrow> Position" where
  "currentPos l =
    (let column = int (position l) - int (lineStart l) + 1;
         column = (if lineStart l = 0 then column + (Column (origin l) - 1) else column)
     in \<lparr>Line = line l + Line (origin l) - 1, Column = column, Offset = int (position l) + Offset (origin l)\<rparr>)"

definition atEOF :: "Lexer \<Rightarrow> bool" where
  "atEOF l \<longleftrightarrow> position l \<ge> length (input l)"

definition more :: "Lexer \<Rightarrow> bool" where
  "more l \<longleftrightarrow> readPosition l < length (input l)"

definition prevRune :: "Lexer \<Rightarrow> nat" where
  "prevRune l = (if position l = 0 then 0 else fst (DecodeLastRuneInString (take (position l) (input l))))"

definition peekRune :: "Lexer \<Rightarrow> nat" where
  "peekRune l = (if readPosition l \<ge> length (input l) then 0
     else fst (DecodeRuneInString (drop (readPosition l) (input l))))"

fun skip_runes :: "string \<Rightarrow> nat \<Rightarrow> nat \<Rightarrow> nat option" where
  "skip_runes s 0 idx = Some idx"
| "skip_runes s (Suc n) idx =
    (if idx \<ge> length s then None else skip_runes s n (idx + snd (DecodeRuneInString (drop idx s))))"

definition peekRuneAt :: "nat \<Rightarrow> Lexer \<Rightarrow> nat" where
  "peekRuneAt n l =
    (if n < 1 then 0
     else case skip_runes (input l) (n - 1) (readPosition l) of
       None \<Rightarrow> 0
     | Some idx \<Rightarrow> if idx \<ge> length (input l) then 0 else fst (DecodeRuneInString (drop idx (input l))))"

partial_function (option) read_while :: "(Lexer \<Rightarrow> bool) \<Rightarrow> Lexer \<Rightarrow> Lexer option" where
  "read_while P l = (if P l then read_while P (readRune l) else Some l)"

section \<open>Faults\<close>

type_synonym scanFault = "(string \<times> Position) option"

definition fault_or :: "scanFault \<Rightarrow> scanFault \<Rightarrow> scanFault" where
  "fault_or f g = (case f of Some _ \<Rightarrow> f | None \<Rightarrow> g)"

definition fault_message :: "string \<times> Position \<Rightarrow> string" where
  "fault_message f = fst f @ '' (line '' @ dec_int (Line (snd f)) @ '', column '' @ dec_int (Column (snd f)) @ '')''"

definition fault_after :: "string \<times> Position \<Rightarrow> Position" where
  "fault_after f = \<lparr>Line = Line (snd f), Column = Column (snd f) + 1, Offset = Offset (snd f) + 1\<rparr>"

definition faultOpenHole :: string where
  "faultOpenHole = ''unterminated ${ inside a string literal: this hole is never closed by a }''"

definition faultNUL :: string where
  "faultNUL = ''NUL byte in the source, which a Mutant source file cannot hold -- a string literal that needs one writes '' @ [CHR 0x5C] @ ''0''"

definition faultBackslash :: string where
  "faultBackslash = ''a backslash is not an operator in this language: integer division is written /, and a backslash in text needs a string literal around it''"

section \<open>Literals that are not numbers\<close>

definition numberPrefix :: "char \<Rightarrow> nat \<times> string" where
  "numberPrefix c =
    (if c = CHR ''x'' \<or> c = CHR ''X'' then (16, ''hex'')
     else if c = CHR ''o'' \<or> c = CHR ''O'' then (8, ''octal'')
     else if c = CHR ''b'' \<or> c = CHR ''B'' then (2, ''binary'')
     else (0, ''''))"

text \<open>The digit value of \<^verbatim>\<open>strconv.ParseUint\<close>: letters in either case, 36 for any other byte.\<close>

definition digit_value :: "char \<Rightarrow> nat" where
  "digit_value c =
    (let b = byte_val c in
     if 48 \<le> b \<and> b \<le> 57 then b - 48
     else if 97 \<le> b \<and> b \<le> 122 then b - 87
     else if 65 \<le> b \<and> b \<le> 90 then b - 55
     else 36)"

definition digits_value :: "nat \<Rightarrow> string \<Rightarrow> nat" where
  "digits_value base s = foldl (\<lambda>v c. v * base + digit_value c) 0 s"

definition ParseUint :: "string \<Rightarrow> nat \<Rightarrow> nat option" where
  "ParseUint s base =
    (if s = '''' \<or> (\<exists>c \<in> set s. digit_value c \<ge> base) then None
     else let v = digits_value base s in if v < 2 ^ 64 then Some v else None)"

definition advice :: "string \<Rightarrow> nat \<Rightarrow> string" where
  "advice digits base = (case ParseUint digits base of
      None \<Rightarrow> ''''
    | Some v \<Rightarrow> '', so write '' @ dec_nat v @ '', or parse_int('' @ [CHR 0x22] @ digits @ [CHR 0x22] @ '', ''
                @ dec_nat base @ '')'')"

definition is_dec :: "char \<Rightarrow> bool" where
  "is_dec c \<longleftrightarrow> digit_value c < 10"

text \<open>
  \<^verbatim>\<open>strconv.ParseFloat\<close> on the spellings that reach it: ASCII digits, perhaps one point among them,
  an exponent letter and its digits.  An overflow is an error.
\<close>

definition ParseFloat :: "string \<Rightarrow> float64 option" where
  "ParseFloat whole =
    (let mant = takeWhile (\<lambda>c. c \<noteq> CHR ''e'' \<and> c \<noteq> CHR ''E'') whole;
         expo = drop (Suc (length mant)) whole;
         ipart = takeWhile (\<lambda>c. c \<noteq> CHR ''.'') mant;
         fpart = drop (Suc (length ipart)) mant
     in if ipart @ fpart = '''' \<or> expo = '''' \<or> \<not> list_all is_dec (ipart @ fpart @ expo) then None
        else let v = f_round False (digits_value 10 (ipart @ fpart) * 10 ^ digits_value 10 expo * f_unit)
                       (10 ^ length fpart)
             in if f_is_inf v then None else Some v)"

definition f_Trunc :: "float64 \<Rightarrow> float64" where
  "f_Trunc v = (if f_neg v then f_minus (f_Floor (f_minus v)) else f_Floor v)"

definition exponentAdvice :: "string \<Rightarrow> string" where
  "exponentAdvice whole = (case ParseFloat whole of
      None \<Rightarrow> ''''
    | Some v \<Rightarrow> if f_is_inf v \<or> \<not> f_eq v (f_Trunc v) then '''' else '', so write '' @ dec_int (f_to_int v))"

definition allDigits :: "unicode_tables \<Rightarrow> string \<Rightarrow> bool" where
  "allDigits u s \<longleftrightarrow> s \<noteq> '''' \<and> (\<forall>r \<in> set (runes s). IsDigit u r)"

definition numberFault :: "unicode_tables \<Rightarrow> string \<Rightarrow> string \<Rightarrow> string" where
  "numberFault u digits name =
    (let whole = digits @ name;
         (base, kind) = (if digits = ''0'' \<and> length name > 1 then numberPrefix (hd name) else (0, ''''))
     in if base \<noteq> 0 then
          whole @ '' is not a number: this language has no '' @ kind @ '' literal'' @ advice (tl name) base
        else if length name > 1 \<and> (hd name = CHR ''e'' \<or> hd name = CHR ''E'') \<and> allDigits u (tl name) then
          whole @ '' is not a number: this language has no exponent notation'' @ exponentAdvice whole
        else if length name > 1 \<and> hd name = CHR ''_'' \<and> allDigits u (tl name) then
          whole @ '' is not a number: this language has no digit separator, so write '' @
          filter (\<lambda>c. c \<noteq> CHR ''_'') whole
        else
          whole @ '' is read as the number '' @ digits @ '' followed by the name '' @ name @
          '', which is not one thing: a number cannot be written immediately before a name'')"

section \<open>Readers\<close>

definition newToken :: "TokenType \<Rightarrow> string \<Rightarrow> Token" where
  "newToken ty lit = \<lparr>tok_Type = ty, Literal = lit, Start = \<lparr>Line = 0, Column = 0, Offset = 0\<rparr>,
     End = \<lparr>Line = 0, Column = 0, Offset = 0\<rparr>, Raw = '''', Parts = [], Err = ''''\<rparr>"

definition ident_part :: "unicode_tables \<Rightarrow> Lexer \<Rightarrow> bool" where
  "ident_part u l \<longleftrightarrow> IsLetter u (ch l) \<or> IsDigit u (ch l) \<or> is_ch (ch l) CHR ''_''"

definition readIdentifier :: "unicode_tables \<Rightarrow> Lexer \<Rightarrow> (string \<times> Lexer) option" where
  "readIdentifier u l = do {
     l' \<leftarrow> read_while (ident_part u) l;
     Some (substr (input l) (position l) (position l'), l')
   }"

partial_function (option) number_loop :: "unicode_tables \<Rightarrow> bool \<Rightarrow> Lexer \<Rightarrow> (bool \<times> Lexer) option" where
  "number_loop u flag l =
    (if IsDigit u (ch l) \<or> is_ch (ch l) CHR ''.'' then
       (if is_ch (ch l) CHR ''.'' then
          (if \<not> (IsDigit u (prevRune l) \<and> IsDigit u (peekRune l)) then Some (flag, l)
           else number_loop u True (readRune l))
        else number_loop u flag (readRune l))
     else Some (flag, l))"

definition readNumber :: "unicode_tables \<Rightarrow> Lexer \<Rightarrow> (string \<times> bool \<times> Lexer) option" where
  "readNumber u l = do {
     (flag, l') \<leftarrow> number_loop u False l;
     Some (substr (input l) (position l) (position l'), flag, l')
   }"

definition skipWhiteSpace :: "Lexer \<Rightarrow> Lexer option" where
  "skipWhiteSpace l = read_while (\<lambda>l. IsSpace (ch l)) l"

text \<open>\<^verbatim>\<open>advance\<close>: a position moved over a piece of text, byte by byte.\<close>

definition advance_byte :: "Position \<Rightarrow> char \<Rightarrow> Position" where
  "advance_byte p c =
    (let p = p\<lparr>Offset := Offset p + 1\<rparr> in
     if byte_val c = 10 then p\<lparr>Line := Line p + 1, Column := 1\<rparr> else p\<lparr>Column := Column p + 1\<rparr>)"

definition advance :: "Position \<Rightarrow> string \<Rightarrow> Position" where
  "advance p text = foldl advance_byte p text"

definition IndexNUL :: "string \<Rightarrow> nat option" where
  "IndexNUL s = (if CHR 0x00 \<in> set s then Some (length (takeWhile (\<lambda>c. c \<noteq> CHR 0x00) s)) else None)"

definition skipLineComment :: "Lexer \<Rightarrow> (scanFault \<times> Lexer) option" where
  "skipLineComment l0 = do {
     l \<leftarrow> read_while (\<lambda>l. ch l \<noteq> 10 \<and> \<not> atEOF l) l0;
     let start = currentPos l0;
         end1 = currentPos l;
         text = substr (input l) (position l0) (position l);
         (text, end1) = (if text \<noteq> '''' \<and> byte_val (last text) = 13
                         then (butlast text, end1\<lparr>Offset := Offset end1 - 1, Column := Column end1 - 1\<rparr>)
                         else (text, end1));
         l = l\<lparr>comments := comments l @ [\<lparr>com_Text = text, com_Start = start, com_End = end1\<rparr>]\<rparr>
     in Some (case IndexNUL text of
          Some at \<Rightarrow> (Some (faultNUL, advance start (take at text)), l)
        | None \<Rightarrow> (None, l))
   }"

partial_function (option) trivia_loop :: "scanFault \<Rightarrow> Lexer \<Rightarrow> (scanFault \<times> Lexer) option" where
  "trivia_loop fault l = do {
     l \<leftarrow> skipWhiteSpace l;
     if is_ch (ch l) CHR ''/'' \<and> is_ch (peekRune l) CHR ''/'' then do {
       (f, l') \<leftarrow> skipLineComment l;
       trivia_loop (fault_or fault f) l'
     } else Some (fault, l)
   }"

definition skipTrivia :: "Lexer \<Rightarrow> (scanFault \<times> Lexer) option" where
  "skipTrivia l = trivia_loop None l"

section \<open>String literals\<close>

definition is_quote :: "nat \<Rightarrow> bool" where
  "is_quote r \<longleftrightarrow> r = 0x22"

definition is_backslash :: "nat \<Rightarrow> bool" where
  "is_backslash r \<longleftrightarrow> r = 0x5C"

text \<open>The string inside a hole: whether its closing quote was found, and the cursor on it.\<close>

partial_function (option) skip_string :: "Lexer \<Rightarrow> (bool \<times> Lexer) option" where
  "skip_string l =
    (let l = readRune l in
     if atEOF l then Some (False, l)
     else if is_quote (ch l) then Some (True, l)
     else if is_backslash (ch l) \<and> more l then skip_string (readRune l)
     else skip_string l)"

partial_function (option) hole_loop :: "nat \<Rightarrow> Lexer \<Rightarrow> (bool \<times> Lexer) option" where
  "hole_loop depth l =
    (if depth = 0 then Some (True, l)
     else let l = readRune l in
       if atEOF l then Some (False, l)
       else if is_ch (ch l) CHR ''{'' then hole_loop (depth + 1) l
       else if is_ch (ch l) CHR ''}'' then hole_loop (depth - 1) l
       else if is_quote (ch l) then do {
         (closed, l) \<leftarrow> skip_string l;
         if closed then hole_loop depth l else Some (False, l)
       }
       else hole_loop depth l)"

definition skipHole :: "Lexer \<Rightarrow> (scanFault \<times> Lexer) option" where
  "skipHole l = do {
     (closed, l') \<leftarrow> hole_loop 1 (readRune l);
     Some (if closed then None else Some (faultOpenHole, currentPos l), l')
   }"

partial_function (option) quoted_loop :: "scanFault \<Rightarrow> Lexer \<Rightarrow> (bool \<times> scanFault \<times> Lexer) option" where
  "quoted_loop fault l =
    (let l = readRune l in
     if atEOF l then Some (False, fault, l)
     else if is_quote (ch l) then Some (True, fault, l)
     else if is_backslash (ch l) \<and> more l then quoted_loop fault (readRune l)
     else if is_ch (ch l) CHR ''$'' \<and> is_ch (peekRune l) CHR ''{'' then do {
       (f, l') \<leftarrow> skipHole l;
       quoted_loop (fault_or fault f) l'
     }
     else quoted_loop fault l)"

definition readQuotedBody :: "Lexer \<Rightarrow> (string \<times> bool \<times> scanFault \<times> Lexer) option" where
  "readQuotedBody l = do {
     (terminated, fault, l') \<leftarrow> quoted_loop None l;
     Some (substr (input l) (readPosition l) (position l'), terminated, fault, l')
   }"

partial_function (option) raw_loop :: "Lexer \<Rightarrow> (bool \<times> Lexer) option" where
  "raw_loop l =
    (let l = readRune l in
     if atEOF l then Some (False, l) else if is_quote (ch l) then Some (True, l) else raw_loop l)"

definition readRawBody :: "Lexer \<Rightarrow> (string \<times> bool \<times> Lexer) option" where
  "readRawBody l = do {
     (terminated, l') \<leftarrow> raw_loop l;
     Some (substr (input l) (readPosition l) (position l'), terminated, l')
   }"

text \<open>The end of the body, whether the three closing quotes were found, and the cursor.\<close>

partial_function (option) triple_loop :: "bool \<Rightarrow> Lexer \<Rightarrow> (nat \<times> bool \<times> Lexer) option" where
  "triple_loop raw l =
    (let l = readRune l in
     if atEOF l then Some (position l, False, l)
     else if is_quote (ch l) \<and> is_quote (peekRune l) \<and> is_quote (peekRuneAt 2 l) then
       Some (position l, True, readRune (readRune l))
     else if \<not> raw \<and> is_backslash (ch l) \<and> more l then triple_loop raw (readRune l)
     else triple_loop raw l)"

definition readTripleBody :: "bool \<Rightarrow> Lexer \<Rightarrow> (string \<times> bool \<times> Lexer) option" where
  "readTripleBody raw l0 =
    (let l = readRune (readRune l0) in do {
       (end1, terminated, l') \<leftarrow> triple_loop raw l;
       Some (substr (input l) (readPosition l) end1, terminated, l')
     })"

fun unescape_loop :: "string \<Rightarrow> string" where
  "unescape_loop [] = []"
| "unescape_loop [c] = [c]"
| "unescape_loop (c # d # s) =
    (if byte_val c \<noteq> 0x5C then c # unescape_loop (d # s)
     else (if d = CHR ''n'' then [CHR 0x0A]
           else if d = CHR ''r'' then [CHR 0x0D]
           else if d = CHR ''t'' then [CHR 0x09]
           else if byte_val d = 0x22 then [d]
           else if byte_val d = 0x5C then [d]
           else if d = CHR ''$'' then [d]
           else if d = CHR ''0'' then [CHR 0x00]
           else [c, d]) @ unescape_loop s)"

definition unescape :: "string \<Rightarrow> string" where
  "unescape s = (if \<not> (\<exists>c \<in> set s. byte_val c = 0x5C) then s else unescape_loop s)"

fun normalizeNewlines :: "string \<Rightarrow> string" where
  "normalizeNewlines (c # d # s) =
    (if byte_val c = 13 \<and> byte_val d = 10 then d # normalizeNewlines s else c # normalizeNewlines (d # s))"
| "normalizeNewlines s = s"

text \<open>\<^verbatim>\<open>strings.Split\<close> on one byte: never empty.\<close>

fun split_on :: "char \<Rightarrow> string \<Rightarrow> string list" where
  "split_on sep [] = [[]]"
| "split_on sep (c # s) =
    (if c = sep then [] # split_on sep s else (c # hd (split_on sep s)) # tl (split_on sep s))"

fun join_on :: "string \<Rightarrow> string list \<Rightarrow> string" where
  "join_on sep [] = []"
| "join_on sep [x] = x"
| "join_on sep (x # y # xs) = x @ sep @ join_on sep (y # xs)"

definition is_blank :: "char \<Rightarrow> bool" where
  "is_blank c \<longleftrightarrow> byte_val c = 32 \<or> byte_val c = 9"

definition trim_left :: "string \<Rightarrow> string" where
  "trim_left s = dropWhile is_blank s"

definition min_indent :: "nat option \<Rightarrow> string \<Rightarrow> nat option" where
  "min_indent indent ln =
    (if trim_left ln = '''' then indent
     else let width = length ln - length (trim_left ln) in
          case indent of None \<Rightarrow> Some width | Some i \<Rightarrow> if width < i then Some width else Some i)"

definition strip_line :: "nat \<Rightarrow> string \<Rightarrow> string" where
  "strip_line indent ln = (if length ln < indent then trim_left ln else drop indent ln)"

definition stripBlockIndent :: "string \<Rightarrow> string" where
  "stripBlockIndent body =
    (let first = takeWhile (\<lambda>c. c \<noteq> CHR 0x0A) body in
     if length first = length body \<or> trim_left first \<noteq> '''' then body
     else
       let lns = split_on (CHR 0x0A) (drop (Suc (length first)) body);
           (indent, lns) = (if trim_left (last lns) = '''' then (Some (length (last lns)), butlast lns) else (None, lns));
           indent = foldl min_indent indent lns
       in join_on [CHR 0x0A] (case indent of None \<Rightarrow> lns | Some i \<Rightarrow> if i > 0 then map (strip_line i) lns else lns))"

function hole_string :: "string \<Rightarrow> nat \<Rightarrow> nat" where
  "hole_string body j =
    (if j < length body \<and> byte_val (body ! j) \<noteq> 0x22
     then hole_string body (if byte_val (body ! j) = 0x5C then j + 2 else j + 1)
     else j)"
  by pat_completeness auto
termination
  by (relation "measure (\<lambda>(body, j). length body - j)") auto

declare hole_string.simps [simp del]

lemma hole_string_ge: "j \<le> hole_string body j"
  by (induction body j rule: hole_string.induct) (subst hole_string.simps, auto split: if_splits)

text \<open>The braces of a hole from \<open>j\<close>: the depth left when the scan stops, and where.\<close>

function hole_scan :: "string \<Rightarrow> nat \<Rightarrow> nat \<Rightarrow> nat \<times> nat" where
  "hole_scan body depth j =
    (if j < length body \<and> depth > 0 then
       (if body ! j = CHR ''{'' then hole_scan body (depth + 1) (j + 1)
        else if body ! j = CHR ''}'' then hole_scan body (depth - 1) (j + 1)
        else if byte_val (body ! j) = 0x22 then hole_scan body depth (hole_string body (j + 1) + 1)
        else hole_scan body depth (j + 1))
     else (depth, j))"
  by pat_completeness auto
termination
proof (relation "measure (\<lambda>(body, _, j). length body - j)")
  fix body :: string and depth j :: nat
  assume "j < length body \<and> 0 < depth"
  then show "((body, depth, hole_string body (j + 1) + 1), body, depth, j) \<in> measure (\<lambda>(body, _, j). length body - j)"
    using hole_string_ge [of "j + 1" body] by (simp, linarith)
qed auto

declare hole_scan.simps [simp del]

definition scanHole :: "string \<Rightarrow> nat \<Rightarrow> string \<times> nat \<times> bool" where
  "scanHole body i =
    (let (depth, j) = hole_scan body 1 (i + 2) in
     if depth > 0 then (drop (i + 2) body, length body, False)
     else (substr body (i + 2) (j - 1), j, True))"

text \<open>
  The loop of \<^verbatim>\<open>splitTemplate\<close> from index \<open>i\<close>: \<open>pos\<close> is the position of \<open>i\<close>, \<open>txt\<close> the text read
  since the last hole and \<open>tstart\<close> its position.  The final flush is in the base case.
\<close>

lemma hole_scan_ge: "j \<le> snd (hole_scan body depth j)"
proof (induction body depth j rule: hole_scan.induct)
  case (1 body depth j)
  then show ?case using hole_string_ge [of "j + 1" body]
    by (subst hole_scan.simps) (auto intro: Suc_leD order_trans)
qed

lemma scanHole_next: "i < length body \<Longrightarrow> i < fst (snd (scanHole body i))"
  using hole_scan_ge [of "i + 2" body 1] by (auto simp: scanHole_def case_prod_unfold Let_def)

function split_loop ::
    "string \<Rightarrow> nat \<Rightarrow> Position \<Rightarrow> string \<Rightarrow> Position \<Rightarrow> StringPart list \<Rightarrow> bool \<Rightarrow> scanFault \<Rightarrow>
     StringPart list \<times> bool \<times> scanFault" where
  "split_loop body i pos txt tstart parts found fault =
    (if i < length body then
       (if byte_val (body ! i) = 0x5C \<and> i + 1 < length body then
          split_loop body (i + 2) (advance pos (substr body i (i + 2))) (txt @ substr body i (i + 2)) tstart parts found fault
        else if body ! i = CHR ''$'' \<and> i + 1 < length body \<and> body ! (i + 1) = CHR ''{'' then
          (let exprStart = advance pos ''${'';
               (source, after, closed) = scanHole body i;
               fault = (if \<not> closed then fault_or fault (Some (faultOpenHole, pos)) else fault);
               parts = parts @ [\<lparr>Text = txt, Expression = False, part_Start = tstart\<rparr>,
                                \<lparr>Text = source, Expression = True, part_Start = exprStart\<rparr>];
               pos = advance pos (substr body i after)
           in split_loop body after pos '''' pos parts True fault)
        else
          split_loop body (i + 1) (advance pos [body ! i]) (txt @ [body ! i]) tstart parts found fault)
     else (parts @ [\<lparr>Text = txt, Expression = False, part_Start = tstart\<rparr>], found, fault))"
  by pat_completeness auto
termination
proof (relation "measure (\<lambda>(body, i, _). length body - i)", goal_cases)
  case (3 body i)
  then show ?case using scanHole_next [of i body] by (cases "scanHole body i") (auto simp: diff_less_mono2)
qed auto

declare split_loop.simps [simp del]

fun contains_hole :: "string \<Rightarrow> bool" where
  "contains_hole (c # d # s) \<longleftrightarrow> c = CHR ''$'' \<and> d = CHR ''{'' \<or> contains_hole (d # s)"
| "contains_hole s \<longleftrightarrow> False"

definition splitTemplate :: "string \<Rightarrow> Position \<Rightarrow> StringPart list \<times> bool \<times> scanFault" where
  "splitTemplate body start =
    (if \<not> contains_hole body then ([], False, None) else split_loop body 0 start '''' start [] False None)"

text \<open>The chunks of the re-indented block, handed to the text parts in order.\<close>

fun assign_chunks :: "StringPart list \<Rightarrow> string list \<Rightarrow> StringPart list" where
  "assign_chunks [] cs = []"
| "assign_chunks (p # ps) cs =
    (if Expression p \<or> cs = [] then p # assign_chunks ps cs
     else p\<lparr>Text := hd cs\<rparr> # assign_chunks ps (tl cs))"

definition decodeParts :: "StringPart list \<Rightarrow> bool \<Rightarrow> StringPart list" where
  "decodeParts parts triple =
    (let masked = concat (map (\<lambda>p. if Expression p then [CHR 0x00] else Text p) parts);
         parts = (if triple then assign_chunks parts (split_on (CHR 0x00) (stripBlockIndent (normalizeNewlines masked)))
                  else parts)
     in filter (\<lambda>p. Expression p \<or> Text p \<noteq> '''')
          (map (\<lambda>p. if Expression p then p else p\<lparr>Text := unescape (Text p)\<rparr>) parts))"

definition bodyPosition :: "bool \<Rightarrow> Lexer \<Rightarrow> Position" where
  "bodyPosition triple l =
    (let skip = (if triple then 3 else 1); p = currentPos l
     in p\<lparr>Column := Column p + skip, Offset := Offset p + skip\<rparr>)"

definition read_body :: "bool \<Rightarrow> bool \<Rightarrow> Lexer \<Rightarrow> (string \<times> bool \<times> scanFault \<times> Lexer) option" where
  "read_body raw triple l =
    (if triple then do {(body, terminated, l') \<leftarrow> readTripleBody raw l; Some (body, terminated, None, l')}
     else if raw then do {(body, terminated, l') \<leftarrow> readRawBody l; Some (body, terminated, None, l')}
     else readQuotedBody l)"

definition string_token :: "string \<Rightarrow> string \<Rightarrow> bool \<Rightarrow> bool \<Rightarrow> Token" where
  "string_token body spelling raw triple =
    (let decoded = (if triple then stripBlockIndent (normalizeNewlines body) else body);
         decoded = (if \<not> raw then unescape decoded else decoded);
         tok = newToken STRING decoded
     in if raw \<or> triple then tok\<lparr>Raw := spelling\<rparr> else tok)"

text \<open>The token made of a body, once its scan has ended.\<close>

definition body_token ::
    "Position \<Rightarrow> string \<Rightarrow> string \<Rightarrow> bool \<Rightarrow> scanFault \<Rightarrow> bool \<Rightarrow> bool \<Rightarrow> Token" where
  "body_token bodyStart body spelling terminated fault raw triple =
    (let fault = (case IndexNUL body of
                    Some at \<Rightarrow> fault_or fault (Some (faultNUL, advance bodyStart (take at body)))
                  | None \<Rightarrow> fault);
         (parts, interpolated, holeFault) = (if raw then ([], False, None) else splitTemplate body bodyStart);
         illegal = (\<lambda>f. (newToken ILLEGAL spelling)\<lparr>Raw := spelling, Err := fault_message f\<rparr>)
     in case fault of
           Some f \<Rightarrow> illegal f
         | None \<Rightarrow>
             if \<not> terminated then (newToken UNTERMINATED body)\<lparr>Raw := spelling\<rparr>
             else (case holeFault of
                 Some f \<Rightarrow> illegal f
               | None \<Rightarrow>
                   if interpolated then (newToken TEMPLATE body)\<lparr>Raw := spelling, Parts := decodeParts parts triple\<rparr>
                   else string_token body spelling raw triple))"

definition readStringToken :: "nat \<Rightarrow> bool \<Rightarrow> bool \<Rightarrow> Lexer \<Rightarrow> (Token \<times> Lexer) option" where
  "readStringToken openIndex raw triple l = do {
     (body, terminated, fault, l') \<leftarrow> read_body raw triple l;
     let spelling = substr (input l') openIndex (min (readPosition l') (length (input l')))
     in Some (body_token (bodyPosition triple l) body spelling terminated fault raw triple, l')
   }"

section \<open>Tokens\<close>

definition single :: "TokenType \<Rightarrow> Lexer \<Rightarrow> Token \<times> Lexer" where
  "single ty l = (newToken ty (encode_rune (ch l)), l)"

definition double :: "TokenType \<Rightarrow> Lexer \<Rightarrow> Token \<times> Lexer" where
  "double ty l = (let l1 = readRune l in (newToken ty (encode_rune (ch l) @ encode_rune (ch l1)), l1))"

definition triple_op :: "TokenType \<Rightarrow> Lexer \<Rightarrow> Token \<times> Lexer" where
  "triple_op ty l =
    (let l1 = readRune l; l2 = readRune l1
     in (newToken ty (encode_rune (ch l) @ encode_rune (ch l1) @ encode_rune (ch l2)), l2))"

text \<open>An operator that an equals sign may follow.\<close>

definition with_assign :: "TokenType \<Rightarrow> TokenType \<Rightarrow> Lexer \<Rightarrow> Token \<times> Lexer" where
  "with_assign assigned plain l =
    (if is_ch (peekRune l) CHR ''='' then double assigned l else single plain l)"

definition shift_or_compare ::
    "char \<Rightarrow> TokenType \<Rightarrow> TokenType \<Rightarrow> TokenType \<Rightarrow> TokenType \<Rightarrow> Lexer \<Rightarrow> Token \<times> Lexer" where
  "shift_or_compare c shift_assign shift orEqual plain l =
    (if is_ch (peekRune l) c then
       (if is_ch (peekRune (readRune l)) CHR ''='' then triple_op shift_assign l else double shift l)
     else with_assign orEqual plain l)"

definition plain_operators :: "(char \<times> TokenType) list" where
  "plain_operators = [(CHR ''~'', TILDE), (CHR ''('', LPAREN), (CHR '')'', RPAREN), (CHR ''{'', LBRACE),
     (CHR ''}'', RBRACE), (CHR ''['', LSQUARE), (CHR '']'', RSQUARE), (CHR '','', COMMA),
     (CHR '':'', COLON), (CHR ''.'', DOT), (CHR '';'', SEMICOLON)]"

text \<open>The arms of the switch that read an operator; the cursor is left on its last character.\<close>

definition scan_operator :: "Lexer \<Rightarrow> (Token \<times> Lexer) option" where
  "scan_operator l =
    (let c = ch l; p = peekRune l in
     if is_ch c CHR ''='' then Some
       (if is_ch p CHR ''='' then double EQUALITY l
        else if is_ch p CHR ''>'' then double FATARROW l else single ASSIGN l)
     else if is_ch c CHR ''+'' then Some
       (if is_ch p CHR ''='' then double PLUS_ASSIGN l
        else if is_ch p CHR ''+'' then double INCREMENT l else single PLUS l)
     else if is_ch c CHR ''-'' then Some
       (if is_ch p CHR ''='' then double MINUS_ASSIGN l
        else if is_ch p CHR ''-'' then double DECREMENT l else single MINUS l)
     else if is_ch c CHR ''*'' then Some (with_assign ASTERISK_ASSIGN ASTERISK l)
     else if is_ch c CHR ''/'' then Some (with_assign SLASH_ASSIGN FSLASH l)
     else if is_backslash c then Some
       (let (tok, l') = single ILLEGAL l in (tok\<lparr>Err := faultBackslash\<rparr>, l'))
     else if is_ch c CHR ''%'' then Some (with_assign MODULO_ASSIGN MODULO l)
     else if is_ch c CHR ''<'' then Some (shift_or_compare CHR ''<'' SHL_ASSIGN SHL LTE LT l)
     else if is_ch c CHR ''>'' then Some (shift_or_compare CHR ''>'' SHR_ASSIGN SHR GTE GT l)
     else if is_ch c CHR ''!'' then Some (with_assign INEQUALITY BANG l)
     else if is_ch c CHR ''&'' then Some
       (if is_ch p CHR ''&'' then double AND_AND l else with_assign AND_ASSIGN AMPERSAND l)
     else if is_ch c CHR ''|'' then Some
       (if is_ch p CHR ''|'' then double OR_OR l else with_assign OR_ASSIGN PIPE l)
     else if is_ch c CHR ''^'' then Some (with_assign XOR_ASSIGN CARET l)
     else if c < 128 then map_option (\<lambda>ty. single ty l) (map_of plain_operators (char_of c))
     else None)"

definition is_triple :: "Lexer \<Rightarrow> bool" where
  "is_triple l \<longleftrightarrow> is_quote (peekRune l) \<and> is_quote (peekRuneAt 2 l)"

text \<open>
  What the switch leaves: the token, the cursor, and whether the cursor still stands on the token's
  last character.
\<close>

definition scan_number :: "unicode_tables \<Rightarrow> Lexer \<Rightarrow> (Token \<times> Lexer) option" where
  "scan_number u l = do {
     (val, isFloat, l) \<leftarrow> readNumber u l;
     if IsLetter u (ch l) \<or> is_ch (ch l) CHR ''_'' then do {
       (suffix, l) \<leftarrow> readIdentifier u l;
       Some ((newToken ILLEGAL (val @ suffix))\<lparr>Err := numberFault u val suffix\<rparr>, l)
     } else Some (newToken (if isFloat then FLOAT else INTEGER) val, l)
   }"

definition scan_rest :: "unicode_tables \<Rightarrow> Lexer \<Rightarrow> (Token \<times> Lexer \<times> bool) option" where
  "scan_rest u l =
    (case scan_operator l of
       Some (tok, l') \<Rightarrow> Some (tok, l', True)
     | None \<Rightarrow>
         if is_quote (ch l) then do {
           (tok, l') \<leftarrow> readStringToken (position l) False (is_triple l) l;
           Some (tok, l', True)
         }
         else if ch l = 0 then
           Some ((newToken ILLEGAL (encode_rune (ch l)))\<lparr>Err := fault_message (faultNUL, currentPos l)\<rparr>, l, True)
         else if is_ch (ch l) CHR ''r'' \<and> is_quote (peekRune l) then do {
           (tok, l') \<leftarrow> readStringToken (position l) True (is_triple (readRune l)) (readRune l);
           Some (tok, l', True)
         }
         else if IsLetter u (ch l) \<or> is_ch (ch l) CHR ''_'' then do {
           (lit, l') \<leftarrow> readIdentifier u l;
           Some (newToken (LookupIdent lit) lit, l', False)
         }
         else if IsDigit u (ch l) then do {
           (tok, l') \<leftarrow> scan_number u l;
           Some (tok, l', False)
         }
         else Some (newToken ILLEGAL (encode_rune (ch l)), l, True))"

definition scanToken :: "unicode_tables \<Rightarrow> Lexer \<Rightarrow> (Token \<times> Lexer) option" where
  "scanToken u l0 = do {
     (fault, l) \<leftarrow> skipTrivia l0;
     case fault of
       Some f \<Rightarrow> Some ((newToken ILLEGAL [CHR 0x00])\<lparr>Err := fault_message f, Start := snd f, End := fault_after f\<rparr>, l)
     | None \<Rightarrow>
         if atEOF l then Some ((newToken EOF (encode_rune (ch l)))\<lparr>Start := currentPos l, End := currentPos l\<rparr>, l)
         else do {
           (tok, l', pending) \<leftarrow> scan_rest u l;
           let l' = (if pending then readRune l' else l')
           in Some (tok\<lparr>Start := currentPos l, End := currentPos l'\<rparr>, l')
         }
   }"

definition NextToken :: "unicode_tables \<Rightarrow> Lexer \<Rightarrow> (Token \<times> Lexer) option" where
  "NextToken u l = do {
     (tok, l') \<leftarrow> scanToken u l;
     if tok_Type tok = EOF \<or> Offset (End tok) > Offset (Start tok) then Some (tok, l')
     else let l'' = readRune l'
          in Some (tok\<lparr>tok_Type := ILLEGAL, Literal := encode_rune (ch l'), End := currentPos l''\<rparr>, l'')
   }"

end
