(* ===== verification/LexerProps.thy ===== *)
theory LexerProps
  imports Lexer
begin

text \<open>
  The lexer's cursor: what every scan keeps of it, the exactness of positions, and the guarantee
  that draining the lexer reaches the end of input.
\<close>

section \<open>Runes and newlines\<close>

lemma cont_value_ge: "acc \<le> cont_value acc cs"
proof (induction cs arbitrary: acc)
  case (Cons c cs)
  have "acc \<le> acc * 64 + byte_val c mod 64" by simp
  also have "\<dots> \<le> cont_value (acc * 64 + byte_val c mod 64) cs" by (rule Cons)
  finally show ?case by simp
qed simp

lemma mod_block: "q * m \<le> x \<Longrightarrow> x < Suc q * m \<Longrightarrow> x mod m = x - q * (m :: nat)"
proof -
  assume "q * m \<le> x" "x < Suc q * m"
  then obtain y where "x = q * m + y" "y < m" by (metis add.commute add_less_cancel_left le_Suc_ex mult_Suc)
  then show ?thesis by simp
qed

lemma first_byte_lead:
  assumes "first_byte b = Some (n, lo, hi)" "b \<noteq> 0xE0" "b \<noteq> 0xF0"
  shows "1 \<le> b mod 2 ^ (7 - n)" "n = 2 \<Longrightarrow> 2 \<le> b mod 2 ^ (7 - n)"
proof -
  have "n = 2 \<and> 0xC2 \<le> b \<and> b \<le> 0xDF \<or> n = 3 \<and> 0xE1 \<le> b \<and> b \<le> 0xEF \<or> n = 4 \<and> 0xF1 \<le> b \<and> b \<le> 0xF4"
    using assms unfolding first_byte_def by (simp split: if_split_asm)
  then show "1 \<le> b mod 2 ^ (7 - n)" "n = 2 \<Longrightarrow> 2 \<le> b mod 2 ^ (7 - n)"
    using mod_block [of 6 32 b] mod_block [of 14 16 b] mod_block [of 30 8 b] by auto
qed

lemma seq_value_ge:
  assumes "first_byte b = Some (n, lo, hi)" "lo \<le> byte_val a" "byte_val a \<le> hi" "length (a # cs) = n - 1"
  shows "128 \<le> seq_value n b (a # cs)"
proof (cases cs)
  case Nil
  then have n: "n = 2" using assms(4) by simp
  then have "b \<noteq> 0xE0" "b \<noteq> 0xF0" using assms(1) by (auto simp: first_byte_def)
  then show ?thesis using first_byte_lead(2) [OF assms(1)] n Nil by (simp add: seq_value_def)
next
  case (Cons d ds)
  let ?k = "b mod 2 ^ (7 - n)" let ?x = "?k * 64 + byte_val a mod 64"
  have "16 \<le> ?x"
  proof (cases "b = 0xE0 \<or> b = 0xF0")
    case True
    then have "0x90 \<le> lo \<and> hi \<le> 0xBF" using assms(1) unfolding first_byte_def by auto
    then have "16 \<le> byte_val a mod 64" using assms(2,3) mod_block [of 2 64 "byte_val a"] by (simp, linarith)
    then show ?thesis by simp
  next
    case False
    then show ?thesis using first_byte_lead(1) [OF assms(1)] by simp
  qed
  then have "128 \<le> ?x * 64 + byte_val d mod 64" by simp
  also have "\<dots> \<le> seq_value n b (a # cs)"
    using cont_value_ge [of "?x * 64 + byte_val d mod 64" ds] by (simp add: seq_value_def Cons)
  finally show ?thesis .
qed

text \<open>A rune is one ASCII byte, or not ASCII in any of its bytes.\<close>

lemma DecodeRune_not_ascii_ge:
  assumes "128 \<le> byte_val c"
  shows "128 \<le> fst (DecodeRuneInString (c # cs))"
proof (cases "first_byte (byte_val c)")
  case None
  then show ?thesis using assms by (simp add: DecodeRuneInString_def RuneSelf_def RuneError_def)
next
  case (Some t)
  obtain n lo hi where n: "first_byte (byte_val c) = Some (n, lo, hi)" using Some by (cases t) auto
  let ?t = "take (n - 1) cs"
  show ?thesis
  proof (cases "length ?t = n - 1 \<and> lo \<le> byte_val (hd ?t) \<and> byte_val (hd ?t) \<le> hi \<and> list_all is_cont (tl ?t)")
    case True
    then have "?t = hd ?t # tl ?t" using first_byte_Some [OF n] by (cases ?t) auto
    moreover have "fst (DecodeRuneInString (c # cs)) = seq_value n (byte_val c) ?t"
      using True n assms by (simp add: DecodeRuneInString_def RuneSelf_def)
    ultimately show ?thesis using seq_value_ge [OF n, of "hd ?t" "tl ?t"] True by simp
  next
    case False
    then have "fst (DecodeRuneInString (c # cs)) = RuneError"
      using n assms by (auto simp: DecodeRuneInString_def RuneSelf_def Let_def)
    then show ?thesis by (simp add: RuneError_def)
  qed
qed

lemma DecodeRune_not_ascii_bytes:
  assumes "128 \<le> byte_val c"
  shows "\<forall>x \<in> set (take (snd (DecodeRuneInString (c # cs))) (c # cs)). 128 \<le> byte_val x"
proof (cases "2 \<le> snd (DecodeRuneInString (c # cs))")
  case True
  then show ?thesis
  proof (rule DecodeRune_multi)
    fix d tail rest
    assume "c # cs = d # tail @ rest" "list_all is_cont tail" "Suc (length tail) = snd (DecodeRuneInString (c # cs))"
    moreover from this have "take (snd (DecodeRuneInString (c # cs))) (c # cs) = d # tail"
      by (metis append_Cons append_eq_conv_conj length_Cons)
    ultimately show ?thesis using assms by (auto simp: is_cont_def list_all_iff)
  qed
next
  case False
  then have "snd (DecodeRuneInString (c # cs)) = 1" using DecodeRune_size [of "c # cs"] by simp
  then show ?thesis using assms by simp
qed

lemma DecodeRune_ascii: "byte_val c < 128 \<Longrightarrow> DecodeRuneInString (c # cs) = (byte_val c, 1)"
  by (simp add: DecodeRuneInString_def RuneSelf_def)

abbreviation newline :: char where
  "newline \<equiv> CHR 0x0A"

definition newlines :: "string \<Rightarrow> nat" where
  "newlines s = length (filter (\<lambda>c. c = newline) s)"

definition line_start :: "string \<Rightarrow> nat" where
  "line_start s = length s - length (takeWhile (\<lambda>c. c \<noteq> newline) (rev s))"

lemma newlines_append [simp]: "newlines (s @ t) = newlines s + newlines t"
  by (simp add: newlines_def)

lemma newlines_simps [simp]: "newlines [] = 0" "newlines [newline] = 1"
  by (simp_all add: newlines_def)

lemma newlines_none: "newline \<notin> set t \<Longrightarrow> newlines t = 0"
  by (auto simp: newlines_def filter_empty_conv)

lemma line_start_Nil [simp]: "line_start [] = 0"
  by (simp add: line_start_def)

lemma line_start_newline [simp]: "line_start (s @ [newline]) = Suc (length s)"
  by (simp add: line_start_def)

lemma line_start_none: "newline \<notin> set t \<Longrightarrow> line_start (s @ t) = line_start s"
proof (induction t rule: rev_induct)
  case (snoc c t)
  then have "c \<noteq> newline" by auto
  then have "line_start (s @ t @ [c]) = line_start (s @ t)" by (simp add: line_start_def)
  then show ?case using snoc by simp
qed simp

lemma line_start_0: "line_start s = 0 \<longleftrightarrow> newline \<notin> set s"
proof (induction s rule: rev_induct)
  case (snoc c s)
  then show ?case using line_start_none [of "[c]" s] by (cases "c = newline") auto
qed simp

lemma byte_val_newline: "byte_val c = 10 \<longleftrightarrow> c = newline"
proof -
  have "byte_val newline = (10 :: nat)" by code_simp
  then show ?thesis by (metis of_char_eq_iff)
qed

lemma advance_snoc: "advance p (s @ [c]) = advance_byte (advance p s) c"
  by (simp add: advance_def)

lemma advance_closed:
  "advance p s = \<lparr>Line = Line p + int (newlines s),
     Column = (if line_start s = 0 then Column p + int (length s) else int (length s) - int (line_start s) + 1),
     Offset = Offset p + int (length s)\<rparr>"
proof (induction s rule: rev_induct)
  case Nil
  show ?case by (simp add: advance_def)
next
  case (snoc c s)
  show ?case
  proof (cases "c = newline")
    case True
    then show ?thesis unfolding advance_snoc snoc by (simp add: advance_byte_def byte_val_newline Let_def)
  next
    case False
    then have "line_start (s @ [c]) = line_start s" "newlines [c] = 0"
      by (simp_all add: line_start_none newlines_none)
    then show ?thesis unfolding advance_snoc snoc using False
      by (simp add: advance_byte_def byte_val_newline Let_def)
  qed
qed

section \<open>The cursor invariant\<close>

text \<open>
  The cursor stands on the rune that starts at its position, or past the end on the zero rune; the
  line counters describe the text before it.
\<close>

definition lex_inv :: "Lexer \<Rightarrow> bool" where
  "lex_inv l \<longleftrightarrow> position l \<le> length (input l) \<and>
     (if atEOF l then ch l = 0 \<and> length (input l) \<le> readPosition l
      else (ch l, readPosition l - position l) = DecodeRuneInString (drop (position l) (input l)) \<and>
           position l < readPosition l) \<and>
     line l = 1 + int (newlines (take (position l) (input l))) \<and>
     lineStart l = line_start (take (position l) (input l))"

lemma lex_inv_rune:
  assumes "lex_inv l" "\<not> atEOF l"
  obtains c cs w where "drop (position l) (input l) = c # cs" "DecodeRuneInString (c # cs) = (ch l, w)"
    "0 < w" "readPosition l = position l + w" "position l + w \<le> length (input l)"
proof -
  have ne: "drop (position l) (input l) \<noteq> []" using assms(2) by (simp add: atEOF_def)
  then obtain c cs where cs: "drop (position l) (input l) = c # cs" by (cases "drop (position l) (input l)") auto
  let ?w = "snd (DecodeRuneInString (c # cs))"
  have "DecodeRuneInString (c # cs) = (ch l, ?w)" "readPosition l = position l + ?w"
    using assms cs unfolding lex_inv_def by (metis fst_conv snd_conv prod.collapse, metis add_diff_inverse_nat less_imp_not_less snd_conv)
  moreover have "0 < ?w" "?w \<le> length (drop (position l) (input l))" using DecodeRune_size [OF ne] cs by auto
  moreover have "position l < length (input l)" using assms(2) by (simp add: atEOF_def)
  ultimately show ?thesis using that [OF cs, of ?w] by simp
qed

lemma take_rune:
  assumes "drop n s = c # cs" "w \<le> length (c # cs)"
  shows "take (n + w) s = take n s @ take w (c # cs)"
  using assms by (simp add: take_add)

lemma readRune_fields [simp]: "input (readRune l) = input l" "origin (readRune l) = origin l" "comments (readRune l) = comments l"
  by (simp_all add: readRune_def Let_def case_prod_unfold)

lemma position_readRune: "position (readRune l) = min (readPosition l) (length (input l))"
  by (simp add: readRune_def Let_def case_prod_unfold)

lemma readPosition_readRune:
  "readPosition (readRune l) = readPosition l + (if readPosition l \<ge> length (input l) then 1
     else snd (DecodeRuneInString (drop (readPosition l) (input l))))"
  by (simp add: readRune_def Let_def case_prod_unfold)

lemma ch_readRune:
  "ch (readRune l) = (if readPosition l \<ge> length (input l) then 0
     else fst (DecodeRuneInString (drop (readPosition l) (input l))))"
  by (simp add: readRune_def Let_def case_prod_unfold)

lemma line_readRune:
  "line (readRune l) = (if ch l = 10 then line l + 1 else line l)"
  "lineStart (readRune l) = (if ch l = 10 then readPosition l else lineStart l)"
  by (simp_all add: readRune_def Let_def case_prod_unfold)

text \<open>The line counters after one rune.\<close>

lemma rune_lines:
  assumes "DecodeRuneInString (c # cs) = (r, w)" "w \<le> length (c # cs)"
  shows "newlines (take w (c # cs)) = (if r = 10 then 1 else 0)"
    "line_start (s @ take w (c # cs)) = (if r = 10 then length s + w else line_start s)"
proof -
  have "newlines (take w (c # cs)) = (if r = 10 then 1 else 0) \<and>
      line_start (s @ take w (c # cs)) = (if r = 10 then length s + w else line_start s)"
  proof (cases "byte_val c < 128")
    case True
    then have rw: "r = byte_val c" "w = 1" using assms(1) DecodeRune_ascii by auto
    show ?thesis
    proof (cases "c = newline")
      case True
      then show ?thesis using rw byte_val_newline by simp
    next
      case False
      then have "newline \<notin> set [c]" by simp
      then show ?thesis using rw False byte_val_newline newlines_none [of "[c]"] line_start_none [of "[c]" s] by simp
    qed
  next
    case False
    then have "128 \<le> r" "\<forall>x \<in> set (take w (c # cs)). 128 \<le> byte_val x"
      using DecodeRune_not_ascii_ge [of c cs] DecodeRune_not_ascii_bytes [of c cs] assms(1) by simp_all
    moreover from this have "newline \<notin> set (take w (c # cs))"
      using byte_val_newline by (metis numeral_le_iff semiring_norm(68,69,70,71,72,73) not_less numeral_less_iff)
    ultimately show ?thesis using newlines_none line_start_none by auto
  qed
  then show "newlines (take w (c # cs)) = (if r = 10 then 1 else 0)"
    "line_start (s @ take w (c # cs)) = (if r = 10 then length s + w else line_start s)" by blast+
qed

lemma lex_inv_readRune: "lex_inv l \<Longrightarrow> lex_inv (readRune l)"
proof (cases "atEOF l")
  case True
  assume inv: "lex_inv l"
  then have "position (readRune l) = position l" "ch l = 0" "length (input l) \<le> readPosition l" "position l = length (input l)"
    using True by (auto simp: lex_inv_def position_readRune atEOF_def)
  then show ?thesis using inv
    by (simp add: lex_inv_def atEOF_def ch_readRune readPosition_readRune line_readRune)
next
  case False
  assume inv: "lex_inv l"
  from lex_inv_rune [OF inv False] obtain c cs w where r: "drop (position l) (input l) = c # cs"
    "DecodeRuneInString (c # cs) = (ch l, w)" "0 < w" "readPosition l = position l + w" "position l + w \<le> length (input l)" .
  have len: "w \<le> length (c # cs)" using r(1,5) by (metis add_le_imp_le_diff add.commute length_drop)
  have p: "position (readRune l) = position l + w" using r by (simp add: position_readRune)
  have tk: "take (position l + w) (input l) = take (position l) (input l) @ take w (c # cs)"
    by (rule take_rune [OF r(1) len])
  have lp: "length (take (position l) (input l)) = position l" using r(5) by simp
  have lines: "line (readRune l) = 1 + int (newlines (take (position (readRune l)) (input l)))"
    "lineStart (readRune l) = line_start (take (position (readRune l)) (input l))"
    using inv rune_lines(1) [OF r(2) len] rune_lines(2) [OF r(2) len, of "take (position l) (input l)"] lp r(4)
    by (auto simp: p tk line_readRune lex_inv_def)
  show ?thesis
  proof (cases "length (input l) \<le> position l + w")
    case True
    then show ?thesis using lines p r(4,5) by (simp add: lex_inv_def atEOF_def ch_readRune readPosition_readRune)
  next
    case False
    then have "0 < snd (DecodeRuneInString (drop (position l + w) (input l)))" using DecodeRune_size by simp
    then show ?thesis using False lines p r(4,5)
      by (simp add: lex_inv_def atEOF_def ch_readRune readPosition_readRune)
  qed
qed


lemma lex_inv_NewAt: "lex_inv (NewAt inp at)" "input (NewAt inp at) = inp" "origin (NewAt inp at) = at"
  "position (NewAt inp at) = 0"
  using DecodeRune_size [of inp]
  by (auto simp: NewAt_def lex_inv_def atEOF_def position_readRune ch_readRune readPosition_readRune line_readRune)

section \<open>Scans move the cursor forward\<close>

inductive runs :: "Lexer \<Rightarrow> Lexer \<Rightarrow> bool" where
  refl [simp, intro]: "runs l l"
| step [intro]: "runs l l' \<Longrightarrow> runs l (readRune l')"
| note_comment: "runs l l' \<Longrightarrow> runs l (l'\<lparr>comments := cs\<rparr>)"

lemma runs_trans: "runs b c \<Longrightarrow> runs a b \<Longrightarrow> runs a c"
  by (induction rule: runs.induct) (auto intro: runs.note_comment)

lemma lex_inv_comments [simp]: "lex_inv (l\<lparr>comments := cs\<rparr>) = lex_inv l"
  by (simp add: lex_inv_def atEOF_def)

lemma position_readRune_ge: "lex_inv l \<Longrightarrow> position l \<le> position (readRune l)"
  by (cases "atEOF l") (auto simp: position_readRune lex_inv_def atEOF_def)

lemma position_readRune_gt: "lex_inv l \<Longrightarrow> \<not> atEOF l \<Longrightarrow> position l < position (readRune l)"
  by (auto simp: position_readRune lex_inv_def atEOF_def)

lemma runs_inv: "runs l l' \<Longrightarrow> lex_inv l \<Longrightarrow>
   lex_inv l' \<and> input l' = input l \<and> origin l' = origin l \<and> position l \<le> position l'"
  by (induction rule: runs.induct)
     (auto simp: lex_inv_readRune intro: order_trans [OF _ position_readRune_ge])

lemma runs_readRune: "runs l (readRune l)"
  by blast

section \<open>Scans return\<close>

lemma returns_runs: "returns m (\<lambda>r. runs l' (f r)) \<Longrightarrow> runs l l' \<Longrightarrow> returns m (\<lambda>r. runs l (f r))"
  using runs_trans by (auto simp: returns_def)

text \<open>The bytes a scan has left, which every rune it reads makes fewer.\<close>

definition left :: "Lexer \<Rightarrow> nat" where
  "left l = length (input l) - position l"

lemma lex_inv_end: "lex_inv l \<Longrightarrow> atEOF l \<Longrightarrow> ch l = 0"
  by (simp add: lex_inv_def)

lemma runs_lex_inv: "runs l l' \<Longrightarrow> lex_inv l \<Longrightarrow> lex_inv l'"
  using runs_inv by blast

lemma runs_position: "runs l l' \<Longrightarrow> lex_inv l \<Longrightarrow> position l \<le> position l'"
  using runs_inv by blast

lemma lex_inv_position: "lex_inv l \<Longrightarrow> position l \<le> length (input l)"
  by (simp add: lex_inv_def)

lemma runs_left: "runs l l' \<Longrightarrow> lex_inv l \<Longrightarrow> left l' \<le> left l"
  using runs_inv [of l l'] by (auto simp: left_def)

lemma moved_left: "runs l l' \<Longrightarrow> lex_inv l \<Longrightarrow> position l < position l' \<Longrightarrow> left l' < left l"
  using runs_inv [of l l'] lex_inv_position [of l'] by (auto simp: left_def)

lemma readRune_left: "lex_inv l \<Longrightarrow> \<not> atEOF l \<Longrightarrow> left (readRune l) < left l"
  by (rule moved_left [OF runs_readRune _ position_readRune_gt])

lemma atEOF_readRune: "lex_inv l \<Longrightarrow> atEOF l \<Longrightarrow> atEOF (readRune l)"
  using position_readRune_ge [of l] by (simp add: atEOF_def)

lemma next_left: "lex_inv l \<Longrightarrow> \<not> atEOF (readRune l) \<Longrightarrow> left (readRune l) < left l"
  using readRune_left atEOF_readRune by blast

text \<open>The step that the loops over a body share: they read a rune, stop at the end of the input, and go on.\<close>

lemma next_returns:
  assumes "\<And>x. left x < left l \<Longrightarrow> lex_inv x \<Longrightarrow> returns (m x) (\<lambda>r. runs x (f r))"
    and "lex_inv l" "\<not> atEOF (readRune l)" "runs (readRune l) x"
  shows "returns (m x) (\<lambda>r. runs l (f r))"
proof -
  have "lex_inv (readRune l)" using lex_inv_readRune [OF assms(2)] .
  then have "left x < left l" "lex_inv x"
    using runs_left [OF assms(4)] runs_lex_inv [OF assms(4)] next_left [OF assms(2,3)] by auto
  then show ?thesis using returns_runs [OF assms(1)] runs_trans [OF assms(4) runs_readRune] by blast
qed

lemma read_while_returns:
  assumes "\<And>l. lex_inv l \<Longrightarrow> atEOF l \<Longrightarrow> \<not> P l"
  shows "lex_inv l \<Longrightarrow> returns (read_while P l) (\<lambda>l'. runs l l' \<and> (P l \<longrightarrow> position l < position l'))"
proof (induction "left l" arbitrary: l rule: less_induct)
  case less
  show ?case
  proof (cases "P l")
    case True
    then have ne: "\<not> atEOF l" using assms less.prems by blast
    let ?a = "readRune l"
    have inv: "lex_inv ?a" using lex_inv_readRune [OF less.prems] .
    have "returns (read_while P ?a) (\<lambda>l'. runs ?a l' \<and> (P ?a \<longrightarrow> position ?a < position l'))"
      by (rule less.hyps [OF readRune_left [OF less.prems ne] inv])
    then have "returns (read_while P ?a) (\<lambda>l'. runs l l' \<and> position l < position l')"
      by (rule returns_mono) (use runs_trans [OF _ runs_readRune] runs_position [OF _ inv] position_readRune_gt [OF less.prems ne] in fastforce)
    then show ?thesis using True by (subst read_while.simps) (auto elim: returns_mono)
  qed (subst read_while.simps, simp)
qed

lemma read_while_runs:
  assumes "\<And>l. lex_inv l \<Longrightarrow> atEOF l \<Longrightarrow> \<not> P l" "lex_inv l"
  shows "returns (read_while P l) (runs l)"
  using read_while_returns [of P, OF assms] by (auto simp: returns_def)

lemma number_loop_returns:
  "lex_inv l \<Longrightarrow> returns (number_loop u f l) (\<lambda>r. runs l (snd r) \<and>
     (IsDigit u (ch l) \<and> \<not> is_ch (ch l) CHR ''.'' \<longrightarrow> position l < position (snd r)))"
proof (induction "left l" arbitrary: l f rule: less_induct)
  case less
  show ?case
  proof (cases "IsDigit u (ch l) \<or> is_ch (ch l) CHR ''.''")
    case True
    have ne: "\<not> atEOF l" using lex_inv_end [OF less.prems] True by (auto simp: IsDigit_def is_ch_def)
    let ?a = "readRune l"
    have inv: "lex_inv ?a" using lex_inv_readRune [OF less.prems] .
    have IH: "returns (number_loop u g ?a) (\<lambda>r. runs l (snd r) \<and> position l < position (snd r))" for g
      by (rule returns_mono [OF less.hyps [OF readRune_left [OF less.prems ne] inv, of g]])
        (use runs_trans [OF _ runs_readRune] runs_position [OF _ inv] position_readRune_gt [OF less.prems ne] in fastforce)
    then have weak: "returns (number_loop u g ?a) (\<lambda>r. runs l (snd r))" for g by (rule returns_mono) simp
    show ?thesis using True IH weak by (subst number_loop.simps) auto
  qed (subst number_loop.simps, simp)
qed

lemma readIdentifier_returns:
  assumes "lex_inv l"
  shows "returns (readIdentifier u l) (\<lambda>r. runs l (snd r) \<and> (ident_part u l \<longrightarrow> position l < position (snd r)))"
proof -
  have "\<not> ident_part u l" if "lex_inv l" "atEOF l" for l
    using lex_inv_end [OF that] by (simp add: ident_part_def IsLetter_def IsDigit_def is_ch_def)
  then show ?thesis using read_while_returns [OF _ assms, of "ident_part u"] by (simp add: readIdentifier_def)
qed

lemma skipWhiteSpace_returns: "lex_inv l \<Longrightarrow> returns (skipWhiteSpace l) (runs l)"
  unfolding skipWhiteSpace_def by (rule read_while_runs) (simp_all add: lex_inv_end IsSpace_def)

lemma skipLineComment_returns:
  assumes "lex_inv l" "is_ch (ch l) CHR ''/''"
  shows "returns (skipLineComment l) (\<lambda>r. runs l (snd r) \<and> position l < position (snd r))"
proof -
  have "ch l \<noteq> 10 \<and> \<not> atEOF l" using assms lex_inv_end [OF assms(1)] by (auto simp: is_ch_def)
  moreover have "returns (read_while (\<lambda>l. ch l \<noteq> 10 \<and> \<not> atEOF l) l)
      (\<lambda>l'. runs l l' \<and> (ch l \<noteq> 10 \<and> \<not> atEOF l \<longrightarrow> position l < position l'))"
    by (rule read_while_returns [OF _ assms(1)]) simp
  ultimately have "returns (read_while (\<lambda>l. ch l \<noteq> 10 \<and> \<not> atEOF l) l) (\<lambda>l'. runs l l' \<and> position l < position l')"
    by (auto elim: returns_mono)
  then show ?thesis unfolding skipLineComment_def returns_bind
    by (rule returns_mono) (auto simp: Let_def case_prod_unfold intro: runs.note_comment split: option.split)
qed

lemma trivia_loop_returns:
  "lex_inv l \<Longrightarrow> returns (trivia_loop f l) (\<lambda>r. runs l (snd r) \<and> (fst r = f \<or> position l < position (snd r)))"
proof (induction "left l" arbitrary: f l rule: less_induct)
  case less
  show ?case unfolding trivia_loop.simps [of f l] returns_bind
  proof (rule returns_mono [OF skipWhiteSpace_returns [OF less.prems]], goal_cases)
    case w: (1 w)
    have inv: "lex_inv w" using runs_lex_inv [OF w less.prems] .
    have IH: "returns (trivia_loop g c) (\<lambda>r. runs l (snd r) \<and> position l < position (snd r))"
      if c: "runs w c" "position w < position c" for c g
    proof -
      have lc: "runs l c" "position l < position c" using runs_trans [OF c(1) w] runs_position [OF w less.prems] c(2) by auto
      have ci: "lex_inv c" using runs_lex_inv [OF c(1) inv] .
      show ?thesis
        by (rule returns_mono [OF less.hyps [OF moved_left [OF lc(1) less.prems lc(2)] ci]])
          (use runs_trans [OF _ lc(1)] runs_position [OF _ ci] lc(2) in fastforce)
    qed
    show ?case
    proof (cases "is_ch (ch w) CHR ''/'' \<and> is_ch (peekRune w) CHR ''/''")
      case True
      then have "returns (skipLineComment w) (\<lambda>r. returns (trivia_loop (fault_or f (fst r)) (snd r))
          (\<lambda>r. runs l (snd r) \<and> position l < position (snd r)))"
        using skipLineComment_returns [OF inv] IH by (auto elim: returns_mono)
      then show ?thesis using True by (auto simp: case_prod_unfold elim!: returns_mono)
    qed (use w in auto)
  qed
qed

lemma skip_string_returns: "lex_inv l \<Longrightarrow> returns (skip_string l) (\<lambda>r. runs l (snd r))"
proof (induction "left l" arbitrary: l rule: less_induct)
  case less
  let ?a = "readRune l"
  show ?case
  proof (cases "atEOF ?a")
    case False
    have IH: "returns (skip_string x) (\<lambda>r. runs l (snd r))" if "runs ?a x" for x
      using next_returns [OF less.hyps less.prems False that] by blast
    then show ?thesis using IH runs_readRune by (subst skip_string.simps) (auto simp: Let_def)
  qed (subst skip_string.simps, simp add: Let_def runs_readRune)
qed

lemma hole_loop_returns: "lex_inv l \<Longrightarrow> returns (hole_loop d l) (\<lambda>r. runs l (snd r))"
proof (induction "left l" arbitrary: l d rule: less_induct)
  case less
  let ?a = "readRune l"
  show ?case
  proof (cases "atEOF ?a")
    case False
    have inv: "lex_inv ?a" using lex_inv_readRune [OF less.prems] .
    have IH: "returns (hole_loop d x) (\<lambda>r. runs l (snd r))" if "runs ?a x" for d x
      by (rule next_returns [where m = "hole_loop d", OF less.hyps less.prems False that]) assumption+
    have "returns (skip_string ?a) (\<lambda>r. returns (if fst r then hole_loop d (snd r) else Some (False, snd r)) (\<lambda>r. runs l (snd r)))"
      using skip_string_returns [OF inv] by (rule returns_mono) (use IH runs_trans [OF _ runs_readRune] in auto)
    then show ?thesis using IH runs_readRune by (subst hole_loop.simps) (auto simp: Let_def case_prod_unfold)
  qed (subst hole_loop.simps, simp add: Let_def runs_readRune)
qed

lemma skipHole_returns: "lex_inv l \<Longrightarrow> returns (skipHole l) (\<lambda>r. runs l (snd r))"
  using returns_runs [OF hole_loop_returns [OF lex_inv_readRune [of l]] runs_readRune]
  by (simp add: skipHole_def case_prod_unfold)

lemma quoted_loop_returns: "lex_inv l \<Longrightarrow> returns (quoted_loop f l) (\<lambda>r. runs l (snd (snd r)))"
proof (induction "left l" arbitrary: l f rule: less_induct)
  case less
  let ?a = "readRune l"
  show ?case
  proof (cases "atEOF ?a")
    case False
    have inv: "lex_inv ?a" using lex_inv_readRune [OF less.prems] .
    have IH: "returns (quoted_loop f x) (\<lambda>r. runs l (snd (snd r)))" if "runs ?a x" for f x
      by (rule next_returns [where m = "quoted_loop f", OF less.hyps less.prems False that]) assumption+
    have "returns (skipHole ?a) (\<lambda>r. returns (quoted_loop (fault_or f (fst r)) (snd r)) (\<lambda>r. runs l (snd (snd r))))"
      using skipHole_returns [OF inv] by (rule returns_mono) (rule IH)
    then show ?thesis using IH runs_readRune by (subst quoted_loop.simps) (auto simp: Let_def case_prod_unfold)
  qed (subst quoted_loop.simps, simp add: Let_def runs_readRune)
qed

lemma raw_loop_returns: "lex_inv l \<Longrightarrow> returns (raw_loop l) (\<lambda>r. runs l (snd r))"
proof (induction "left l" arbitrary: l rule: less_induct)
  case less
  let ?a = "readRune l"
  show ?case
  proof (cases "atEOF ?a")
    case False
    have "returns (raw_loop ?a) (\<lambda>r. runs l (snd r))"
      using less.hyps [OF next_left [OF less.prems False] lex_inv_readRune [OF less.prems]] runs_readRune by (rule returns_runs)
    then show ?thesis using runs_readRune by (subst raw_loop.simps) (auto simp: Let_def)
  qed (subst raw_loop.simps, simp add: Let_def runs_readRune)
qed

lemma triple_loop_returns: "lex_inv l \<Longrightarrow> returns (triple_loop raw l) (\<lambda>r. runs l (snd (snd r)))"
proof (induction "left l" arbitrary: l rule: less_induct)
  case less
  let ?a = "readRune l"
  have steps: "runs l ?a" "runs l (readRune (readRune ?a))" by (blast intro: runs.step runs.refl)+
  show ?case
  proof (cases "atEOF ?a")
    case False
    have IH: "returns (triple_loop raw x) (\<lambda>r. runs l (snd (snd r)))" if "runs ?a x" for x
      using next_returns [OF less.hyps less.prems False that] by blast
    then show ?thesis using steps runs_readRune by (subst triple_loop.simps) (auto simp: Let_def)
  qed (subst triple_loop.simps, simp add: Let_def runs_readRune)
qed

lemma read_body_returns:
  assumes "lex_inv l"
  shows "returns (read_body raw triple l) (\<lambda>r. runs l (snd (snd (snd r))))"
proof -
  have "runs l (readRune (readRune l))" by (blast intro: runs.step runs.refl)
  then have "returns (triple_loop raw (readRune (readRune l))) (\<lambda>r. runs l (snd (snd r)))"
    using returns_runs [OF triple_loop_returns [OF runs_lex_inv [OF _ assms]]] by blast
  then show ?thesis using raw_loop_returns [OF assms] quoted_loop_returns [OF assms]
    by (simp add: read_body_def readTripleBody_def readRawBody_def readQuotedBody_def Let_def case_prod_unfold)
qed

section \<open>Every token moves on\<close>

named_theorems runs_intros

lemma runs_operators [runs_intros]:
  "runs l0 l \<Longrightarrow> runs l0 (snd (single ty l))" "runs l0 l \<Longrightarrow> runs l0 (snd (double ty l))"
  "runs l0 l \<Longrightarrow> runs l0 (snd (triple_op ty l))"
  by (simp_all add: single_def double_def triple_op_def Let_def runs.step)

lemma if_option_SomeE: "(if b then x else y) = Some p \<Longrightarrow> (b \<Longrightarrow> x = Some p \<Longrightarrow> R) \<Longrightarrow> (\<not> b \<Longrightarrow> y = Some p \<Longrightarrow> R) \<Longrightarrow> R"
  by (cases b) auto

lemma runs_with_assign [runs_intros]: "runs l0 l \<Longrightarrow> runs l0 (snd (with_assign a b l))"
  by (simp add: with_assign_def runs_operators)

lemma runs_shift [runs_intros]: "runs l0 l \<Longrightarrow> runs l0 (snd (shift_or_compare c a b d e l))"
  by (simp add: shift_or_compare_def runs_operators runs_with_assign)

lemma runs_scan_operator: "runs l0 l \<Longrightarrow> scan_operator l = Some p \<Longrightarrow> runs l0 (snd p)"
  unfolding scan_operator_def Let_def case_prod_unfold
  by (elim if_option_SomeE; clarsimp simp: runs_intros split: if_split)

lemma not_dot: "scan_operator l = None \<Longrightarrow> \<not> is_ch (ch l) CHR ''.''"
proof
  assume none: "scan_operator l = None" and "is_ch (ch l) CHR ''.''"
  then have c: "ch l = 46" by (simp add: is_ch_def)
  have "char_of (46 :: nat) = CHR ''.''" by code_simp
  then have "scan_operator l = Some (single DOT l)"
    by (simp add: scan_operator_def c is_ch_def is_backslash_def plain_operators_def)
  with none show False by simp
qed

lemma currentPos_Offset: "Offset (currentPos l) = int (position l) + Offset (origin l)"
  by (simp add: currentPos_def Let_def)

text \<open>No rule of the switch makes an end-of-file token.\<close>

lemma type_newToken [simp]: "tok_Type (newToken ty lit) = ty"
  by (simp add: newToken_def)

lemma type_operators [simp]:
  "tok_Type (fst (single ty l)) = ty" "tok_Type (fst (double ty l)) = ty" "tok_Type (fst (triple_op ty l)) = ty"
  by (simp_all add: single_def double_def triple_op_def Let_def)

lemma type_with_assign: "a \<noteq> EOF \<Longrightarrow> b \<noteq> EOF \<Longrightarrow> tok_Type (fst (with_assign a b l)) \<noteq> EOF"
  by (simp add: with_assign_def)

lemma type_shift: "a \<noteq> EOF \<Longrightarrow> b \<noteq> EOF \<Longrightarrow> d \<noteq> EOF \<Longrightarrow> e \<noteq> EOF \<Longrightarrow> tok_Type (fst (shift_or_compare c a b d e l)) \<noteq> EOF"
  by (simp add: shift_or_compare_def type_with_assign)

lemma type_plain: "map_of plain_operators c = Some ty \<Longrightarrow> ty \<noteq> EOF"
  by (auto simp: plain_operators_def split: if_splits)

lemma type_scan_operator: "scan_operator l = Some p \<Longrightarrow> tok_Type (fst p) \<noteq> EOF"
  unfolding scan_operator_def Let_def case_prod_unfold
  by (elim if_option_SomeE; clarsimp simp: type_with_assign type_shift type_plain split: if_splits)

lemma type_body_token: "tok_Type (body_token p body spelling terminated fault raw triple) \<noteq> EOF"
  by (simp add: body_token_def string_token_def Let_def case_prod_unfold split: option.split)

lemma type_LookupIdent: "LookupIdent s \<noteq> EOF"
  by (simp add: LookupIdent_def keyword_table_def)

lemma readStringToken_returns:
  "lex_inv l \<Longrightarrow> returns (readStringToken i raw triple l) (\<lambda>r. runs l (snd r) \<and> tok_Type (fst r) \<noteq> EOF)"
  using read_body_returns [of l raw triple] type_body_token
  by (simp add: readStringToken_def Let_def case_prod_unfold)

lemma scan_number_returns:
  assumes "lex_inv l" "IsDigit u (ch l)" "\<not> is_ch (ch l) CHR ''.''"
  shows "returns (scan_number u l) (\<lambda>r. runs l (snd r) \<and> tok_Type (fst r) \<noteq> EOF \<and> position l < position (snd r))"
proof -
  have "returns (readNumber u l) (\<lambda>r. runs l (snd (snd r)) \<and> position l < position (snd (snd r)))"
    using number_loop_returns [OF assms(1), of u False] assms(2,3) by (auto simp: readNumber_def case_prod_unfold elim: returns_mono)
  then show ?thesis unfolding scan_number_def returns_bind
  proof (rule returns_mono, goal_cases)
    case r: (1 r)
    let ?n = "snd (snd r)"
    have inv: "lex_inv ?n" using r runs_lex_inv [OF _ assms(1)] by blast
    have "returns (readIdentifier u ?n) (\<lambda>q. runs l (snd q) \<and> position l < position (snd q))"
      by (rule returns_mono [OF readIdentifier_returns [OF inv]])
        (use r runs_trans [of ?n _ l] runs_position [OF _ inv] in fastforce)
    then show ?case
      using r by (auto simp: case_prod_unfold)
  qed
qed

text \<open>A cursor left on a token's last character has moved on once the next rune is read.\<close>

lemma pending_progress:
  assumes "lex_inv l" "\<not> atEOF l" "runs l l'"
  shows "position l < position (readRune l')"
proof (cases "atEOF l'")
  case True
  then have "position l < position l'" using runs_inv [OF assms(3,1)] assms(2) by (auto simp: atEOF_def)
  then show ?thesis using position_readRune_ge [OF runs_lex_inv [OF assms(3,1)]] by linarith
next
  case False
  then show ?thesis using position_readRune_gt [OF runs_lex_inv [OF assms(3,1)]] runs_position [OF assms(3,1)] by linarith
qed

definition past :: "Token \<times> Lexer \<times> bool \<Rightarrow> Lexer" where
  "past r = (if snd (snd r) then readRune (fst (snd r)) else fst (snd r))"

lemma scan_rest_returns:
  assumes inv: "lex_inv l" and ne: "\<not> atEOF l"
  shows "returns (scan_rest u l) (\<lambda>r. runs l (past r) \<and> tok_Type (fst r) \<noteq> EOF \<and> position l < position (past r))"
proof (cases "scan_operator l")
  case (Some p)
  then have "runs l (snd p)" "tok_Type (fst p) \<noteq> EOF" using runs_scan_operator type_scan_operator by blast+
  then show ?thesis using Some pending_progress [OF inv ne]
    by (auto simp: scan_rest_def past_def case_prod_unfold intro: runs.step)
next
  case None
  have pend: "runs l l' \<Longrightarrow> runs l (readRune l') \<and> position l < position (readRune l')" for l'
    using pending_progress [OF inv ne] by (blast intro: runs.step)
  have str: "returns (readStringToken i raw triple x) (\<lambda>r. runs l (snd r) \<and> tok_Type (fst r) \<noteq> EOF)" if "runs l x" for i raw triple x
    by (rule returns_mono [OF readStringToken_returns [OF runs_lex_inv [OF that inv]]]) (use runs_trans [OF _ that] in blast)
  have strs: "returns (readStringToken i raw triple x) (\<lambda>r. runs l (readRune (snd r)) \<and> tok_Type (fst r) \<noteq> EOF \<and>
      position l < position (readRune (snd r)))" if "runs l x" for i raw triple x
    by (rule returns_mono [OF str [OF that]]) (use pend in blast)
  have ident: "IsLetter u (ch l) \<or> is_ch (ch l) CHR ''_'' \<Longrightarrow> returns (readIdentifier u l) (\<lambda>r. runs l (snd r) \<and> position l < position (snd r))"
    using readIdentifier_returns [OF inv, of u] by (auto simp: ident_part_def elim: returns_mono)
  note num = scan_number_returns [OF inv _ not_dot [OF None], of u]
  show ?thesis
    using None strs [OF runs.refl] strs [OF runs_readRune] ident num pend [OF runs.refl] type_LookupIdent
    by (simp add: scan_rest_def past_def case_prod_unfold)
qed

lemma scanToken_returns:
  assumes inv: "lex_inv l"
  shows "returns (scanToken u l) (\<lambda>(tok, l'). runs l l' \<and> (if tok_Type tok = EOF then atEOF l'
    else position l < position l' \<and> Offset (Start tok) < Offset (End tok)))"
  unfolding scanToken_def returns_bind skipTrivia_def
proof (rule returns_mono [OF trivia_loop_returns [OF inv]], goal_cases)
  case r: (1 r)
  let ?t = "snd r"
  have ti: "lex_inv ?t" "position l \<le> position ?t" using r runs_inv [OF _ inv] by blast+
  have rest: "returns (scan_rest u ?t) (\<lambda>q. runs l (past q) \<and> tok_Type (fst q) \<noteq> EOF \<and> position l < position (past q) \<and>
      Offset (currentPos ?t) < Offset (currentPos (past q)))" if "\<not> atEOF ?t"
  proof (rule returns_mono [OF scan_rest_returns [OF ti(1) that]])
    fix q assume q: "runs ?t (past q) \<and> tok_Type (fst q) \<noteq> EOF \<and> position ?t < position (past q)"
    then have "origin (past q) = origin ?t" using runs_inv [OF _ ti(1)] by blast
    then show "runs l (past q) \<and> tok_Type (fst q) \<noteq> EOF \<and> position l < position (past q) \<and>
        Offset (currentPos ?t) < Offset (currentPos (past q))"
      using q r ti(2) runs_trans [of ?t "past q" l] by (simp add: currentPos_Offset)
  qed
  show ?case
    using r rest by (auto simp: case_prod_unfold Let_def past_def fault_after_def elim!: returns_mono split: option.split)
qed

section \<open>Properties of the lexer\<close>

text \<open>Draining the lexer, as its callers do: one token after another up to the end of the file.\<close>

partial_function (option) tokens :: "unicode_tables \<Rightarrow> Lexer \<Rightarrow> Token list option" where
  "tokens u l = do {
     (tok, l') \<leftarrow> NextToken u l;
     if tok_Type tok = EOF then Some [tok]
     else do {
       ts \<leftarrow> tokens u l';
       Some (tok # ts)
     }
   }"

lemma NextToken_scanToken: "lex_inv l \<Longrightarrow> NextToken u l = scanToken u l"
  using scanToken_returns [of l u] by (auto simp: NextToken_def returns_def split: if_splits)

lemma tokens_return:
  "lex_inv l \<Longrightarrow> returns (tokens u l) (\<lambda>ts. ts \<noteq> [] \<and> tok_Type (last ts) = EOF \<and> length ts \<le> Suc (left l) \<and>
     list_all (\<lambda>t. tok_Type t \<noteq> EOF) (butlast ts))"
proof (induction "left l" arbitrary: l rule: less_induct)
  case less
  show ?case unfolding tokens.simps [of u l] returns_bind NextToken_scanToken [OF less.prems]
  proof (rule returns_mono [OF scanToken_returns [OF less.prems]], goal_cases)
    case r: (1 r)
    show ?case
    proof (cases "tok_Type (fst r) = EOF")
      case False
      then have "left (snd r) < left l" "lex_inv (snd r)"
        using r moved_left [of l "snd r"] runs_lex_inv [of l "snd r"] less.prems by (auto simp: case_prod_unfold)
      then have "returns (tokens u (snd r)) (\<lambda>ts. ts \<noteq> [] \<and> tok_Type (last ts) = EOF \<and> length ts \<le> left l \<and>
          list_all (\<lambda>t. tok_Type t \<noteq> EOF) (butlast ts))"
        using less.hyps [of "snd r"] by (auto elim!: returns_mono)
      then show ?thesis using False by (auto simp: case_prod_unfold elim!: returns_mono)
    qed (auto simp: case_prod_unfold)
  qed
qed

text \<open>
  C4: Draining the lexer ends.  For any source bytes, any place in a file and any letter and digit
  tables, every loop inside every call to \<^verbatim>\<open>NextToken\<close> returns, and after at most one call for each
  byte and one more the end-of-file token is reached, which is the first and only one.
\<close>

theorem lexer_reaches_EOF:
  "\<exists>ts. tokens u (NewAt inp at) = Some ts \<and> ts \<noteq> [] \<and> tok_Type (last ts) = EOF \<and>
     length ts \<le> Suc (length inp) \<and> list_all (\<lambda>t. tok_Type t \<noteq> EOF) (butlast ts)"
  using tokens_return [OF lex_inv_NewAt(1)] by (simp add: returns_def left_def lex_inv_NewAt)

text \<open>
  C7: In every state of the cursor that scanning can reach, asking for the next token returns, and the
  token is exactly the one that was scanned (the guard against a token of no width never fires);
  unless it is the end of the file it covers at least one byte and moves the cursor forward; and the
  end-of-file token is only made where the trivia has run to the end of the input.
\<close>

theorem NextToken_progress:
  assumes "runs (NewAt inp at) l"
  shows "\<exists>tok l'. NextToken u l = Some (tok, l') \<and> scanToken u l = Some (tok, l') \<and> runs (NewAt inp at) l' \<and>
    (if tok_Type tok = EOF then atEOF l'
     else position l < position l' \<and> Offset (Start tok) < Offset (End tok))"
proof -
  have inv: "lex_inv l" using runs_lex_inv [OF assms] lex_inv_NewAt by blast
  obtain tok l' where "scanToken u l = Some (tok, l')" "runs l l'"
    "if tok_Type tok = EOF then atEOF l' else position l < position l' \<and> Offset (Start tok) < Offset (End tok)"
    using scanToken_returns [OF inv, of u] by (auto simp: returns_def)
  then show ?thesis using runs_trans [OF _ assms] by (auto simp: NextToken_scanToken [OF inv])
qed

text \<open>
  C2: Positions are exact: in every reachable state the line, column and offset the lexer reports
  are those obtained by walking the text before the cursor byte by byte from where the text begins,
  for a whole file and for a fragment cut out of one.
\<close>

theorem currentPos_exact:
  assumes "runs (NewAt inp at) l"
  shows "currentPos l = advance at (take (position l) inp)"
proof -
  have i: "lex_inv l" "input l = inp" "origin l = at" using runs_inv [OF assms] lex_inv_NewAt by auto
  have "length (take (position l) inp) = position l" using i(1,2) by (simp add: lex_inv_def)
  then show ?thesis using i by (simp add: currentPos_def advance_closed lex_inv_def Let_def)
qed

theorem NextToken_progress_witness:
  "let l = NewAt ''x = 1'' \<lparr>Line = 3, Column = 5, Offset = 40\<rparr>; u = \<lparr>letter_table = (\<lambda>r. 97 \<le> r \<and> r \<le> 122), digit_table = (\<lambda>r. 48 \<le> r \<and> r \<le> 57)\<rparr>
   in \<exists>tok l'. NextToken u l = Some (tok, l') \<and> scanToken u l = Some (tok, l') \<and> runs l l' \<and>
      (if tok_Type tok = EOF then atEOF l' else position l < position l' \<and> Offset (Start tok) < Offset (End tok))"
  unfolding Let_def by (rule NextToken_progress [OF runs.refl])

theorem currentPos_exact_witness:
  "runs (NewAt [CHR 0x0A, CHR ''x''] \<lparr>Line = 3, Column = 5, Offset = 40\<rparr>)
     (readRune (NewAt [CHR 0x0A, CHR ''x''] \<lparr>Line = 3, Column = 5, Offset = 40\<rparr>)) \<and>
   currentPos (readRune (NewAt [CHR 0x0A, CHR ''x''] \<lparr>Line = 3, Column = 5, Offset = 40\<rparr>)) =
     \<lparr>Line = 4, Column = 1, Offset = 41\<rparr>"
proof -
  let ?l = "NewAt [CHR 0x0A, CHR ''x''] \<lparr>Line = 3, Column = 5, Offset = 40\<rparr>"
  have r: "runs ?l (readRune ?l)" by (rule runs_readRune)
  have "position (readRune ?l) = 1" by (simp add: NewAt_def readRune_def DecodeRune_ascii Let_def)
  then show ?thesis using r currentPos_exact [OF r] by (simp add: advance_def advance_byte_def Let_def)
qed

end
