(* ===== verification/Formatter.thy ===== *)
theory Formatter
  imports LexerProps
begin

text \<open>
  The formatter's string printer, \<^verbatim>\<open>quoteString\<close> of \<^verbatim>\<open>src/lsp/internal/server/formatter.go\<close>, and its
  round trip through the lexer.
\<close>

definition backslash :: char where
  "backslash = CHR 0x5C"

definition dquote :: char where
  "dquote = CHR 0x22"

fun quote_body :: "string \<Rightarrow> string" where
  "quote_body [] = []"
| "quote_body (c # s) =
    (if c = CHR ''$'' \<and> s \<noteq> [] \<and> hd s = CHR ''{'' then [backslash, c]
     else if c = backslash then [backslash, backslash]
     else if c = dquote then [backslash, dquote]
     else if c = CHR 0x0A then [backslash, CHR ''n'']
     else if c = CHR 0x0D then [backslash, CHR ''r'']
     else if c = CHR 0x09 then [backslash, CHR ''t'']
     else if c = CHR 0x00 then [backslash, CHR ''0'']
     else [c]) @ quote_body s"

definition quoteString :: "string \<Rightarrow> string" where
  "quoteString v = [dquote] @ quote_body v @ [dquote]"

text \<open>The escape of a character, and the character it stands for.\<close>

definition escape_of :: "char \<Rightarrow> char option" where
  "escape_of c =
    (if c = backslash \<or> c = dquote then Some c
     else if c = CHR 0x0A then Some CHR ''n''
     else if c = CHR 0x0D then Some CHR ''r''
     else if c = CHR 0x09 then Some CHR ''t''
     else if c = CHR 0x00 then Some CHR ''0''
     else None)"

lemma quote_cases:
  obtains (escaped) e where "quote_body (c # s) = backslash # e # quote_body s"
      "c = CHR ''$'' \<and> e = c \<and> s \<noteq> [] \<and> hd s = CHR ''{'' \<or> escape_of c = Some e"
    | (plain) "quote_body (c # s) = c # quote_body s" "escape_of c = None"
      "c = CHR ''$'' \<longrightarrow> s = [] \<or> hd s \<noteq> CHR ''{''"
proof (cases "(c = CHR ''$'' \<and> s \<noteq> [] \<and> hd s = CHR ''{'') \<or> escape_of c \<noteq> None")
  case True
  then obtain e where "c = CHR ''$'' \<and> e = c \<and> s \<noteq> [] \<and> hd s = CHR ''{'' \<or> escape_of c = Some e" by blast
  moreover from this have "quote_body (c # s) = backslash # e # quote_body s"
    by (auto simp: escape_of_def backslash_def dquote_def split: if_splits)
  ultimately show ?thesis using escaped by blast
next
  case False
  then have "quote_body (c # s) = c # quote_body s" by (auto simp: escape_of_def split: if_splits)
  then show ?thesis using False plain by blast
qed

lemma escape_values:
  "byte_val backslash = 0x5C" "byte_val dquote = 0x22" "byte_val CHR 0x0A = 10" "byte_val CHR 0x0D = 13"
  "byte_val CHR 0x09 = 9" "byte_val CHR 0x00 = 0"
  by (simp_all add: backslash_def dquote_def)

lemma unescape_loop_plain: "byte_val c \<noteq> 0x5C \<Longrightarrow> unescape_loop (c # t) = c # unescape_loop t"
  by (cases t) auto

lemma byte_val_backslash: "byte_val c = 0x5C \<longleftrightarrow> c = backslash"
  using escape_values(1) by (metis of_char_eq_iff)

lemma byte_val_dquote: "byte_val c = 0x22 \<longleftrightarrow> c = dquote"
  using escape_values(2) by (metis of_char_eq_iff)

lemma unescape_quote: "unescape_loop (quote_body v) = v"
proof (induction v)
  case (Cons c s)
  show ?case
  proof (cases rule: quote_cases [of c s])
    case (escaped e)
    then show ?thesis using Cons
      by (auto simp: escape_of_def backslash_def dquote_def split: if_splits)
  next
    case plain
    then have "byte_val c \<noteq> 0x5C" by (auto simp: escape_of_def byte_val_backslash split: if_splits)
    then show ?thesis using plain(1) Cons unescape_loop_plain by simp
  qed
qed simp

lemma unescape_loop_none: "\<forall>c \<in> set s. byte_val c \<noteq> 0x5C \<Longrightarrow> unescape_loop s = s"
  by (induction s) (simp_all add: unescape_loop_plain)

lemma unescape_quote_body: "unescape (quote_body v) = v"
  using unescape_quote [of v] unescape_loop_none [of "quote_body v"] by (auto simp: unescape_def)

lemma quote_body_no_NUL: "CHR 0x00 \<notin> set (quote_body v)"
proof (induction v)
  case (Cons c s)
  show ?case
  proof (cases rule: quote_cases [of c s])
    case (escaped e)
    then have "e \<noteq> CHR 0x00" by (auto simp: escape_of_def backslash_def dquote_def split: if_splits)
    then show ?thesis using escaped(1) Cons by (simp add: backslash_def)
  next
    case plain
    then show ?thesis using Cons by (auto simp: escape_of_def split: if_splits)
  qed
qed simp

lemma quote_body_head: "quote_body s = CHR ''{'' # t \<Longrightarrow> s \<noteq> [] \<and> hd s = CHR ''{''"
  by (cases s) (auto simp: backslash_def split: if_splits)

text \<open>No hole opens inside a quoted body.\<close>

lemma split_loop_quote:
  "drop i body = quote_body v \<Longrightarrow> snd (split_loop body i p t ts parts found fault) = (found, fault)"
proof (induction v arbitrary: i p t)
  case Nil
  then show ?case by (simp add: split_loop.simps)
next
  case (Cons c s)
  have i: "i < length body" using Cons.prems by (cases "i < length body") (auto split: if_splits)
  show ?case
  proof (cases rule: quote_cases [of c s])
    case (escaped e)
    then have d: "drop i body = backslash # e # quote_body s" using Cons.prems by simp
    then have "body ! i = backslash" "drop (Suc i) body = e # quote_body s" using drop_ConsD [OF d] by auto
    moreover from this have "Suc i < length body" "drop (Suc (Suc i)) body = quote_body s"
      using drop_ConsD [of "Suc i" body] by auto
    ultimately show ?thesis using Cons.IH [of "Suc (Suc i)"] i
      by (subst split_loop.simps) (simp add: byte_val_backslash)
  next
    case plain
    then have d: "drop i body = c # quote_body s" using Cons.prems by simp
    then have c: "body ! i = c" "drop (Suc i) body = quote_body s" using drop_ConsD [OF d] by auto
    have "c \<noteq> backslash" using plain(2) by (auto simp: escape_of_def split: if_splits)
    moreover have "\<not> (c = CHR ''$'' \<and> Suc i < length body \<and> body ! Suc i = CHR ''{'')"
    proof
      assume h: "c = CHR ''$'' \<and> Suc i < length body \<and> body ! Suc i = CHR ''{''"
      then have "quote_body s = CHR ''{'' # drop (Suc (Suc i)) body" using c(2) by (metis Cons_nth_drop_Suc)
      then show False using quote_body_head plain(3) h by blast
    qed
    ultimately show ?thesis using Cons.IH [of "Suc i"] i c
      by (subst split_loop.simps) (auto simp: byte_val_backslash)
  qed
qed

lemma splitTemplate_quote: "snd (splitTemplate (quote_body v) p) = (False, None)"
  using split_loop_quote [of 0 "quote_body v" v] by (simp add: splitTemplate_def)

section \<open>Lexing a quoted string\<close>

lemma readRune_at:
  assumes "drop (readPosition l) (input l) = c # t"
  shows "position (readRune l) = readPosition l" "\<not> atEOF (readRune l)"
    "ch (readRune l) = fst (DecodeRuneInString (c # t))"
    "readPosition (readRune l) = readPosition l + snd (DecodeRuneInString (c # t))"
    "drop (readPosition (readRune l)) (input l) = drop (snd (DecodeRuneInString (c # t))) (c # t)"
proof -
  have "readPosition l < length (input l)" using drop_ConsD [OF assms] by simp
  then show "position (readRune l) = readPosition l" "\<not> atEOF (readRune l)"
    "ch (readRune l) = fst (DecodeRuneInString (c # t))"
    "readPosition (readRune l) = readPosition l + snd (DecodeRuneInString (c # t))"
    using assms by (simp_all add: position_readRune ch_readRune readPosition_readRune atEOF_def)
  then show "drop (readPosition (readRune l)) (input l) = drop (snd (DecodeRuneInString (c # t))) (c # t)"
    using assms by (metis add.commute drop_drop)
qed

lemma readRune_ascii:
  assumes "drop (readPosition l) (input l) = c # t" "byte_val c < 128"
  shows "position (readRune l) = readPosition l" "\<not> atEOF (readRune l)" "ch (readRune l) = byte_val c"
    "readPosition (readRune l) = Suc (readPosition l)" "drop (readPosition (readRune l)) (input l) = t"
  using readRune_at [OF assms(1)] by (simp_all add: DecodeRune_ascii [OF assms(2)])

lemma quote_body_high:
  assumes "w \<le> length (quote_body v)" "\<forall>x \<in> set (take w (quote_body v)). 128 \<le> byte_val x"
  shows "drop w (quote_body v) = quote_body (drop w v)"
  using assms
proof (induction v arbitrary: w)
  case (Cons c s)
  show ?case
  proof (cases w)
    case (Suc m)
    show ?thesis
    proof (cases rule: quote_cases [of c s])
      case (escaped e)
      then show ?thesis using Cons.prems Suc by (auto simp: escape_values)
    next
      case plain
      then show ?thesis using Cons.IH [of m] Cons.prems Suc by (simp del: quote_body.simps)
    qed
  qed simp
qed simp

lemma escape_ascii: "escape_of c = Some e \<Longrightarrow> byte_val e < 128"
  by (auto simp: escape_of_def escape_values split: if_splits)

lemma first_rune: "fst (DecodeRuneInString (c # t)) < 128 \<Longrightarrow> fst (DecodeRuneInString (c # t)) = byte_val c"
  using DecodeRune_not_ascii_ge [of c t] DecodeRune_ascii [of c t] by (cases "byte_val c < 128") auto

text \<open>The first rune of what follows a quoted body's start: never a quote, and a brace only if the value has it.\<close>

lemma quote_first_rune:
  assumes "fst (DecodeRuneInString (quote_body s @ [dquote])) = r"
  shows "r = 0x7B \<Longrightarrow> s \<noteq> [] \<and> hd s = CHR ''{''" "r = 0x22 \<Longrightarrow> s = []"
proof -
  obtain d t where t: "quote_body s @ [dquote] = d # t" "s = [] \<longrightarrow> d = dquote"
    "s \<noteq> [] \<longrightarrow> d = backslash \<or> (d = hd s \<and> d \<noteq> dquote)"
  proof (cases s)
    case (Cons c u)
    show thesis
      by (cases rule: quote_cases [of c u]; rule that) (auto simp: Cons escape_of_def simp del: quote_body.simps split: if_splits)
  qed simp
  have d: "r = 0x7B \<or> r = 0x22 \<Longrightarrow> byte_val d = r" using first_rune [of d t] assms t(1) by auto
  show "r = 0x7B \<Longrightarrow> s \<noteq> [] \<and> hd s = CHR ''{''"
  proof
    assume r: "r = 0x7B"
    then have "byte_val d = byte_val CHR ''{''" using d by simp
    then have "d = CHR ''{''" by (simp only: of_char_eq_iff)
    then show "s \<noteq> []" "hd s = CHR ''{''" using t(2,3) by (auto simp: backslash_def dquote_def)
  qed
  show "r = 0x22 \<Longrightarrow> s = []" using d t(3) byte_val_dquote [of d] by (auto simp: backslash_def dquote_def)
qed

lemma quoted_loop_quote:
  assumes "drop (readPosition l) (input l) = quote_body v @ [dquote]"
  shows "\<exists>l'. quoted_loop None l = Some (True, None, l') \<and> input l' = input l \<and> origin l' = origin l \<and>
    Suc (position l') = length (input l) \<and> readPosition l' = length (input l)"
  using assms
proof (induction "length (quote_body v)" arbitrary: l v rule: less_induct)
  case less
  show ?case
  proof (cases v)
    case Nil
    then have d: "drop (readPosition l) (input l) = dquote # []" using less.prems by simp
    then have "length (input l) = Suc (readPosition l)" using drop_ConsD [OF d] by (metis length_drop length_Cons list.size(3) Suc_diff_Suc diff_is_0_eq le_antisym Suc_leI nat_neq_iff)
    then show ?thesis using readRune_ascii [OF d] by (subst quoted_loop.simps) (simp add: escape_values is_quote_def Let_def)
  next
    case (Cons c s)
    show ?thesis
    proof (cases rule: quote_cases [of c s])
      case (escaped e)
      then have e: "byte_val e < 128" using escape_ascii by auto
      have d: "drop (readPosition l) (input l) = backslash # e # quote_body s @ [dquote]"
        using less.prems escaped(1) Cons by simp
      have b: "byte_val backslash < 128" by (simp add: escape_values)
      note r = readRune_ascii [OF d b]
      have d2: "drop (readPosition (readRune l)) (input (readRune l)) = e # quote_body s @ [dquote]" using r(5) by simp
      have m: "more (readRune l)" using drop_ConsD(1) [OF d2] by (simp add: more_def)
      have d3: "drop (readPosition (readRune (readRune l))) (input (readRune (readRune l))) = quote_body s @ [dquote]"
        using readRune_ascii(5) [OF d2 e] by simp
      have "length (quote_body s) < length (quote_body v)" using escaped(1) Cons by simp
      then show ?thesis using less.hyps [OF _ d3] r m
        by (subst quoted_loop.simps) (simp add: escape_values is_quote_def is_backslash_def Let_def)
    next
      case plain
      have d: "drop (readPosition l) (input l) = c # quote_body s @ [dquote]" using less.prems plain(1) Cons by simp
      have c: "byte_val c \<noteq> 0x22" "byte_val c \<noteq> 0x5C"
        using plain(2) by (auto simp: escape_of_def byte_val_backslash byte_val_dquote split: if_splits)
      have n: "length (quote_body s) < length (quote_body v)" using plain(1) Cons by simp
      show ?thesis
      proof (cases "byte_val c < 128")
        case True
        note r = readRune_ascii [OF d True]
        have "\<not> (is_ch (byte_val c) CHR ''$'' \<and> is_ch (peekRune (readRune l)) CHR ''{'')"
        proof
          assume h: "is_ch (byte_val c) CHR ''$'' \<and> is_ch (peekRune (readRune l)) CHR ''{''"
          have "fst (DecodeRuneInString (quote_body s @ [dquote])) = 0x7B"
            using h r(5) by (simp add: peekRune_def is_ch_def split: if_splits)
          moreover have "c = CHR ''$''" using h by (simp only: is_ch_def of_char_eq_iff)
          ultimately show False using quote_first_rune(1) [OF HOL.refl, of s] plain(3) by blast
        qed
        then show ?thesis using less.hyps [OF n, of "readRune l"] r c
          by (subst quoted_loop.simps) (auto simp: is_quote_def is_backslash_def Let_def)
      next
        case False
        let ?w = "snd (DecodeRuneInString (c # quote_body s @ [dquote]))"
        note r = readRune_at [OF d]
        have same: "DecodeRuneInString (c # quote_body s @ [dquote]) = DecodeRuneInString (quote_body v)"
          using DecodeRune_append [of "quote_body v" "[dquote]"] plain(1) Cons
          by (simp add: RuneStart_def is_cont_def dquote_def del: quote_body.simps)
        have w: "0 < ?w" "?w \<le> length (quote_body v)" "\<forall>x \<in> set (take ?w (quote_body v)). 128 \<le> byte_val x"
          using DecodeRune_size [of "quote_body v"] DecodeRune_not_ascii_bytes [of c "quote_body s"] False plain(1) Cons
          unfolding same by (simp_all del: quote_body.simps)
        note high = quote_body_high [OF w(2,3)]
        have d2: "drop (readPosition (readRune l)) (input (readRune l)) = quote_body (drop ?w v) @ [dquote]"
          using r(5) w(2) high less.prems d by (metis drop_append diff_is_0_eq drop0 readRune_fields(1))
        have "length (quote_body (drop ?w v)) < length (quote_body v)"
          unfolding high [symmetric] using w(1,2) by simp
        then show ?thesis using less.hyps [OF _ d2] r DecodeRune_not_ascii_ge [of c "quote_body s @ [dquote]"] False
          by (subst quoted_loop.simps) (simp add: is_quote_def is_backslash_def is_ch_def Let_def)
      qed
    qed
  qed
qed

lemma New_quote:
  fixes v :: string
  defines "l \<equiv> New (quoteString v)"
  shows "input l = quoteString v" "origin l = \<lparr>Line = 1, Column = 1, Offset = 0\<rparr>" "position l = 0" "ch l = 0x22"
    "readPosition l = 1" "drop (readPosition l) (input l) = quote_body v @ [dquote]"
  unfolding l_def New_def NewAt_def
  by (simp_all add: readRune_def quoteString_def DecodeRune_ascii dquote_def Let_def)

lemma not_triple: "\<not> is_triple (New (quoteString v))"
proof
  let ?l = "New (quoteString v)"
  assume t: "is_triple ?l"
  then have "fst (DecodeRuneInString (quote_body v @ [dquote])) = 0x22"
    using New_quote(6) [of v] by (simp add: is_triple_def is_quote_def peekRune_def split: if_splits)
  then have v: "v = []" by (rule quote_first_rune(2)) simp
  have "peekRuneAt 2 ?l = 0"
    using New_quote(1,5) [of v] unfolding v
    by (simp add: peekRuneAt_def quoteString_def DecodeRune_ascii dquote_def numeral_2_eq_2)
  then show False using t by (simp add: is_triple_def is_quote_def)
qed

lemma readStringToken_quote:
  "\<exists>l'. readStringToken 0 False False (New (quoteString v)) = Some (newToken STRING v, l') \<and> input l' = quoteString v \<and>
     origin l' = \<lparr>Line = 1, Column = 1, Offset = 0\<rparr> \<and> Suc (position l') = length (quoteString v) \<and>
     readPosition l' = length (quoteString v)"
proof -
  let ?l = "New (quoteString v)"
  note q = New_quote [of v]
  from quoted_loop_quote [OF q(6)] obtain l' where l':
    "quoted_loop None ?l = Some (True, None, l')" "input l' = quoteString v"
    "origin l' = \<lparr>Line = 1, Column = 1, Offset = 0\<rparr>" "Suc (position l') = length (quoteString v)"
    "readPosition l' = length (quoteString v)" using q by auto
  have "substr (quoteString v) 1 (position l') = quote_body v"
    using l'(4) by (simp add: substr_def quoteString_def)
  then have "read_body False False ?l = Some (quote_body v, True, None, l')"
    using q l' by (simp add: read_body_def readQuotedBody_def)
  moreover have "IndexNUL (quote_body v) = None" by (simp add: IndexNUL_def quote_body_no_NUL)
  ultimately show ?thesis using l'(2-) splitTemplate_quote [of v]
    by (simp add: readStringToken_def body_token_def string_token_def unescape_quote_body Let_def case_prod_unfold)
qed

lemma skipTrivia_stay: "\<not> IsSpace (ch l) \<Longrightarrow> ch l \<noteq> 0x2F \<Longrightarrow> skipTrivia l = Some (None, l)"
  by (simp add: skipTrivia_def trivia_loop.simps read_while.simps skipWhiteSpace_def is_ch_def)

lemma scan_operator_quote: "ch l = 0x22 \<Longrightarrow> scan_operator l = None"
  by (simp add: scan_operator_def is_ch_def is_backslash_def plain_operators_def char_of_def)

lemma scanToken_quote:
  "\<exists>tok l'. scanToken u (New (quoteString v)) = Some (tok, l') \<and> tok_Type tok = STRING \<and> Literal tok = v \<and>
     atEOF l' \<and> ch l' = 0"
proof -
  let ?l = "New (quoteString v)"
  note q = New_quote [of v]
  obtain l' where l': "readStringToken 0 False False ?l = Some (newToken STRING v, l')" "input l' = quoteString v"
    "readPosition l' = length (quoteString v)" using readStringToken_quote [of v] by blast
  have "scan_rest u ?l = Some (newToken STRING v, l', True)"
    using q(3,4) l'(1) not_triple [of v] scan_operator_quote [of ?l] by (simp add: scan_rest_def is_quote_def)
  moreover have "skipTrivia ?l = Some (None, ?l)" using q(4) by (intro skipTrivia_stay) (simp_all add: IsSpace_def)
  moreover have "\<not> atEOF ?l" using q(1,3) by (simp add: atEOF_def quoteString_def)
  moreover have "atEOF (readRune l')" "ch (readRune l') = 0"
    using l'(2,3) by (simp_all add: atEOF_def position_readRune ch_readRune)
  ultimately show ?thesis by (simp add: scanToken_def newToken_def Let_def)
qed

lemma scanToken_at_end:
  assumes "atEOF l" "ch l = 0"
  shows "\<exists>tok. scanToken u l = Some (tok, l) \<and> tok_Type tok = EOF \<and> Literal tok = [CHR 0x00]"
proof -
  have "skipTrivia l = Some (None, l)" using assms(2) by (intro skipTrivia_stay) (simp_all add: IsSpace_def)
  moreover have "encode_rune 0 = [CHR 0x00]" by (simp add: encode_rune_def char_of_def Let_def)
  ultimately show ?thesis using assms by (simp add: scanToken_def newToken_def)
qed

text \<open>
  C3: The formatter's strings survive the lexer: whatever bytes a string value holds, lexing the
  source that \<^verbatim>\<open>quoteString\<close> prints for it gives one plain string token whose value is those bytes,
  and then the end of the file.  No quote, escape, line break, NUL or \<open>${\<close> in the value is lost or
  opens an interpolation.
\<close>

theorem quoteString_roundtrip:
  "map_option (map (\<lambda>t. (tok_Type t, Literal t))) (tokens u (New (quoteString v))) =
     Some [(STRING, v), (EOF, [CHR 0x00])]"
proof -
  let ?l = "New (quoteString v)"
  have inv: "lex_inv ?l" unfolding New_def by (rule lex_inv_NewAt)
  obtain tok l' where s: "scanToken u ?l = Some (tok, l')" "tok_Type tok = STRING" "Literal tok = v" "atEOF l'" "ch l' = 0"
    using scanToken_quote by blast
  have "lex_inv l'" using scanToken_returns [OF inv, of u] s(1) runs_lex_inv [OF _ inv] by (auto simp: returns_def)
  then show ?thesis
    using s scanToken_at_end [OF s(4,5), of u] tokens.simps [of u l']
    by (auto simp: tokens.simps [of u ?l] NextToken_scanToken [OF inv] NextToken_scanToken)
qed

end
