(* ===== verification/Modules.thy ===== *)
theory Modules
  imports LexerProps Polymorphic
begin

text \<open>
  Linking modules into one source (\<^verbatim>\<open>src/module/link.go\<close>, \<^verbatim>\<open>src/ast/shift.go\<close>) and finding the way
  back: the lookups on a program's module spans and the removal of its positions
  (\<^verbatim>\<open>src/compiler/compiler.go\<close>).  Nodes of a syntax tree are identities, numbers here; a program is
  its three side tables of positions.  A receiver that may be nil is an option.
\<close>

section \<open>Rebasing positions\<close>

record Range =
  rng_Start :: Position
  rng_End :: Position

record MacroOrigin =
  Call :: Range
  Definition :: Range

record Program =
  NodePositions :: "(nat \<times> Range) list"
  Comments :: "Comment list"
  MacroExpansions :: "(nat \<times> MacroOrigin) list"

definition Range_Shift :: "Range \<Rightarrow> int \<Rightarrow> int \<Rightarrow> Range" where
  "Range_Shift r ls off = \<lparr>rng_Start = Shift (rng_Start r) ls off, rng_End = Shift (rng_End r) ls off\<rparr>"

definition ShiftPositions :: "Program \<Rightarrow> int \<Rightarrow> int \<Rightarrow> Program" where
  "ShiftPositions p ls off =
    (if ls = 0 \<and> off = 0 then p
     else p\<lparr>NodePositions := map (\<lambda>(n, r). (n, Range_Shift r ls off)) (NodePositions p),
            Comments := map (\<lambda>c. c\<lparr>com_Start := Shift (com_Start c) ls off, com_End := Shift (com_End c) ls off\<rparr>)
              (Comments p),
            MacroExpansions := map (\<lambda>(n, m). (n, \<lparr>Call = Range_Shift (Call m) ls off,
              Definition = Range_Shift (Definition m) ls off\<rparr>)) (MacroExpansions p)\<rparr>)"

section \<open>Linking\<close>

record Module =
  mod_Path :: string
  Display :: string
  Source :: string
  Prog :: Program

record Linked =
  lk_SourceText :: string
  Spans :: "ModuleSpan list"
  lk_Modules :: "Module list"
  Entry :: "Module option"
  EntryPath :: string

definition chunk :: "string \<Rightarrow> string" where
  "chunk src = (if src \<noteq> [] \<and> last src = newline then src else src @ [newline])"

fun link_loop :: "Module list \<Rightarrow> int \<Rightarrow> int \<Rightarrow> string \<times> ModuleSpan list \<times> Module list" where
  "link_loop [] ln offset = ([], [], [])"
| "link_loop (m # ms) ln offset =
    (let span = \<lparr>span_Path = Display m, StartLine = ln\<rparr>;
         m' = m\<lparr>Prog := ShiftPositions (Prog m) (ln - 1) offset\<rparr>;
         c = chunk (Source m);
         (text, spans, mods) = link_loop ms (ln + int (newlines c)) (offset + int (length c))
     in (c @ text, span # spans, m' # mods))"

text \<open>The entry module of a graph is the last of its modules.\<close>

definition Link :: "Module list \<Rightarrow> Linked" where
  "Link ms =
    (if ms = [] then \<lparr>lk_SourceText = [], Spans = [], lk_Modules = [], Entry = None, EntryPath = []\<rparr>
     else let (text, spans, mods) = link_loop ms 1 0
          in \<lparr>lk_SourceText = text, Spans = spans, lk_Modules = mods, Entry = Some (last mods),
              EntryPath = Display (last mods)\<rparr>)"

section \<open>Paths\<close>

text \<open>\<^verbatim>\<open>filepath.Clean\<close> and \<^verbatim>\<open>filepath.Base\<close> where the separator is a slash.\<close>

definition clean_step :: "bool \<Rightarrow> string list \<Rightarrow> string \<Rightarrow> string list" where
  "clean_step rooted out c =
    (if c = '''' \<or> c = ''.'' then out
     else if c = ''..'' then
       (if out \<noteq> [] \<and> last out \<noteq> ''..'' then butlast out
        else if rooted then out else out @ [c])
     else out @ [c])"

definition Clean :: "string \<Rightarrow> string" where
  "Clean path =
    (if path = '''' then ''.''
     else let rooted = (hd path = CHR ''/'');
              body = join_on ''/'' (foldl (clean_step rooted) [] (split_on CHR ''/'' path))
          in if rooted then CHR ''/'' # body else if body = '''' then ''.'' else body)"

definition Base :: "string \<Rightarrow> string" where
  "Base path =
    (if path = '''' then ''.''
     else let stripped = rev (dropWhile (\<lambda>c. c = CHR ''/'') (rev path))
          in if stripped = '''' then ''/'' else last (split_on CHR ''/'' stripped))"

section \<open>Lookups on the spans\<close>

text \<open>The walk of \<^verbatim>\<open>ModuleAt\<close> over the spans, from the last to the first.\<close>

fun span_at :: "ModuleSpan list \<Rightarrow> int \<Rightarrow> (string \<times> int) option" where
  "span_at [] ln = None"
| "span_at (s # ss) ln = (if StartLine s \<le> ln then Some (span_Path s, ln - StartLine s + 1) else span_at ss ln)"

definition ModuleAt :: "ByteCode option \<Rightarrow> int \<Rightarrow> (string \<times> int) option" where
  "ModuleAt bc ln =
    (case bc of None \<Rightarrow> None
     | Some b \<Rightarrow> if ModuleSpans b = [] \<or> ln \<le> 0 then None else span_at (rev (ModuleSpans b)) ln)"

definition blobLineCount :: "string \<Rightarrow> int" where
  "blobLineCount text =
    (if text = [] then 0
     else let count1 = int (newlines text) in if last text \<noteq> newline then count1 + 1 else count1)"

definition spanLastLine :: "ByteCode \<Rightarrow> nat \<Rightarrow> int option" where
  "spanLastLine b i =
    (if i + 1 < length (ModuleSpans b) then Some (StartLine (ModuleSpans b ! (i + 1)) - 1)
     else if blobLineCount (SourceText b) > 0 then Some (blobLineCount (SourceText b)) else None)"

fun first_index :: "('a \<Rightarrow> bool) \<Rightarrow> 'a list \<Rightarrow> nat option" where
  "first_index P [] = None"
| "first_index P (x # xs) = (if P x then Some 0 else map_option Suc (first_index P xs))"

fun last_index :: "('a \<Rightarrow> bool) \<Rightarrow> 'a list \<Rightarrow> nat \<Rightarrow> nat option" where
  "last_index P xs 0 = None"
| "last_index P xs (Suc i) = (if P (xs ! i) then Some i else last_index P xs i)"

fun base_scan :: "string \<Rightarrow> nat \<Rightarrow> nat option \<Rightarrow> ModuleSpan list \<Rightarrow> nat option" where
  "base_scan base i found [] = found"
| "base_scan base i found (s # ss) =
    (if Base (span_Path s) \<noteq> base then base_scan base (i + 1) found ss
     else if found \<noteq> None then None
     else base_scan base (i + 1) (Some i) ss)"

definition entrySpan :: "ByteCode \<Rightarrow> nat option" where
  "entrySpan b =
    (if ModuleSpans b = [] then None
     else case (if SourceFile b \<noteq> '''' then
                  last_index (\<lambda>s. Clean (span_Path s) = Clean (SourceFile b)) (ModuleSpans b) (length (ModuleSpans b))
                else None) of
       Some i \<Rightarrow> Some i
     | None \<Rightarrow> Some (length (ModuleSpans b) - 1))"

definition moduleSpanFor :: "ByteCode \<Rightarrow> string \<Rightarrow> nat option" where
  "moduleSpanFor b path =
    (if path = '''' then entrySpan b
     else let want = Clean path in
       case first_index (\<lambda>s. Clean (span_Path s) = want) (ModuleSpans b) of
         Some i \<Rightarrow> Some i
       | None \<Rightarrow> base_scan (Base want) 0 None (ModuleSpans b))"

definition ModuleLine :: "ByteCode option \<Rightarrow> string \<Rightarrow> int \<Rightarrow> int option" where
  "ModuleLine bc path ln =
    (case bc of None \<Rightarrow> None
     | Some b \<Rightarrow>
         if ln \<le> 0 then None
         else if ModuleSpans b = [] then Some ln
         else case moduleSpanFor b path of
           None \<Rightarrow> None
         | Some i \<Rightarrow>
             let absLine = StartLine (ModuleSpans b ! i) + ln - 1 in
             (case spanLastLine b i of
                Some l \<Rightarrow> if absLine > l then None else Some absLine
              | None \<Rightarrow> Some absLine))"

definition ModulesNamed :: "ByteCode option \<Rightarrow> string \<Rightarrow> nat" where
  "ModulesNamed bc path =
    (case bc of None \<Rightarrow> 0
     | Some b \<Rightarrow>
         if path = '''' then 0
         else let want = Clean path in
           if \<exists>s \<in> set (ModuleSpans b). Clean (span_Path s) = want then 1
           else length (filter (\<lambda>s. Base (span_Path s) = Base want) (ModuleSpans b)))"

section \<open>Stripping\<close>



section \<open>Finding a span\<close>

lemma span_at_skip: "\<forall>s \<in> set xs. ln < StartLine s \<Longrightarrow> span_at (xs @ ys) ln = span_at ys ln"
  by (induction xs) auto

lemma span_at_found:
  "span_at (rev ss) ln = Some (p, n) \<Longrightarrow>
   \<exists>i < length ss. StartLine (ss ! i) \<le> ln \<and> (i + 1 < length ss \<longrightarrow> ln < StartLine (ss ! (i + 1))) \<and>
     p = span_Path (ss ! i) \<and> n = ln - StartLine (ss ! i) + 1"
proof (induction ss rule: rev_induct)
  case (snoc s ss)
  show ?case
  proof (cases "StartLine s \<le> ln")
    case True
    then show ?thesis using snoc.prems by (intro exI [of _ "length ss"]) auto
  next
    case False
    then obtain i where i: "i < length ss" "StartLine (ss ! i) \<le> ln" "i + 1 < length ss \<longrightarrow> ln < StartLine (ss ! (i + 1))"
      "p = span_Path (ss ! i)" "n = ln - StartLine (ss ! i) + 1" using snoc by auto
    then show ?thesis using False by (intro exI [of _ i]) (auto simp: nth_append not_less_less_Suc_eq)
  qed
qed simp

text \<open>What the lookups rely on: spans in the order of their first lines, counted from one.\<close>

locale module_spans =
  fixes spans :: "ModuleSpan list"
  assumes in_order: "sorted (map StartLine spans)"
    and from_one: "s \<in> set spans \<Longrightarrow> 1 \<le> StartLine s"
begin

lemma span_at_index:
  assumes "i < length spans" "StartLine (spans ! i) \<le> ln" "i + 1 < length spans \<Longrightarrow> ln < StartLine (spans ! (i + 1))"
  shows "span_at (rev spans) ln = Some (span_Path (spans ! i), ln - StartLine (spans ! i) + 1)"
proof -
  have "ln < StartLine s" if s: "s \<in> set (drop (Suc i) spans)" for s
  proof -
    from s obtain j where j: "j < length spans - Suc i" "s = spans ! (Suc i + j)" by (auto simp: in_set_conv_nth)
    then have "StartLine (spans ! (i + 1)) \<le> StartLine s"
      using sorted_nth_mono [OF in_order, of "i + 1" "Suc i + j"] by simp
    moreover have "ln < StartLine (spans ! (i + 1))" using assms(3) j(1) by linarith
    ultimately show ?thesis by simp
  qed
  then have skip: "\<forall>s \<in> set (rev (drop (Suc i) spans)). ln < StartLine s" by simp
  have "rev spans = rev (drop (Suc i) spans) @ rev (take (Suc i) spans)"
    by (metis append_take_drop_id rev_append)
  also have "rev (take (Suc i) spans) = spans ! i # rev (take i spans)"
    using assms(1) by (simp add: take_Suc_conv_app_nth)
  finally show ?thesis using span_at_skip [OF skip] assms(2) by simp
qed

lemma ModuleAt_index:
  assumes "ModuleSpans b = spans" "i < length spans" "StartLine (spans ! i) \<le> ln"
    "i + 1 < length spans \<Longrightarrow> ln < StartLine (spans ! (i + 1))"
  shows "ModuleAt (Some b) ln = Some (span_Path (spans ! i), ln - StartLine (spans ! i) + 1)"
proof -
  have "1 \<le> StartLine (spans ! i)" using from_one assms(2) by simp
  then show ?thesis using assms span_at_index [of i ln] by (auto simp: ModuleAt_def)
qed

end

lemma first_index_bound: "first_index P xs = Some i \<Longrightarrow> i < length xs \<and> P (xs ! i)"
  by (induction xs arbitrary: i) (auto split: if_splits)

lemma first_index_None: "first_index P xs = None \<longleftrightarrow> (\<forall>x \<in> set xs. \<not> P x)"
  by (induction xs) auto

lemma first_index_first: "i < length xs \<Longrightarrow> P (xs ! i) \<Longrightarrow> \<forall>j < i. \<not> P (xs ! j) \<Longrightarrow> first_index P xs = Some i"
proof (induction xs arbitrary: i)
  case (Cons x xs)
  show ?case
  proof (cases i)
    case (Suc m)
    then have "\<not> P x" "\<forall>j < m. \<not> P (xs ! j)" using Cons.prems(3) by (auto 0 3)
    then show ?thesis using Cons Suc by simp
  qed (use Cons in simp)
qed simp

lemma last_index_bound: "last_index P xs n = Some i \<Longrightarrow> i < n"
  by (induction n) (auto split: if_splits)

lemma base_scan_bound:
  "base_scan b i found ss = Some k \<Longrightarrow> (case found of None \<Rightarrow> True | Some f \<Rightarrow> f < i) \<Longrightarrow> k < i + length ss"
  by (induction b i found ss rule: base_scan.induct) (auto split: if_splits option.splits)

lemma base_scan_count:
  "(\<exists>k. base_scan b i found ss = Some k) \<longleftrightarrow>
   length (filter (\<lambda>s. Base (span_Path s) = b) ss) = (if found = None then 1 else 0)"
  by (induction b i found ss rule: base_scan.induct) auto

lemma moduleSpanFor_bound: "moduleSpanFor b path = Some i \<Longrightarrow> i < length (ModuleSpans b)"
  using base_scan_bound [of _ 0 None "ModuleSpans b" i]
  by (auto simp: moduleSpanFor_def entrySpan_def Let_def split: if_splits option.splits
      dest!: first_index_bound last_index_bound)

section \<open>The linked text\<close>

definition blob :: "Module list \<Rightarrow> string" where
  "blob ms = concat (map (\<lambda>m. chunk (Source m)) ms)"

abbreviation file_start :: Position where
  "file_start \<equiv> \<lparr>Line = 1, Column = 1, Offset = 0\<rparr>"

lemma chunk_ends: "chunk s \<noteq> [] \<and> last (chunk s) = newline"
  by (simp add: chunk_def)

lemma blob_ends: "blob ms = [] \<or> last (blob ms) = newline"
  by (induction ms rule: rev_induct) (auto simp: blob_def chunk_ends)

lemma newlines_last: "s \<noteq> [] \<Longrightarrow> last s = newline \<Longrightarrow> 0 < newlines s"
  by (metis append_butlast_last_id newlines_append newlines_simps(2) zero_less_one add_pos_nonneg add.commute le0)

lemma chunk_prefix: "o1 < length s \<Longrightarrow> newlines (take o1 s) < newlines (chunk s)"
proof -
  assume h: "o1 < length s"
  then have "take o1 (chunk s) = take o1 s" "o1 < length (chunk s)" by (auto simp: chunk_def)
  moreover from this have "0 < newlines (drop o1 (chunk s))" using chunk_ends [of s] by (intro newlines_last) auto
  ultimately show ?thesis by (metis add_less_cancel_left add.right_neutral append_take_drop_id newlines_append)
qed

lemma link_loop_text: "fst (link_loop ms ln off) = blob ms"
  by (induction ms arbitrary: ln off) (auto simp: blob_def Let_def case_prod_unfold)

lemma link_loop_length:
  "length (fst (snd (link_loop ms ln off))) = length ms" "length (snd (snd (link_loop ms ln off))) = length ms"
  by (induction ms arbitrary: ln off) (auto simp: Let_def case_prod_unfold)

lemma link_loop_nth:
  assumes "k < length ms"
  shows "fst (snd (link_loop ms ln off)) ! k = \<lparr>span_Path = Display (ms ! k), StartLine = ln + int (newlines (blob (take k ms)))\<rparr>"
    "snd (snd (link_loop ms ln off)) ! k = (ms ! k)\<lparr>Prog := ShiftPositions (Prog (ms ! k))
       (ln + int (newlines (blob (take k ms))) - 1) (off + int (length (blob (take k ms))))\<rparr>"
  using assms
proof (induction ms arbitrary: ln off k)
  case (Cons m ms)
  { case 1 then show ?case using Cons(1) by (cases k) (auto simp: blob_def Let_def case_prod_unfold algebra_simps) }
  { case 2 then show ?case using Cons(2) by (cases k) (auto simp: blob_def Let_def case_prod_unfold algebra_simps) }
qed simp_all

lemma Link_text: "lk_SourceText (Link ms) = blob ms"
  using link_loop_text [of ms 1 0] by (auto simp: Link_def blob_def Let_def case_prod_unfold)

lemma Link_length: "length (Spans (Link ms)) = length ms" "length (lk_Modules (Link ms)) = length ms"
  using link_loop_length [of ms 1 0] by (auto simp: Link_def Let_def case_prod_unfold)

lemma Link_nth:
  assumes "k < length ms"
  shows "Spans (Link ms) ! k = \<lparr>span_Path = Display (ms ! k), StartLine = 1 + int (newlines (blob (take k ms)))\<rparr>"
    "lk_Modules (Link ms) ! k = (ms ! k)\<lparr>Prog := ShiftPositions (Prog (ms ! k))
       (int (newlines (blob (take k ms)))) (int (length (blob (take k ms))))\<rparr>"
  using link_loop_nth [OF assms, of 1 0] assms by (auto simp: Link_def Let_def case_prod_unfold)

lemma newlines_blob_mono: "i \<le> j \<Longrightarrow> newlines (blob (take i ms)) \<le> newlines (blob (take j ms))"
  by (metis blob_def concat_append le_Suc_ex le_add1 map_append newlines_append take_add)

text \<open>The linker keeps the contract of the lookups.\<close>

interpretation linked: module_spans "Spans (Link ms)" for ms
proof
  show "sorted (map StartLine (Spans (Link ms)))"
    by (auto simp: sorted_iff_nth_mono Link_length Link_nth newlines_blob_mono)
  show "1 \<le> StartLine s" if "s \<in> set (Spans (Link ms))" for s
    using that by (auto simp: in_set_conv_nth Link_length Link_nth)
qed

lemma advance_append: "advance p (s @ t) = advance (advance p s) t"
  by (simp add: advance_def)

lemma advance_Shift: "0 < Line p \<Longrightarrow> advance (Shift p (int a) off) t = Shift (advance p t) (int a) off"
  by (simp add: advance_closed Shift_def IsValid_def)

lemma advance_lines: "s = [] \<or> last s = newline \<Longrightarrow> advance file_start s = Shift file_start (int (newlines s)) (int (length s))"
  by (cases s rule: rev_cases) (auto simp: advance_closed Shift_def IsValid_def line_start_def)

lemma advance_rebased:
  "s = [] \<or> last s = newline \<Longrightarrow>
   advance file_start (s @ t) = Shift (advance file_start t) (int (newlines s)) (int (length s))"
  by (simp add: advance_append advance_lines advance_Shift)

lemma Range_Shift_zero: "Range_Shift r 0 0 = r"
  by (cases r) (simp add: Range_Shift_def Shift_def)

lemma ShiftPositions_node:
  "(n, r) \<in> set (NodePositions p) \<Longrightarrow> (n, Range_Shift r a b) \<in> set (NodePositions (ShiftPositions p a b))"
  by (auto simp: ShiftPositions_def Range_Shift_zero intro!: image_eqI [of _ _ "(n, r)"])

lemma blob_split: "k < length ms \<Longrightarrow> blob ms = blob (take k ms) @ chunk (Source (ms ! k)) @ blob (drop (Suc k) ms)"
  by (metis blob_def concat.simps(2) concat_append id_take_nth_drop list.map(2) map_append)

lemma chunk_take: "o1 < length s \<Longrightarrow> take o1 (chunk s @ t) = take o1 s \<and> (chunk s @ t) ! o1 = s ! o1 \<and> o1 < length (chunk s @ t)"
  by (auto simp: chunk_def nth_append)

text \<open>Two modules, the first without a line break at its end, and the program linked from them.\<close>

definition sample_util :: Module where
  "sample_util = \<lparr>mod_Path = ''/p/util.mut'', Display = ''util.mut'', Source = ''x'',
     Prog = \<lparr>NodePositions = [], Comments = [], MacroExpansions = []\<rparr>\<rparr>"

definition sample_main :: Module where
  "sample_main = \<lparr>mod_Path = ''/p/main.mut'', Display = ''main.mut'', Source = [CHR ''y'', newline, CHR ''z''],
     Prog = \<lparr>NodePositions = [(7, \<lparr>rng_Start = \<lparr>Line = 2, Column = 1, Offset = 2\<rparr>,
       rng_End = \<lparr>Line = 2, Column = 2, Offset = 3\<rparr>\<rparr>)], Comments = [], MacroExpansions = []\<rparr>\<rparr>"

definition sample_program :: ByteCode where
  "sample_program = \<lparr>Instructions = [1], Constants = [], StructDefs = [], EnumDefs = [], Version = 2, BuiltinNames = [],
     OpcodeMap = [], SourceFile = ''main.mut'', bc_LineTable = [], bc_MacroTable = [], bc_EndTable = [],
     SourceText = lk_SourceText (Link [sample_util, sample_main]), ModuleSpans = Spans (Link [sample_util, sample_main]),
     GlobalNames = []\<rparr>"

lemmas sample_defs = sample_util_def sample_main_def sample_program_def

lemmas sample_eval = Link_def chunk_def newlines_def ModuleAt_def ModuleLine_def moduleSpanFor_def entrySpan_def
  spanLastLine_def blobLineCount_def ModulesNamed_def Clean_def Base_def clean_step_def Let_def

section \<open>Properties\<close>

text \<open>
  C1: Linking keeps every position.  Take any module of a graph and a node whose recorded start is
  the position of some byte of that module's file.  In the linked program the same node's start is
  the exact line, column and offset of that same byte in the linked text, and looking its line up
  gives back the file and the line within it.
\<close>

theorem Link_positions:
  assumes "k < length ms" "(n, r) \<in> set (NodePositions (Prog (ms ! k)))" "i < length (Source (ms ! k))"
    "rng_Start r = advance file_start (take i (Source (ms ! k)))" "ModuleSpans b = Spans (Link ms)"
  shows "\<exists>r' at. (n, r') \<in> set (NodePositions (Prog (lk_Modules (Link ms) ! k))) \<and>
    at < length (lk_SourceText (Link ms)) \<and> lk_SourceText (Link ms) ! at = Source (ms ! k) ! i \<and>
    rng_Start r' = advance file_start (take at (lk_SourceText (Link ms))) \<and>
    ModuleAt (Some b) (Line (rng_Start r')) = Some (Display (ms ! k), Line (rng_Start r))"
proof -
  let ?p = "blob (take k ms)" let ?r = "Range_Shift r (int (newlines ?p)) (int (length ?p))"
  note c = chunk_take [OF assms(3), of "blob (drop (Suc k) ms)"]
  have node: "(n, ?r) \<in> set (NodePositions (Prog (lk_Modules (Link ms) ! k)))"
    using ShiftPositions_node [OF assms(2)] Link_nth(2) [OF assms(1)] by simp
  have start: "rng_Start ?r = advance file_start (take (length ?p + i) (blob ms))"
    using blob_split [OF assms(1)] c assms(4) advance_rebased [OF blob_ends] by (simp add: Range_Shift_def)
  have byte: "length ?p + i < length (blob ms)" "blob ms ! (length ?p + i) = Source (ms ! k) ! i"
    using blob_split [OF assms(1)] c by (simp_all add: nth_append)
  have ln: "Line (rng_Start r) = 1 + int (newlines (take i (Source (ms ! k))))"
    "Line (rng_Start ?r) = Line (rng_Start r) + int (newlines ?p)"
    using assms(4) by (simp_all add: Range_Shift_def advance_closed Shift_def IsValid_def)
  have "ModuleAt (Some b) (Line (rng_Start ?r)) = Some (span_Path (Spans (Link ms) ! k),
      Line (rng_Start ?r) - StartLine (Spans (Link ms) ! k) + 1)"
  proof (rule linked.ModuleAt_index [OF assms(5)])
    show "k < length (Spans (Link ms))" using assms(1) by (simp add: Link_length)
    show "StartLine (Spans (Link ms) ! k) \<le> Line (rng_Start ?r)" using ln assms(1) by (simp add: Link_nth)
    show "Line (rng_Start ?r) < StartLine (Spans (Link ms) ! (k + 1))" if "k + 1 < length (Spans (Link ms))"
      using that ln chunk_prefix [OF assms(3)]
      by (simp add: Link_length Link_nth take_Suc_conv_app_nth blob_def)
  qed
  then have "ModuleAt (Some b) (Line (rng_Start ?r)) = Some (Display (ms ! k), Line (rng_Start r))"
    using ln(2) assms(1) by (simp add: Link_nth)
  then show ?thesis using node start byte unfolding Link_text by blast
qed

theorem Link_positions_witness:
  "\<exists>r' at. (7, r') \<in> set (NodePositions (Prog (lk_Modules (Link [sample_util, sample_main]) ! 1))) \<and>
    at < length (lk_SourceText (Link [sample_util, sample_main])) \<and>
    lk_SourceText (Link [sample_util, sample_main]) ! at = CHR ''z'' \<and>
    rng_Start r' = advance file_start (take at (lk_SourceText (Link [sample_util, sample_main]))) \<and>
    ModuleAt (Some sample_program) (Line (rng_Start r')) = Some (''main.mut'', 2)"
proof -
  let ?ms = "[sample_util, sample_main]"
  let ?r = "\<lparr>rng_Start = \<lparr>Line = 2, Column = 1, Offset = 2\<rparr>, rng_End = \<lparr>Line = 2, Column = 2, Offset = 3\<rparr>\<rparr>"
  have "1 < length ?ms" "(7, ?r) \<in> set (NodePositions (Prog (?ms ! 1)))" "2 < length (Source (?ms ! 1))"
    "rng_Start ?r = advance file_start (take 2 (Source (?ms ! 1)))" "ModuleSpans sample_program = Spans (Link ?ms)"
    by (simp_all add: sample_defs advance_def advance_byte_def)
  from Link_positions [OF this] show ?thesis by (simp add: sample_main_def)
qed

text \<open>
  C8: A breakpoint lands in the file it names: for a linked program, when \<^verbatim>\<open>ModuleLine\<close> maps a file
  and a line to a line of the linked text, \<^verbatim>\<open>ModuleAt\<close> maps that line back to the module the path
  matched and to the same line of it, never into a neighbouring module.
\<close>

theorem ModuleLine_lands_in_file:
  assumes "ModuleSpans b = Spans (Link ms)" "ms \<noteq> []" "ModuleLine (Some b) path ln = Some at"
  shows "\<exists>k < length ms. moduleSpanFor b path = Some k \<and> ModuleAt (Some b) at = Some (Display (ms ! k), ln)"
proof -
  have ne: "ModuleSpans b \<noteq> []" using assms(1,2) Link_length(1) [of ms] by auto
  then obtain k where k: "moduleSpanFor b path = Some k" "0 < ln" "at = StartLine (ModuleSpans b ! k) + ln - 1"
    "spanLastLine b k = Some l \<Longrightarrow> at \<le> l" for l
    using assms(3) by (auto simp: ModuleLine_def Let_def split: if_splits option.splits)
  have len: "k < length (Spans (Link ms))" using moduleSpanFor_bound [OF k(1)] assms(1) by simp
  have "ModuleAt (Some b) at = Some (span_Path (Spans (Link ms) ! k), at - StartLine (Spans (Link ms) ! k) + 1)"
  proof (rule linked.ModuleAt_index [OF assms(1) len])
    show "StartLine (Spans (Link ms) ! k) \<le> at" using k(2,3) assms(1) by simp
    show "at < StartLine (Spans (Link ms) ! (k + 1))" if "k + 1 < length (Spans (Link ms))"
      using k(4) [of "StartLine (Spans (Link ms) ! (k + 1)) - 1"] that assms(1) by (simp add: spanLastLine_def)
  qed
  then show ?thesis using k(1,3) len assms(1) by (auto simp: Link_length Link_nth)
qed

theorem ModuleLine_lands_in_file_witness:
  "ModuleLine (Some sample_program) ''./util.mut'' 1 = Some 1 \<and> ModuleLine (Some sample_program) ''./util.mut'' 2 = None \<and>
   (\<exists>k < 2. moduleSpanFor sample_program ''./util.mut'' = Some k \<and>
      ModuleAt (Some sample_program) 1 = Some (Display ([sample_util, sample_main] ! k), 1))"
proof -
  have m: "ModuleLine (Some sample_program) ''./util.mut'' 1 = Some 1" by (simp add: sample_defs sample_eval)
  have n: "ModuleLine (Some sample_program) ''./util.mut'' 2 = None" by (simp add: sample_defs sample_eval)
  have "ModuleSpans sample_program = Spans (Link [sample_util, sample_main])" by (simp add: sample_program_def)
  from ModuleLine_lands_in_file [OF this _ m] n m show ?thesis by (simp add: numeral_2_eq_2)
qed

text \<open>
  C9: Every reported place can be asked for: for a linked program whose modules' cleaned paths are
  distinct, a line of the linked text that \<^verbatim>\<open>ModuleAt\<close> attributes to a named file and line is the
  line \<^verbatim>\<open>ModuleLine\<close> answers for them.
\<close>

theorem ModuleAt_ModuleLine:
  assumes "ModuleSpans b = Spans (Link ms)" "SourceText b = lk_SourceText (Link ms)"
    "distinct (map (\<lambda>m. Clean (Display m)) ms)" "ModuleAt (Some b) at = Some (path, ln)" "path \<noteq> ''''"
    "at \<le> blobLineCount (SourceText b)"
  shows "ModuleLine (Some b) path ln = Some at"
proof -
  from assms(4) have "span_at (rev (ModuleSpans b)) at = Some (path, ln)" and ne: "ModuleSpans b \<noteq> []"
    by (auto simp: ModuleAt_def split: if_splits)
  from span_at_found [OF this(1)] obtain k where k: "k < length (ModuleSpans b)" "StartLine (ModuleSpans b ! k) \<le> at"
    "k + 1 < length (ModuleSpans b) \<longrightarrow> at < StartLine (ModuleSpans b ! (k + 1))"
    "path = span_Path (ModuleSpans b ! k)" "ln = at - StartLine (ModuleSpans b ! k) + 1" by blast
  have len: "k < length ms" using k(1) assms(1) by (simp add: Link_length)
  have "first_index (\<lambda>s. Clean (span_Path s) = Clean path) (ModuleSpans b) = Some k"
  proof (rule first_index_first [OF k(1)])
    show "Clean (span_Path (ModuleSpans b ! k)) = Clean path" using k(4) by simp
    show "\<forall>j<k. Clean (span_Path (ModuleSpans b ! j)) \<noteq> Clean path"
      using assms(1,3) k(4) len by (auto simp: Link_nth distinct_conv_nth)
  qed
  then have "moduleSpanFor b path = Some k" using assms(5) by (simp add: moduleSpanFor_def)
  then show ?thesis using ne k assms(6) by (auto simp: ModuleLine_def spanLastLine_def Let_def)
qed

theorem ModuleAt_ModuleLine_witness:
  "ModuleAt (Some sample_program) 3 = Some (''main.mut'', 2) \<and> ModuleLine (Some sample_program) ''main.mut'' 2 = Some 3"
proof -
  have m: "ModuleAt (Some sample_program) 3 = Some (''main.mut'', 2)" by (simp add: sample_defs sample_eval)
  have "ModuleLine (Some sample_program) ''main.mut'' 2 = Some 3"
    by (rule ModuleAt_ModuleLine [where ms = "[sample_util, sample_main]"]) (simp_all add: sample_defs sample_eval)
  with m show ?thesis by simp
qed

lemma last_index_hit: "P (xs ! n) \<Longrightarrow> last_index P xs (Suc n) = Some n"
  by simp

text \<open>
  C14: A caller that names no file means the entry: for a linked program that carries the entry's
  path, the line asked for without a file is answered by a line of the linked text that belongs to the
  entry module, and every line the entry file has is answered.
\<close>

theorem entry_module_lines:
  assumes "ms \<noteq> []" "ModuleSpans b = Spans (Link ms)" "SourceFile b = EntryPath (Link ms)"
    "SourceText b = lk_SourceText (Link ms)" "1 \<le> ln" "ln \<le> int (newlines (chunk (Source (last ms))))"
  shows "\<exists>at. ModuleLine (Some b) '''' ln = Some at \<and> ModuleAt (Some b) at = Some (Display (last ms), ln)"
proof -
  let ?k = "length ms - 1"
  have k: "?k < length ms" "ms ! ?k = last ms" "Suc ?k = length ms" using assms(1) by (simp_all add: last_conv_nth)
  have ne: "ModuleSpans b \<noteq> []" using assms(1,2) Link_length(1) [of ms] by auto
  have "EntryPath (Link ms) = Display (last (lk_Modules (Link ms)))"
    using assms(1) by (simp add: Link_def Let_def case_prod_unfold)
  moreover have "last (lk_Modules (Link ms)) = lk_Modules (Link ms) ! ?k"
    using assms(1) Link_length(2) [of ms] by (subst last_conv_nth) auto
  ultimately have src: "SourceFile b = span_Path (ModuleSpans b ! ?k)"
    using assms(2,3) k by (simp add: Link_nth)
  have "moduleSpanFor b '''' = Some ?k"
    using ne src k(3) last_index_hit [of "\<lambda>s. Clean (span_Path s) = Clean (SourceFile b)" "ModuleSpans b" ?k] assms(2)
    by (auto simp: moduleSpanFor_def entrySpan_def Link_length split: option.splits)
  moreover have "blob ms = blob (take ?k ms) @ chunk (Source (last ms))"
    using blob_split [OF k(1)] k by (simp add: blob_def)
  moreover have "blobLineCount (blob ms) = int (newlines (blob ms))"
    using blob_ends [of ms] by (auto simp: blobLineCount_def)
  ultimately have "ModuleLine (Some b) '''' ln = Some (StartLine (ModuleSpans b ! ?k) + ln - 1)"
    using ne assms k by (auto simp: ModuleLine_def spanLastLine_def Link_length Link_nth Link_text Let_def)
  then show ?thesis using linked.ModuleAt_index [OF assms(2), of ?k "StartLine (ModuleSpans b ! ?k) + ln - 1"] assms k
    by (auto simp: Link_length Link_nth)
qed

theorem entry_module_lines_witness:
  "\<exists>at. ModuleLine (Some sample_program) '''' 2 = Some at \<and> ModuleAt (Some sample_program) at = Some (''main.mut'', 2)"
proof -
  have "\<exists>at. ModuleLine (Some sample_program) '''' 2 = Some at \<and>
      ModuleAt (Some sample_program) at = Some (Display (last [sample_util, sample_main]), 2)"
    by (rule entry_module_lines) (simp_all add: sample_defs sample_eval)
  then show ?thesis by (simp add: sample_main_def)
qed

text \<open>
  C22: The count that explains a refusal agrees with the match: for a named path, a span is found
  exactly when one module is counted, so a refusal is either no such file or more than one by that
  name.
\<close>

theorem ModulesNamed_agrees:
  assumes "path \<noteq> ''''"
  shows "(\<exists>i. moduleSpanFor b path = Some i) \<longleftrightarrow> ModulesNamed (Some b) path = 1"
proof (cases "first_index (\<lambda>s. Clean (span_Path s) = Clean path) (ModuleSpans b)")
  case None
  then have "\<not> (\<exists>s \<in> set (ModuleSpans b). Clean (span_Path s) = Clean path)" by (simp add: first_index_None)
  then show ?thesis using assms None base_scan_count [of "Base (Clean path)" 0 None "ModuleSpans b"]
    by (simp add: moduleSpanFor_def ModulesNamed_def Let_def)
next
  case (Some i)
  then have "\<exists>s \<in> set (ModuleSpans b). Clean (span_Path s) = Clean path" using first_index_bound [OF Some] by auto
  then show ?thesis using assms Some by (simp add: moduleSpanFor_def ModulesNamed_def Let_def)
qed

theorem ModulesNamed_agrees_witness:
  "(\<exists>i. moduleSpanFor sample_program ''/x/util.mut'' = Some i) \<and> ModulesNamed (Some sample_program) ''/x/util.mut'' = 1"
proof -
  have "ModulesNamed (Some sample_program) ''/x/util.mut'' = 1" by (simp add: sample_defs sample_eval)
  then show ?thesis using ModulesNamed_agrees [of "''/x/util.mut''" sample_program] by simp
qed







end
