(* ===== verification/LegacyRegistry.thy ===== *)
theory LegacyRegistry
  imports Values
begin

text \<open>
  Which release's library a program without a version was compiled for
  (\<^verbatim>\<open>src/compiler/legacy_registry.go\<close>): a reader for the first message of a gob stream.  Its
  counterpart, the encoding of a struct's type as the gob package documents it, is the reference the
  reader is checked against.  The reader is a record passed through every read; its first failure
  sticks.
\<close>

section \<open>The reader\<close>

datatype LegacyRegistry = LegacyRegistryV24 | LegacyRegistryV23

record gobReader =
  buf :: bytes
  off :: nat
  err :: "string option"

definition errGobTruncated :: string where
  "errGobTruncated = ''the stream ends inside its first message''"

definition fail :: "string \<Rightarrow> gobReader \<Rightarrow> gobReader" where
  "fail message r = (if err r = None then r\<lparr>err := Some message\<rparr> else r)"

definition be_value :: "bytes \<Rightarrow> nat" where
  "be_value bs = foldl (\<lambda>v c. v * 256 + unat c) 0 bs"

definition readUint :: "gobReader \<Rightarrow> nat \<times> gobReader" where
  "readUint r =
    (if err r \<noteq> None then (0, r)
     else if off r \<ge> length (buf r) then (0, r\<lparr>err := Some errGobTruncated\<rparr>)
     else let b = buf r ! off r; r = r\<lparr>off := off r + 1\<rparr> in
       if unat b < 0x80 then (unat b, r)
       else let n = nat (- sint b) in
         if n > 8 then (0, fail ''an unsigned integer in the stream is longer than eight bytes'' r)
         else if n > length (buf r) - off r then (0, r\<lparr>err := Some errGobTruncated\<rparr>)
         else (be_value (take n (drop (off r) (buf r))), r\<lparr>off := off r + n\<rparr>))"

definition readInt :: "gobReader \<Rightarrow> int \<times> gobReader" where
  "readInt r = (let (u, r) = readUint r in
     (if odd u then - int (u div 2) - 1 else int (u div 2), r))"

definition readString :: "gobReader \<Rightarrow> string \<times> gobReader" where
  "readString r =
    (let (n, r) = readUint r;
         r = (if err r = None \<and> n > length (buf r) - off r then r\<lparr>err := Some errGobTruncated\<rparr> else r)
     in if err r \<noteq> None then ('''', r)
        else (text_of_bytes (take n (drop (off r) (buf r))), r\<lparr>off := off r + n\<rparr>))"

definition gobWireFields :: nat where
  "gobWireFields = 7"

definition gobWireStructField :: int where
  "gobWireStructField = 2"

definition field :: "int \<Rightarrow> gobReader \<Rightarrow> int \<times> gobReader" where
  "field previous r =
    (let (delta, r) = readUint r in
     if err r \<noteq> None \<or> delta = 0 then (-1, r)
     else if delta > gobWireFields then (-1, fail ''a field number in the stream is out of range'' r)
     else (previous + int delta, r))"

text \<open>A read moves forward over the same bytes, and a field that is found has moved past its delta.\<close>

definition moved :: "gobReader \<Rightarrow> gobReader \<Rightarrow> bool" where
  "moved r r' \<longleftrightarrow> buf r' = buf r \<and> off r \<le> off r' \<and> (off r \<le> length (buf r) \<longrightarrow> off r' \<le> length (buf r))"

lemma moved_refl [simp]: "moved r r"
  by (simp add: moved_def)

lemma moved_trans: "moved r s \<Longrightarrow> moved s t \<Longrightarrow> moved r t"
  by (auto simp: moved_def)

lemma moved_fail [simp]: "moved r (fail m r') \<longleftrightarrow> moved r r'"
  by (simp add: moved_def fail_def)

lemma moved_readUint: "moved r (snd (readUint r))"
  by (auto simp: readUint_def moved_def fail_def Let_def)

lemma moved_readInt: "moved r (snd (readInt r))"
  using moved_readUint [of r] by (simp add: readInt_def Let_def case_prod_unfold)

lemma moved_readString: "moved r (snd (readString r))"
  using moved_readUint [of r] by (auto simp: readString_def moved_def Let_def case_prod_unfold)

lemma moved_field: "moved r (snd (field p r))"
  using moved_readUint [of r] by (auto simp: field_def Let_def case_prod_unfold)

lemma field_progress: "fst (field p r) \<noteq> -1 \<Longrightarrow> off r < off (snd (field p r)) \<and> off (snd (field p r)) \<le> length (buf r)"
  by (auto simp: field_def readUint_def fail_def Let_def case_prod_unfold split: if_splits)

lemma field_found: "0 \<le> fst (field p r) \<Longrightarrow> moved s r \<Longrightarrow>
  length (buf s) - off (snd (field p r)) < length (buf s) - off s"
  using field_progress [of p r] by (auto simp: moved_def)

definition loop_measure :: "int \<Rightarrow> gobReader \<Rightarrow> nat" where
  "loop_measure fd r = (if fd < 0 then 0 else Suc (length (buf r) - off r))"

lemma loop_measure_less:
  assumes "\<not> fd < 0" "moved s r" "field fd r = (fd', r')"
  shows "loop_measure fd' r' < loop_measure fd s"
  using assms(1,2) field_found [of fd r s] moved_field [of r fd] unfolding assms(3)
  by (auto simp: loop_measure_def moved_def)

definition nameAndID_arm :: "int \<Rightarrow> string \<Rightarrow> gobReader \<Rightarrow> string \<times> gobReader" where
  "nameAndID_arm fd name r =
    (if fd = 0 then readString r
     else if fd = 1 then (name, snd (readInt r))
     else (name, fail ''a type name in the stream has a field encoding/gob does not define'' r))"

lemma moved_nameAndID_arm: "moved r (snd (nameAndID_arm fd name r))"
  by (simp add: nameAndID_arm_def moved_readString moved_readInt)

function nameAndID_loop :: "int \<Rightarrow> string \<Rightarrow> gobReader \<Rightarrow> string \<times> gobReader" where
  "nameAndID_loop fd name r =
    (if fd < 0 then (name, r)
     else let (name, r) = nameAndID_arm fd name r; (fd, r) = field fd r in nameAndID_loop fd name r)"
  by pat_completeness auto
termination
proof (relation "measure (\<lambda>(fd, name, r). loop_measure fd r)", goal_cases)
  case (2 fd name r x name' r' y fd' r'')
  have "moved r r'" using 2(2,3) moved_nameAndID_arm [of r fd name] by (metis snd_conv)
  then show ?case using loop_measure_less [OF 2(1), of r r' fd' r''] 2(4,5) by simp
qed simp

declare nameAndID_loop.simps [simp del]

definition nameAndID :: "gobReader \<Rightarrow> string \<times> gobReader" where
  "nameAndID r = (let (fd, r) = field (-1) r in nameAndID_loop fd '''' r)"

lemma moved_nameAndID_loop: "moved r (snd (nameAndID_loop fd name r))"
proof (induction fd name r rule: nameAndID_loop.induct)
  case (1 fd name r)
  let ?a = "nameAndID_arm fd name r" let ?f = "field fd (snd ?a)"
  show ?case
  proof (cases "fd < 0")
    case True
    then show ?thesis by (subst nameAndID_loop.simps) simp
  next
    case False
    have "moved (snd ?f) (snd (nameAndID_loop (fst ?f) (fst ?a) (snd ?f)))"
      by (rule 1 [OF False HOL.refl prod.collapse HOL.refl prod.collapse])
    then have "moved r (snd (nameAndID_loop (fst ?f) (fst ?a) (snd ?f)))"
      using moved_trans [OF moved_trans [OF moved_nameAndID_arm moved_field]] by blast
    then show ?thesis using False by (subst nameAndID_loop.simps) (simp add: Let_def case_prod_unfold)
  qed
qed

lemma moved_nameAndID: "moved r (snd (nameAndID r))"
  using moved_trans [OF moved_field moved_nameAndID_loop] by (simp add: nameAndID_def Let_def case_prod_unfold)

text \<open>The names of the counted elements, as long as nothing has failed.\<close>

fun names_loop :: "nat \<Rightarrow> string list \<Rightarrow> gobReader \<Rightarrow> string list \<times> gobReader" where
  "names_loop 0 fs r = (fs, r)"
| "names_loop (Suc n) fs r =
    (if err r \<noteq> None then (fs, r)
     else let (name, r) = nameAndID r in names_loop n (fs @ [name]) r)"

lemma moved_names_loop: "moved r (snd (names_loop n fs r))"
proof (induction n arbitrary: fs r)
  case (Suc n)
  then show ?case using moved_trans [OF moved_nameAndID Suc] by (simp add: Let_def case_prod_unfold)
qed simp

definition structType_arm :: "int \<Rightarrow> string \<times> string list \<Rightarrow> gobReader \<Rightarrow> (string \<times> string list) \<times> gobReader" where
  "structType_arm fd nf r =
    (if fd = 0 then (let (name, r) = nameAndID r in ((name, snd nf), r))
     else if fd = 1 then
       (let (n, r) = readUint r;
            r = (if err r = None \<and> n > length (buf r) - off r then r\<lparr>err := Some errGobTruncated\<rparr> else r);
            (fs, r) = (if err r = None then names_loop n (snd nf) r else (snd nf, r))
        in ((fst nf, fs), r))
     else (nf, fail ''a struct type in the stream has a field encoding/gob does not define'' r))"

lemma moved_err: "moved r (s\<lparr>err := e\<rparr>) \<longleftrightarrow> moved r s"
  by (simp add: moved_def)

lemma moved_structType_arm: "moved r (snd (structType_arm fd nf r))"
  using moved_readUint [of r] moved_nameAndID [of r] moved_trans [OF moved_readUint [of r] moved_names_loop]
  by (simp add: structType_arm_def moved_err Let_def case_prod_unfold)

function structType_loop :: "int \<Rightarrow> string \<times> string list \<Rightarrow> gobReader \<Rightarrow> (string \<times> string list) \<times> gobReader" where
  "structType_loop fd nf r =
    (if fd < 0 then (nf, r)
     else let (nf, r) = structType_arm fd nf r; (fd, r) = field fd r in structType_loop fd nf r)"
  by pat_completeness auto
termination
proof (relation "measure (\<lambda>(fd, nf, r). loop_measure fd r)", goal_cases)
  case (2 fd nf r x nf' r' y fd' r'')
  have "moved r r'" using 2(2,3) moved_structType_arm [of r fd nf] by (metis snd_conv)
  then show ?case using loop_measure_less [OF 2(1), of r r' fd' r''] 2(4,5) by simp
qed simp

declare structType_loop.simps [simp del]

definition structType :: "gobReader \<Rightarrow> (string \<times> string list) \<times> gobReader" where
  "structType r = (let (fd, r) = field (-1) r in structType_loop fd ('''', []) r)"

lemma moved_structType_loop: "moved r (snd (structType_loop fd nf r))"
proof (induction fd nf r rule: structType_loop.induct)
  case (1 fd nf r)
  let ?a = "structType_arm fd nf r" let ?f = "field fd (snd ?a)"
  show ?case
  proof (cases "fd < 0")
    case True
    then show ?thesis by (subst structType_loop.simps) simp
  next
    case False
    have "moved (snd ?f) (snd (structType_loop (fst ?f) (fst ?a) (snd ?f)))"
      by (rule 1 [OF False HOL.refl prod.collapse HOL.refl prod.collapse])
    then have "moved r (snd (structType_loop (fst ?f) (fst ?a) (snd ?f)))"
      using moved_trans [OF moved_trans [OF moved_structType_arm moved_field]] by blast
    then show ?thesis using False by (subst structType_loop.simps) (simp add: Let_def case_prod_unfold)
  qed
qed

lemma moved_structType: "moved r (snd (structType r))"
  using moved_trans [OF moved_field moved_structType_loop] by (simp add: structType_def Let_def case_prod_unfold)

section \<open>The first message\<close>

text \<open>The loop over the wire type: the struct's name and field names, and whether one was found.\<close>

function wire_loop :: "int \<Rightarrow> (string \<times> string list) option \<Rightarrow> gobReader \<Rightarrow> (string \<times> string list) option \<times> gobReader" where
  "wire_loop fd found r =
    (if fd < 0 then (found, r)
     else if fd \<noteq> gobWireStructField then (found, fail ''the stream's first type is not a struct'' r)
     else let (nf, r) = structType r; (fd, r) = field fd r in wire_loop fd (Some nf) r)"
  by pat_completeness auto
termination
proof (relation "measure (\<lambda>(fd, found, r). loop_measure fd r)", goal_cases)
  case (2 fd found r x nf' r' y fd' r'')
  have "moved r r'" using 2(3,4) moved_structType [of r] by (metis snd_conv)
  then show ?case using loop_measure_less [OF 2(1), of r r' fd' r''] 2(5,6) by simp
qed simp

declare wire_loop.simps [simp del]

definition gobLeadingStruct :: "bytes \<Rightarrow> string + string \<times> string list" where
  "gobLeadingStruct stream =
    (let (size, outer) = readUint \<lparr>buf = stream, off = 0, err = None\<rparr>;
         outer = (if err outer = None \<and> size > length (buf outer) - off outer then outer\<lparr>err := Some errGobTruncated\<rparr>
                  else outer)
     in case err outer of
       Some e \<Rightarrow> Inl e
     | None \<Rightarrow>
         let (id, msg) = readInt \<lparr>buf = take size (drop (off outer) (buf outer)), off = 0, err = None\<rparr> in
         if err msg = None \<and> id \<ge> 0 then Inl ''the stream does not begin with a type definition''
         else let (fd, msg) = field (-1) msg; (found, msg) = wire_loop fd None msg in
           (case err msg of
              Some e \<Rightarrow> Inl e
            | None \<Rightarrow> (case found of
                  None \<Rightarrow> Inl ''the stream's first type is not a struct''
                | Some nf \<Rightarrow> Inr nf)))"

datatype registry_error =
    TypeUnreadable string
  | NotByteCode string

definition byteCodeTypeName :: string where
  "byteCodeTypeName = ''ByteCode''"

definition opcodeMapFieldName :: string where
  "opcodeMapFieldName = ''OpcodeMap''"

definition LegacyRegistryOf :: "bytes \<Rightarrow> registry_error + LegacyRegistry" where
  "LegacyRegistryOf stream =
    (case gobLeadingStruct stream of
       Inl e \<Rightarrow> Inl (TypeUnreadable e)
     | Inr (name, fs) \<Rightarrow>
         if name \<noteq> byteCodeTypeName then Inl (NotByteCode name)
         else if opcodeMapFieldName \<in> set fs then Inr LegacyRegistryV24 else Inr LegacyRegistryV23)"

section \<open>The documented encoding\<close>

text \<open>
  An unsigned integer is one byte below 0x80, or the negated count of its big-endian bytes and those
  bytes; a signed one carries its sign in bit 0; a struct is pairs of a field delta and a value, zero
  values left out, closed by a zero.
\<close>

fun be_bytes :: "nat \<Rightarrow> bytes" where
  "be_bytes n = (if n = 0 then [] else be_bytes (n div 256) @ [byte_of_nat n])"

declare be_bytes.simps [simp del]

definition enc_uint :: "nat \<Rightarrow> bytes" where
  "enc_uint n = (if n < 128 then [byte_of_nat n] else byte_of_nat (256 - length (be_bytes n)) # be_bytes n)"

definition enc_int :: "int \<Rightarrow> bytes" where
  "enc_int i = enc_uint (if i < 0 then nat (- i - 1) * 2 + 1 else nat i * 2)"

definition enc_string :: "string \<Rightarrow> bytes" where
  "enc_string s = enc_uint (length s) @ map (\<lambda>c. byte_of_nat (of_char c)) s"

fun enc_name_id :: "string \<times> int \<Rightarrow> bytes" where
  "enc_name_id (name, i) =
    (if name = '''' then [] else 1 # enc_string name) @
    (if i = 0 then [] else (if name = '''' then 2 else 1) # enc_int i) @ [0]"

definition enc_struct :: "string \<times> int \<Rightarrow> (string \<times> int) list \<Rightarrow> bytes" where
  "enc_struct common fs = 1 # enc_name_id common @
     (if fs = [] then [] else 1 # enc_uint (length fs) @ concat (map enc_name_id fs)) @ [0]"

definition enc_definition :: "int \<Rightarrow> string \<times> int \<Rightarrow> (string \<times> int) list \<Rightarrow> bytes" where
  "enc_definition i common fs = enc_int i @ 3 # enc_struct common fs @ [0]"

definition enc_message :: "int \<Rightarrow> string \<times> int \<Rightarrow> (string \<times> int) list \<Rightarrow> bytes" where
  "enc_message i common fs = enc_uint (length (enc_definition i common fs)) @ enc_definition i common fs"

lemma be_value_snoc: "be_value (bs @ [b]) = be_value bs * 256 + unat b"
  by (simp add: be_value_def)

lemma be_value_be_bytes: "be_value (be_bytes n) = n"
proof (induction n rule: be_bytes.induct)
  case (1 n)
  then show ?case by (subst be_bytes.simps) (auto simp: be_value_snoc be_value_def [of "[]"])
qed

lemma length_be_bytes: "n < 256 ^ k \<Longrightarrow> length (be_bytes n) \<le> k"
proof (induction k arbitrary: n)
  case (Suc k)
  have "n div 256 < 256 ^ k" using Suc.prems by (simp add: less_mult_imp_div_less mult.commute)
  then show ?case using Suc.IH by (subst be_bytes.simps) simp
qed (simp add: be_bytes.simps)

lemma be_bytes_Nil: "be_bytes n = [] \<longleftrightarrow> n = 0"
  by (subst be_bytes.simps) simp

lemma count_byte:
  assumes "0 < k" "k \<le> 8"
  shows "nat (- sint (byte_of_nat (256 - k))) = k" "128 \<le> unat (byte_of_nat (256 - k))"
proof -
  have "k \<in> {1, 2, 3, 4, 5, 6, 7, 8}" using assms by auto
  then show "nat (- sint (byte_of_nat (256 - k))) = k" "128 \<le> unat (byte_of_nat (256 - k))" by auto
qed

section \<open>Reading the encoding back\<close>

text \<open>The reader has not failed and stands before the bytes \<open>s\<close>.\<close>

definition before :: "bytes \<Rightarrow> gobReader \<Rightarrow> bool" where
  "before s r \<longleftrightarrow> err r = None \<and> off r \<le> length (buf r) \<and> drop (off r) (buf r) = s"

lemma before_length: "before s r \<Longrightarrow> length (buf r) - off r = length s"
  by (auto simp: before_def)

lemma before_advance: "before (xs @ s) r \<Longrightarrow> n = length xs \<Longrightarrow> before s (r\<lparr>off := off r + n\<rparr>)"
proof -
  assume h: "before (xs @ s) r" "n = length xs"
  have "drop (off r + n) (buf r) = drop n (drop (off r) (buf r))" by (simp add: add.commute)
  also have "\<dots> = s" using h by (simp only: before_def) simp
  finally have "drop (off r + n) (buf r) = s" .
  moreover have "off r + n \<le> length (buf r)" using before_length [OF h(1)] h unfolding before_def length_append by linarith
  ultimately show "before s (r\<lparr>off := off r + n\<rparr>)" using h by (simp add: before_def)
qed

lemma before_hd: "before (b # s) r \<Longrightarrow> off r < length (buf r) \<and> buf r ! off r = b"
  using drop_ConsD [of "off r" "buf r" b s] by (auto simp: before_def)

lemma readUint_enc:
  assumes "before (enc_uint n @ s) r" "n < 2 ^ 64"
  obtains r' where "readUint r = (n, r')" "before s r'"
proof (cases "n < 128")
  case True
  then have b: "before (byte_of_nat n # s) r" using assms(1) by (simp add: enc_uint_def)
  then have "readUint r = (n, r\<lparr>off := off r + 1\<rparr>)" using before_hd [OF b] True
    by (auto simp: readUint_def before_def Let_def)
  then show thesis using that before_advance [of "[byte_of_nat n]" s r 1] b by simp
next
  case False
  let ?k = "length (be_bytes n)" let ?b = "byte_of_nat (256 - ?k)" let ?r = "r\<lparr>off := off r + 1\<rparr>"
  have k: "0 < ?k" "?k \<le> 8" using False length_be_bytes [of n 8] assms(2) by (simp_all add: be_bytes_Nil)
  note c = count_byte [OF k]
  have b: "before (?b # be_bytes n @ s) r" using assms(1) False by (simp add: enc_uint_def)
  have b1: "before (be_bytes n @ s) ?r" using before_advance [of "[?b]" _ r 1] b by simp
  have "readUint r = (n, ?r\<lparr>off := off ?r + ?k\<rparr>)"
    using before_hd [OF b] before_length [OF b1] b b1 c k
    by (simp add: readUint_def before_def Let_def be_value_be_bytes del: of_nat_diff)
  then show thesis using that before_advance [OF b1] by simp
qed

lemma readInt_enc:
  assumes "before (enc_int i @ s) r" "int64 i"
  obtains r' where "readInt r = (i, r')" "before s r'"
proof -
  let ?u = "if i < 0 then nat (- i - 1) * 2 + 1 else nat i * 2"
  have u: "?u < 2 ^ 64" using assms(2) by (auto simp: int64_def)
  obtain r' where "readUint r = (?u, r')" "before s r'"
    using readUint_enc [OF assms(1) [unfolded enc_int_def] u] by blast
  then show thesis using that by (auto simp: readInt_def)
qed

lemma text_of_bytes_inverse: "text_of_bytes (map (\<lambda>c. byte_of_nat (of_char c)) s) = s"
  by (simp add: text_of_bytes_def comp_def map_idI)

lemma readString_enc:
  assumes "before (enc_string t @ s) r" "length t < 2 ^ 64"
  obtains r' where "readString r = (t, r')" "before s r'"
proof -
  let ?b = "map (\<lambda>c. byte_of_nat (of_char c)) t"
  obtain r1 where r1: "readUint r = (length t, r1)" "before (?b @ s) r1"
    using readUint_enc [of "length t" "?b @ s" r] assms by (auto simp: enc_string_def)
  then have "readString r = (t, r1\<lparr>off := off r1 + length t\<rparr>)"
    using before_length [OF r1(2)] by (simp add: readString_def before_def text_of_bytes_inverse)
  then show thesis using that before_advance [OF r1(2)] by simp
qed

lemma field_enc:
  assumes "before (byte_of_nat d # s) r" "d \<le> 7"
  obtains r' where "field p r = (if d = 0 then -1 else p + int d, r')" "before s r'"
proof -
  obtain r' where "readUint r = (d, r')" "before s r'"
    using readUint_enc [of d s r] assms by (auto simp: enc_uint_def)
  moreover from this have "field p r = (if d = 0 then -1 else p + int d, r')"
    using assms(2) by (auto simp: field_def before_def gobWireFields_def)
  ultimately show thesis using that by blast
qed

text \<open>A name and a number that a stream can carry.\<close>

definition encodable :: "string \<times> int \<Rightarrow> bool" where
  "encodable p \<longleftrightarrow> length (fst p) < 2 ^ 64 \<and> int64 (snd p)"

lemma nameAndID_loop_end: "nameAndID_loop (-1) name r = (name, r)"
  by (subst nameAndID_loop.simps) simp

lemma nameAndID_loop_id:
  assumes "before ((if i = 0 then [] else byte_of_nat d # enc_int i) @ 0 # s) r" "int64 i" "p + int d = 1" "d \<le> 7" "0 < d"
  obtains r1 r2 fd where "field p r = (fd, r1)" "nameAndID_loop fd name r1 = (name, r2)" "before s r2"
proof (cases "i = 0")
  case True
  then obtain r1 where "field p r = (-1, r1)" "before s r1" using assms(1) field_enc [of 0 s r p] by auto
  then show thesis using that nameAndID_loop_end by blast
next
  case False
  then obtain r1 where r1: "field p r = (1, r1)" "before (enc_int i @ 0 # s) r1"
    using assms field_enc [of d "enc_int i @ 0 # s" r p] by auto
  obtain r2 where r2: "readInt r1 = (i, r2)" "before (0 # s) r2" using readInt_enc [OF r1(2) assms(2)] by blast
  obtain r3 where r3: "field 1 r2 = (-1, r3)" "before s r3" using field_enc [of 0 s r2 1] r2(2) by auto
  have "nameAndID_loop 1 name r1 = (name, r3)"
    using r2 r3 nameAndID_loop_end by (subst nameAndID_loop.simps) (simp add: nameAndID_arm_def)
  then show thesis using that r1(1) r3(2) by blast
qed

lemma nameAndID_enc:
  assumes "before (enc_name_id p @ s) r" "encodable p"
  obtains r' where "nameAndID r = (fst p, r')" "before s r'"
proof -
  obtain name i where p: "p = (name, i)" by (cases p)
  have i: "int64 i" and n: "length name < 2 ^ 64" using assms(2) by (simp_all add: p encodable_def)
  show thesis
  proof (cases "name = ''''")
    case True
    then have "before ((if i = 0 then [] else byte_of_nat 2 # enc_int i) @ 0 # s) r"
      using assms(1) True by (cases "i = 0") (simp_all add: p)
    then obtain r1 r2 fd where "field (-1) r = (fd, r1)" "nameAndID_loop fd '''' r1 = ('''', r2)" "before s r2"
      by (rule nameAndID_loop_id [where d = 2 and p = "-1", OF _ i]) auto
    moreover from this have "nameAndID r = (fst p, r2)" using True by (simp add: nameAndID_def p)
    ultimately show thesis using that by blast
  next
    case False
    let ?s = "(if i = 0 then [] else byte_of_nat 1 # enc_int i) @ 0 # s"
    have "before (byte_of_nat 1 # enc_string name @ ?s) r" using assms(1) False by (cases "i = 0") (simp_all add: p)
    then obtain r1 where r1: "field (-1) r = (0, r1)" "before (enc_string name @ ?s) r1"
      using field_enc [of 1 "enc_string name @ ?s" r "-1"] by auto
    obtain r2 where r2: "readString r1 = (name, r2)" "before ?s r2" using readString_enc [OF r1(2) n] by blast
    obtain r3 r4 fd where r3: "field 0 r2 = (fd, r3)" "nameAndID_loop fd name r3 = (name, r4)" "before s r4"
      by (rule nameAndID_loop_id [OF r2(2) i]) simp_all
    have "nameAndID_loop 0 '''' r1 = (name, r4)"
      using r2 r3 by (subst nameAndID_loop.simps) (simp add: nameAndID_arm_def)
    then have "nameAndID r = (fst p, r4)" using r1(1) by (simp add: nameAndID_def p)
    then show thesis using that r3(3) by blast
  qed
qed

lemma names_loop_enc:
  assumes "before (concat (map enc_name_id ps) @ s) r" "list_all encodable ps"
  shows "\<exists>r'. names_loop (length ps) fs r = (fs @ map fst ps, r') \<and> before s r'"
  using assms
proof (induction ps arbitrary: fs r)
  case (Cons p ps)
  obtain r1 where r1: "nameAndID r = (fst p, r1)" "before (concat (map enc_name_id ps) @ s) r1"
    using nameAndID_enc [of p "concat (map enc_name_id ps) @ s" r] Cons.prems by auto
  obtain r2 where r2: "names_loop (length ps) (fs @ [fst p]) r1 = ((fs @ [fst p]) @ map fst ps, r2)" "before s r2"
    using Cons.IH [OF r1(2), of "fs @ [fst p]"] Cons.prems(2) by (auto simp del: append_assoc)
  have "err r = None" using Cons.prems(1) by (simp add: before_def)
  then show ?case using r1 r2 by simp
qed simp

lemma enc_name_id_length: "Suc 0 \<le> length (enc_name_id p)"
  by (cases p) simp

lemma count_fits: "length ps \<le> length (concat (map enc_name_id ps))"
proof (induction ps)
  case (Cons p ps)
  then show ?case using enc_name_id_length [of p] unfolding list.map concat.simps length_append list.size by linarith
qed simp

lemma structType_loop_end: "structType_loop (-1) nf r = (nf, r)"
  by (subst structType_loop.simps) simp

lemma structType_fields:
  assumes "before (enc_uint (length ps) @ concat (map enc_name_id ps) @ 0 # s) r" "list_all encodable ps"
    "length ps < 2 ^ 64"
  shows "\<exists>r'. structType_loop 1 (name, []) r = ((name, map fst ps), r') \<and> before s r'"
proof -
  obtain r1 where r1: "readUint r = (length ps, r1)" "before (concat (map enc_name_id ps) @ 0 # s) r1"
    using readUint_enc [OF assms(1,3)] by blast
  obtain r2 where r2: "names_loop (length ps) [] r1 = (map fst ps, r2)" "before (0 # s) r2"
    using names_loop_enc [OF r1(2) assms(2), of "[]"] by auto
  obtain r3 where r3: "field 1 r2 = (-1, r3)" "before s r3" using field_enc [of 0 s r2 1] r2(2) by auto
  have "\<not> length (buf r1) - off r1 < length ps" "err r1 = None"
    using before_length [OF r1(2)] count_fits [of ps] r1(2) by (simp_all add: before_def)
  then have "structType_arm 1 (name, []) r = ((name, map fst ps), r2)"
    using r1(1) r2(1) by (simp add: structType_arm_def)
  then have "structType_loop 1 (name, []) r = ((name, map fst ps), r3)"
    using r3 structType_loop_end by (subst structType_loop.simps) simp
  then show ?thesis using r3(2) by blast
qed

lemma structType_enc:
  assumes "before (enc_struct p ps @ s) r" "encodable p" "list_all encodable ps" "length ps < 2 ^ 64"
  shows "\<exists>r'. structType r = ((fst p, map fst ps), r') \<and> before s r'"
proof -
  let ?f = "(if ps = [] then [] else 1 # enc_uint (length ps) @ concat (map enc_name_id ps)) @ 0 # s"
  obtain r1 where r1: "field (-1) r = (0, r1)" "before (enc_name_id p @ ?f) r1"
    using field_enc [of 1 "enc_name_id p @ ?f" r "-1"] assms(1) by (auto simp: enc_struct_def)
  obtain r2 where r2: "nameAndID r1 = (fst p, r2)" "before ?f r2" using nameAndID_enc [OF r1(2) assms(2)] by blast
  have "\<exists>fd r3 r4. field 0 r2 = (fd, r3) \<and> structType_loop fd (fst p, []) r3 = ((fst p, map fst ps), r4) \<and> before s r4"
  proof (cases "ps = []")
    case True
    then obtain r3 where "field 0 r2 = (-1, r3)" "before s r3" using field_enc [of 0 s r2 0] r2(2) by auto
    then show ?thesis using True structType_loop_end by auto
  next
    case False
    let ?g = "enc_uint (length ps) @ concat (map enc_name_id ps) @ 0 # s"
    obtain r3 where "field 0 r2 = (1, r3)" "before ?g r3" using field_enc [of 1 ?g r2 0] r2(2) False by auto
    then show ?thesis using structType_fields [OF _ assms(3,4)] by blast
  qed
  then obtain fd r3 r4 where r4: "field 0 r2 = (fd, r3)" "structType_loop fd (fst p, []) r3 = ((fst p, map fst ps), r4)"
    "before s r4" by blast
  have "structType_loop 0 ('''', []) r1 = ((fst p, map fst ps), r4)"
    using r2(1) r4 by (subst structType_loop.simps) (simp add: structType_arm_def)
  then show ?thesis using r1(1) r4(3) by (simp add: structType_def)
qed

lemma wire_loop_end: "wire_loop (-1) found r = (found, r)"
  by (subst wire_loop.simps) simp

lemma gobLeadingStruct_enc:
  assumes "i < 0" "int64 i" "encodable p" "list_all encodable ps" "length (enc_definition i p ps) < 2 ^ 64"
  shows "gobLeadingStruct (enc_message i p ps @ rest) = Inr (fst p, map fst ps)"
proof -
  let ?d = "enc_definition i p ps" let ?o = "\<lparr>buf = enc_message i p ps @ rest, off = 0, err = None\<rparr>"
  let ?m = "\<lparr>buf = ?d, off = 0, err = None\<rparr>"
  have "before (enc_uint (length ?d) @ ?d @ rest) ?o" by (simp add: before_def enc_message_def)
  then obtain o1 where o1: "readUint ?o = (length ?d, o1)" "before (?d @ rest) o1"
    using readUint_enc [OF _ assms(5)] by blast
  have "before (enc_int i @ 3 # enc_struct p ps @ [0]) ?m" by (simp add: before_def enc_definition_def)
  then obtain m1 where m1: "readInt ?m = (i, m1)" "before (3 # enc_struct p ps @ [0]) m1"
    using readInt_enc [OF _ assms(2)] by blast
  obtain m2 where m2: "field (-1) m1 = (2, m2)" "before (enc_struct p ps @ [0]) m2"
    using field_enc [of 3 "enc_struct p ps @ [0]" m1 "-1"] m1(2) by auto
  have "length ps < 2 ^ 64"
    using assms(5) count_fits [of ps] by (auto simp: enc_definition_def enc_struct_def split: if_splits)
  then obtain m3 where m3: "structType m2 = ((fst p, map fst ps), m3)" "before [0] m3"
    using structType_enc [OF m2(2) assms(3,4)] by blast
  obtain m4 where m4: "field 2 m3 = (-1, m4)" "before [] m4" using field_enc [of 0 "[]" m3 2] m3(2) by auto
  have "wire_loop 2 None m2 = (Some (fst p, map fst ps), m4)"
    using m3(1) m4(1) wire_loop_end by (subst wire_loop.simps) (simp add: gobWireStructField_def)
  moreover have "err m4 = None" "err o1 = None" "take (length ?d) (drop (off o1) (buf o1)) = ?d"
    "\<not> length (buf o1) - off o1 < length ?d"
    using m4(2) o1(2) before_length [OF o1(2)] by (simp_all add: before_def)
  ultimately show ?thesis using o1(1) m1(1) m2(1) assms(1) by (simp add: gobLeadingStruct_def)
qed

lemma readUint_prefix:
  assumes "k < length (enc_uint n)" "n < 2 ^ 64"
  shows "err (snd (readUint \<lparr>buf = take k (enc_uint n), off = 0, err = None\<rparr>)) = Some errGobTruncated"
proof (cases "n < 128")
  case True
  then show ?thesis using assms(1) by (simp add: enc_uint_def readUint_def)
next
  case False
  let ?k = "length (be_bytes n)" let ?b = "byte_of_nat (256 - ?k)"
  have c: "0 < ?k" "?k \<le> 8" using False length_be_bytes [of n 8] assms(2) by (simp_all add: be_bytes_Nil)
  note b = count_byte [OF c]
  show ?thesis
  proof (cases k)
    case (Suc m)
    have e: "take k (enc_uint n) = ?b # take m (be_bytes n)" using False Suc by (simp add: enc_uint_def)
    have m: "m < ?k" using assms(1) False Suc by (simp add: enc_uint_def)
    show ?thesis unfolding e using b c m by (simp add: readUint_def Let_def del: of_nat_diff)
  qed (simp add: readUint_def)
qed

section \<open>Properties\<close>

text \<open>
  C11: The release is told exactly.  For every stream that begins with the definition of the type
  \<open>ByteCode\<close> in gob's documented encoding, whatever its fields and whatever follows the first
  message, the program is read as one of v2.4 if and only if the type declares \<open>OpcodeMap\<close>; and a
  stream that begins with another type is refused by that type's name.
\<close>

theorem LegacyRegistryOf_exact:
  assumes "i < 0" "int64 i" "encodable (name, j)" "list_all encodable ps"
    "length (enc_definition i (name, j) ps) < 2 ^ 64"
  shows "LegacyRegistryOf (enc_message i (name, j) ps @ rest) =
    (if name \<noteq> ''ByteCode'' then Inl (NotByteCode name)
     else if ''OpcodeMap'' \<in> fst ` set ps then Inr LegacyRegistryV24 else Inr LegacyRegistryV23)"
  using gobLeadingStruct_enc [OF assms, of rest]
  by (simp add: LegacyRegistryOf_def byteCodeTypeName_def opcodeMapFieldName_def)

theorem LegacyRegistryOf_exact_witness:
  "LegacyRegistryOf (enc_message (-65) (''ByteCode'', 65) [(''OpcodeMap'', 5)] @ [9, 9]) = Inr LegacyRegistryV24 \<and>
   LegacyRegistryOf (enc_message (-65) (''ByteCode'', 65) [] @ [9, 9]) = Inr LegacyRegistryV23"
proof -
  note enc = encodable_def int64_def enc_definition_def enc_struct_def enc_int_def enc_string_def enc_uint_def be_bytes.simps
  show ?thesis
    using LegacyRegistryOf_exact [of "-65" "''ByteCode''" 65 "[(''OpcodeMap'', 5)]" "[9, 9]"]
      LegacyRegistryOf_exact [of "-65" "''ByteCode''" 65 "[]" "[9, 9]"]
    by (simp add: enc)
qed

text \<open>
  C23: A stream cut inside its first message is refused and never guessed at: every proper prefix of
  such a message, the empty stream included, gives the truncation error.
\<close>

theorem truncated_stream_refused:
  assumes "k < length (enc_message i p ps)" "length (enc_definition i p ps) < 2 ^ 64"
  shows "LegacyRegistryOf (take k (enc_message i p ps)) = Inl (TypeUnreadable errGobTruncated)"
proof -
  let ?d = "enc_definition i p ps" let ?u = "enc_uint (length ?d)"
  let ?o = "\<lparr>buf = take k (enc_message i p ps), off = 0, err = None\<rparr>"
  have "gobLeadingStruct (take k (enc_message i p ps)) = Inl errGobTruncated"
  proof (cases "k < length ?u")
    case True
    then have "take k (enc_message i p ps) = take k ?u" by (simp add: enc_message_def)
    then have "err (snd (readUint ?o)) = Some errGobTruncated" using readUint_prefix [OF True assms(2)] by simp
    then show ?thesis by (simp add: gobLeadingStruct_def Let_def case_prod_unfold)
  next
    case False
    let ?t = "take (k - length ?u) ?d"
    have "before (?u @ ?t) ?o" using False by (simp add: before_def enc_message_def)
    then obtain o1 where o1: "readUint ?o = (length ?d, o1)" "before ?t o1" using readUint_enc [OF _ assms(2)] by blast
    have "length ?t < length ?d" using assms(1) False by (simp add: enc_message_def)
    then have "length (buf o1) - off o1 < length ?d" "err o1 = None"
      using before_length [OF o1(2)] o1(2) by (simp_all add: before_def)
    then show ?thesis using o1(1) by (simp add: gobLeadingStruct_def)
  qed
  then show ?thesis by (simp add: LegacyRegistryOf_def)
qed

theorem truncated_stream_refused_witness:
  "LegacyRegistryOf (take 5 (enc_message (-65) (''ByteCode'', 65) [])) = Inl (TypeUnreadable errGobTruncated)"
proof (rule truncated_stream_refused)
  note enc = enc_message_def enc_definition_def enc_struct_def enc_int_def enc_string_def enc_uint_def be_bytes.simps
  show "5 < length (enc_message (-65) (''ByteCode'', 65) [])" by (simp add: enc)
  show "length (enc_definition (-65) (''ByteCode'', 65) []) < 2 ^ 64" by (simp add: enc)
qed

end
