(* ===== verification/Environment.thy ===== *)
theory Environment
  imports Objects
begin

text \<open>
  The scopes of the tree-walking interpreter (\<^verbatim>\<open>src/object/environment.go\<close>).  Scopes are shared: a
  closure keeps the scope it was made in, and an update through one is seen through all.  So they live
  in a heap, a list in which a scope's address is its index, and \<^verbatim>\<open>outer\<close> is an address or nil.  The
  walks outward may in principle run forever on a cyclic heap, where their value is \<open>None\<close>; on every
  heap the operations can build they return.
\<close>

record Environment =
  store :: "(string \<times> object) list"
  outer :: "nat option"
  macroExpansion :: bool

type_synonym heap = "Environment list"

fun store_set :: "string \<Rightarrow> object \<Rightarrow> (string \<times> object) list \<Rightarrow> (string \<times> object) list" where
  "store_set n v [] = [(n, v)]"
| "store_set n v ((k, w) # s) = (if k = n then (k, v) # s else (k, w) # store_set n v s)"

definition NewEnvironment :: "heap \<Rightarrow> nat \<times> heap" where
  "NewEnvironment h = (length h, h @ [\<lparr>store = [], outer = None, macroExpansion = False\<rparr>])"

definition NewEnclosedEnvironement :: "nat option \<Rightarrow> heap \<Rightarrow> nat \<times> heap" where
  "NewEnclosedEnvironement out h =
    (let (e, h') = NewEnvironment h; h' = h'[e := (h' ! e)\<lparr>outer := out\<rparr>]
     in case out of
       None \<Rightarrow> (e, h')
     | Some p \<Rightarrow> (e, h'[e := (h' ! e)\<lparr>macroExpansion := macroExpansion (h' ! p)\<rparr>]))"

definition NewMacroExpansionEnvironment :: "nat option \<Rightarrow> heap \<Rightarrow> nat \<times> heap" where
  "NewMacroExpansionEnvironment out h =
    (let (e, h') = NewEnclosedEnvironement out h in (e, h'[e := (h' ! e)\<lparr>macroExpansion := True\<rparr>]))"

definition InMacroExpansion :: "heap \<Rightarrow> nat option \<Rightarrow> bool" where
  "InMacroExpansion h e = (case e of None \<Rightarrow> False | Some a \<Rightarrow> macroExpansion (h ! a))"

partial_function (option) Get :: "heap \<Rightarrow> nat \<Rightarrow> string \<Rightarrow> object option option" where
  "Get h e n = (case map_of (store (h ! e)) n of
      Some v \<Rightarrow> Some (Some v)
    | None \<Rightarrow> (case outer (h ! e) of None \<Rightarrow> Some None | Some p \<Rightarrow> Get h p n))"

definition Set :: "heap \<Rightarrow> nat \<Rightarrow> string \<Rightarrow> object \<Rightarrow> heap" where
  "Set h e n v = h[e := (h ! e)\<lparr>store := store_set n v (store (h ! e))\<rparr>]"

partial_function (option) Update :: "heap \<Rightarrow> nat \<Rightarrow> string \<Rightarrow> object \<Rightarrow> (heap \<times> bool) option" where
  "Update h e n v = (case map_of (store (h ! e)) n of
      Some _ \<Rightarrow> Some (Set h e n v, True)
    | None \<Rightarrow> (case outer (h ! e) of None \<Rightarrow> Some (h, False) | Some p \<Rightarrow> Update h p n v))"

partial_function (option) keys_loop :: "heap \<Rightarrow> nat option \<Rightarrow> string list \<Rightarrow> string list option" where
  "keys_loop h current seen = (case current of
      None \<Rightarrow> Some seen
    | Some e \<Rightarrow> keys_loop h (outer (h ! e)) (seen @ map fst (store (h ! e))))"

definition Keys :: "heap \<Rightarrow> nat \<Rightarrow> string list option" where
  "Keys h e = map_option (\<lambda>seen. sort (remdups seen)) (keys_loop h (Some e) [])"

section \<open>The heaps that can be built\<close>

inductive env_reach :: "heap \<Rightarrow> bool" where
  empty: "env_reach []"
| new: "env_reach h \<Longrightarrow> env_reach (snd (NewEnvironment h))"
| enclosed: "env_reach h \<Longrightarrow> (\<And>p. out = Some p \<Longrightarrow> p < length h) \<Longrightarrow> env_reach (snd (NewEnclosedEnvironement out h))"
| macro: "env_reach h \<Longrightarrow> (\<And>p. out = Some p \<Longrightarrow> p < length h) \<Longrightarrow> env_reach (snd (NewMacroExpansionEnvironment out h))"
| set: "env_reach h \<Longrightarrow> e < length h \<Longrightarrow> env_reach (Set h e n v)"
| update: "env_reach h \<Longrightarrow> e < length h \<Longrightarrow> Update h e n v = Some (h', ok) \<Longrightarrow> env_reach h'"

text \<open>A scope is made after the one around it, and a mark on the outer one is on the inner one.\<close>

definition env_inv :: "heap \<Rightarrow> bool" where
  "env_inv h \<longleftrightarrow> (\<forall>e p. e < length h \<longrightarrow> outer (h ! e) = Some p \<longrightarrow>
     p < e \<and> (macroExpansion (h ! p) \<longrightarrow> macroExpansion (h ! e)))"

inductive within :: "heap \<Rightarrow> nat \<Rightarrow> nat \<Rightarrow> bool" for h where
  here: "within h e e"
| out: "outer (h ! e) = Some p \<Longrightarrow> within h p q \<Longrightarrow> within h e q"

lemma env_invD: "env_inv h \<Longrightarrow> e < length h \<Longrightarrow> outer (h ! e) = Some p \<Longrightarrow>
  p < e \<and> p < length h \<and> (macroExpansion (h ! p) \<longrightarrow> macroExpansion (h ! e))"
  unfolding env_inv_def by fastforce

lemma env_inv_snoc:
  assumes "env_inv h" "\<And>p. outer x = Some p \<Longrightarrow> p < length h \<and> (macroExpansion (h ! p) \<longrightarrow> macroExpansion x)"
  shows "env_inv (h @ [x])"
  unfolding env_inv_def
proof (intro allI impI)
  fix e p
  assume h: "e < length (h @ [x])" "outer ((h @ [x]) ! e) = Some p"
  show "p < e \<and> (macroExpansion ((h @ [x]) ! p) \<longrightarrow> macroExpansion ((h @ [x]) ! e))"
  proof (cases "e < length h")
    case True
    then show ?thesis using h env_invD [OF assms(1) True] by (auto simp: nth_append)
  next
    case False
    then have "e = length h" using h(1) by simp
    then show ?thesis using h(2) assms(2) by (auto simp: nth_append)
  qed
qed

lemma NewEnclosed_heap:
  "(\<And>p. out = Some p \<Longrightarrow> p < length h) \<Longrightarrow> NewEnclosedEnvironement out h =
    (length h, h @ [\<lparr>store = [], outer = out, macroExpansion = (case out of None \<Rightarrow> False | Some p \<Rightarrow> macroExpansion (h ! p))\<rparr>])"
  by (cases out) (auto simp: NewEnclosedEnvironement_def NewEnvironment_def nth_append)

lemma NewMacro_heap:
  "(\<And>p. out = Some p \<Longrightarrow> p < length h) \<Longrightarrow> NewMacroExpansionEnvironment out h =
    (length h, h @ [\<lparr>store = [], outer = out, macroExpansion = True\<rparr>])"
  by (simp add: NewMacroExpansionEnvironment_def NewEnclosed_heap)

lemma Set_fields [simp]: "length (Set h e n v) = length h" "outer (Set h e n v ! i) = outer (h ! i)"
  "macroExpansion (Set h e n v ! i) = macroExpansion (h ! i)"
  by (cases "i = e \<and> e < length h"; auto simp: Set_def nth_list_update list_update_beyond)+

lemma Set_other: "q \<noteq> e \<Longrightarrow> store (Set h q n v ! e) = store (h ! e)"
  by (simp add: Set_def)

lemma env_inv_Set: "env_inv h \<Longrightarrow> env_inv (Set h e n v)"
  by (simp add: env_inv_def)

lemma map_of_store_set: "map_of (store_set n v s) = (map_of s)(n \<mapsto> v)"
  by (induction n v s rule: store_set.induct) auto

text \<open>The scope a name is bound in, seen from a scope: the first one outward that holds it.\<close>

inductive bound_in :: "heap \<Rightarrow> nat \<Rightarrow> string \<Rightarrow> nat \<Rightarrow> bool" for h where
  here: "map_of (store (h ! e)) n \<noteq> None \<Longrightarrow> bound_in h e n e"
| outward: "map_of (store (h ! e)) n = None \<Longrightarrow> outer (h ! e) = Some p \<Longrightarrow> bound_in h p n q \<Longrightarrow> bound_in h e n q"

inductive_cases bound_in_elim: "bound_in h e n q"

lemma bound_in_holds: "bound_in h e n q \<Longrightarrow> map_of (store (h ! q)) n \<noteq> None"
  by (induction rule: bound_in.induct) auto

lemma bound_in_unique: "bound_in h e n q \<Longrightarrow> bound_in h e n q' \<Longrightarrow> q = q'"
proof (induction arbitrary: q' rule: bound_in.induct)
  case (here e n)
  from here(2) show ?case by (rule bound_in_elim) (use here(1) in simp_all)
next
  case (outward e n p q)
  from outward.prems show ?case
  proof (rule bound_in_elim)
    show "q = q'" if "outer (h ! e) = Some p'" "bound_in h p' n q'" for p'
    proof -
      have "p' = p" using that(1) outward.hyps(2) by simp
      then show ?thesis using outward.IH that(2) by blast
    qed
  qed (use outward.hyps(1) in simp)
qed

lemma bound_in_valid: "bound_in h e n q \<Longrightarrow> env_inv h \<Longrightarrow> e < length h \<Longrightarrow> q < length h"
  by (induction rule: bound_in.induct) (auto dest: env_invD)

lemma Get_bound: "bound_in h e n q \<Longrightarrow> Get h e n = Some (map_of (store (h ! q)) n)"
proof (induction rule: bound_in.induct)
  case (here e n)
  then show ?case by (subst Get.simps) auto
next
  case (outward e n p q)
  then show ?case by (subst Get.simps) simp
qed

lemma Get_unbound: "env_inv h \<Longrightarrow> e < length h \<Longrightarrow> \<nexists>q. bound_in h e n q \<Longrightarrow> Get h e n = Some None"
proof (induction e rule: less_induct)
  case (less e)
  have none: "map_of (store (h ! e)) n = None" using less.prems(3) bound_in.here by blast
  show ?case
  proof (cases "outer (h ! e)")
    case None
    then show ?thesis using none by (subst Get.simps) simp
  next
    case (Some p)
    then have "p < e" "p < length h" "\<nexists>q. bound_in h p n q"
      using env_invD [OF less.prems(1,2)] less.prems(3) bound_in.outward [OF none] by blast+
    then show ?thesis using less.IH less.prems(1) none Some by (subst Get.simps) simp
  qed
qed

lemma Update_bound: "bound_in h e n q \<Longrightarrow> Update h e n v = Some (Set h q n v, True)"
proof (induction rule: bound_in.induct)
  case (here e n)
  then show ?case by (subst Update.simps) auto
next
  case (outward e n p q)
  then show ?case by (subst Update.simps) simp
qed

lemma Update_unbound: "env_inv h \<Longrightarrow> e < length h \<Longrightarrow> \<nexists>q. bound_in h e n q \<Longrightarrow> Update h e n v = Some (h, False)"
proof (induction e rule: less_induct)
  case (less e)
  have none: "map_of (store (h ! e)) n = None" using less.prems(3) bound_in.here by blast
  show ?case
  proof (cases "outer (h ! e)")
    case None
    then show ?thesis using none by (subst Update.simps) simp
  next
    case (Some p)
    then have "p < e" "p < length h" "\<nexists>q. bound_in h p n q"
      using env_invD [OF less.prems(1,2)] less.prems(3) bound_in.outward [OF none] by blast+
    then show ?thesis using less.IH less.prems(1) none Some by (subst Update.simps) simp
  qed
qed

text \<open>Writing a name where it is bound moves no binding.\<close>

lemma store_Set: "q < length h \<Longrightarrow> map_of (store (Set h q n v ! i)) = (if i = q then (map_of (store (h ! q)))(n \<mapsto> v) else map_of (store (h ! i)))"
  by (simp add: Set_def map_of_store_set)

lemma bound_in_Set:
  assumes "q < length h" "map_of (store (h ! q)) n \<noteq> None"
  shows "bound_in (Set h q n v) e k i \<longleftrightarrow> bound_in h e k i"
proof
  have none: "map_of (store (Set h q n v ! i)) k = None \<longleftrightarrow> map_of (store (h ! i)) k = None" for i k
    using assms by (auto simp: store_Set)
  show "bound_in h e k i" if "bound_in (Set h q n v) e k i"
    using that
  proof (induction rule: bound_in.induct)
    case (here e k)
    then show ?case unfolding none by (rule bound_in.here)
  next
    case (outward e k p i)
    then show ?case using bound_in.outward [of h e k p i] by (simp add: none)
  qed
  show "bound_in (Set h q n v) e k i" if "bound_in h e k i"
    using that
  proof (induction rule: bound_in.induct)
    case (here e k)
    then show ?case unfolding none [symmetric] by (rule bound_in.here)
  next
    case (outward e k p i)
    then show ?case using bound_in.outward [of "Set h q n v" e k p i] by (simp add: none)
  qed
qed

lemma Get_Set:
  assumes "env_inv h" "q < length h" "map_of (store (h ! q)) n \<noteq> None" "e < length h"
  shows "Get (Set h q n v) e k = (if k = n \<and> bound_in h e n q then Some (Some v) else Get h e k)"
proof (cases "\<exists>i. bound_in h e k i")
  case True
  then obtain i where i: "bound_in h e k i" by blast
  then have "Get (Set h q n v) e k = Some (map_of (store (Set h q n v ! i)) k)"
    using Get_bound bound_in_Set [OF assms(2,3)] by blast
  moreover have "bound_in h e k q \<longleftrightarrow> i = q" using i bound_in_unique by blast
  ultimately show ?thesis using Get_bound [OF i] assms(2) by (auto simp: store_Set)
next
  case False
  then have "Get (Set h q n v) e k = Some None"
    using assms bound_in_Set [OF assms(2,3)] by (intro Get_unbound) (simp_all add: env_inv_Set)
  then show ?thesis using False Get_unbound [OF assms(1,4)] by auto
qed

lemma env_reach_inv: "env_reach h \<Longrightarrow> env_inv h"
proof (induction rule: env_reach.induct)
  case (update h e n v h' ok)
  show ?case
  proof (cases "\<exists>q. bound_in h e n q")
    case True
    then obtain q where "bound_in h e n q" by blast
    then have "h' = Set h q n v" using Update_bound update.hyps(3) by fastforce
    then show ?thesis using env_inv_Set [OF update.IH] by simp
  next
    case False
    then have "h' = h" using Update_unbound [OF update.IH update.hyps(2)] update.hyps(3) by fastforce
    then show ?thesis using update.IH by simp
  qed
qed (auto simp: NewEnvironment_def NewEnclosed_heap NewMacro_heap env_inv_Set env_inv_def [of "[]"] intro!: env_inv_snoc
    split: option.splits)

lemma within_marked: "within h e q \<Longrightarrow> env_inv h \<Longrightarrow> e < length h \<Longrightarrow> macroExpansion (h ! q) \<Longrightarrow> macroExpansion (h ! e)"
  by (induction rule: within.induct) (auto dest: env_invD)

lemma keys_loop_returns:
  "env_inv h \<Longrightarrow> e < length h \<Longrightarrow>
   \<exists>ks. keys_loop h (Some e) seen = Some ks \<and> (\<forall>n. n \<in> set ks \<longleftrightarrow> n \<in> set seen \<or> Get h e n \<noteq> Some None)"
proof (induction e arbitrary: seen rule: less_induct)
  case (less e)
  let ?s = "seen @ map fst (store (h ! e))"
  have own: "n \<in> fst ` set (store (h ! e)) \<longleftrightarrow> map_of (store (h ! e)) n \<noteq> None" for n
    by (simp add: map_of_eq_None_iff)
  show ?case
  proof (cases "outer (h ! e)")
    case None
    then have "keys_loop h (Some e) seen = Some ?s" by (simp add: keys_loop.simps)
    moreover have "Get h e n \<noteq> Some None \<longleftrightarrow> map_of (store (h ! e)) n \<noteq> None" for n
      using None by (subst Get.simps) (auto split: option.splits)
    ultimately show ?thesis using own by auto
  next
    case (Some p)
    then have "p < e" "p < length h" using env_invD [OF less.prems] by auto
    then obtain ks where ks: "keys_loop h (Some p) ?s = Some ks"
      "\<And>n. n \<in> set ks \<longleftrightarrow> n \<in> set ?s \<or> Get h p n \<noteq> Some None" using less.IH less.prems(1) by blast
    have "keys_loop h (Some e) seen = Some ks" using Some ks(1) by (subst keys_loop.simps) simp
    moreover have "Get h e n \<noteq> Some None \<longleftrightarrow> map_of (store (h ! e)) n \<noteq> None \<or> Get h p n \<noteq> Some None" for n
      using Some by (subst Get.simps) (auto split: option.splits)
    ultimately show ?thesis using ks(2) own by auto
  qed
qed

text \<open>
  C13: Assigning to a variable writes the one scope that defines it, and everything that shares the
  scope sees it.  In every heap the operations can build, lookup and update return.  If the name is
  bound, in some scope \<open>q\<close> outward of \<open>e\<close>, the lookup reads it there, and after the update exactly those scopes from which the
  name is bound in \<open>q\<close> read the new value, and every other lookup, of any name from any scope, is what
  it was.  If it is bound nowhere, the update says so and the heap is unchanged.
\<close>

theorem Update_writes_defining_scope:
  assumes "env_reach h" "e < length h"
  shows "(\<exists>q h'. bound_in h e n q \<and> Get h e n = Some (map_of (store (h ! q)) n) \<and> Update h e n v = Some (h', True) \<and>
      (\<forall>e' k. e' < length h \<longrightarrow>
         Get h' e' k = (if k = n \<and> bound_in h e' n q then Some (Some v) else Get h e' k))) \<or>
    (\<nexists>q. bound_in h e n q) \<and> Get h e n = Some None \<and> Update h e n v = Some (h, False)"
proof (cases "\<exists>q. bound_in h e n q")
  case True
  then obtain q where q: "bound_in h e n q" by blast
  have inv: "env_inv h" using env_reach_inv [OF assms(1)] .
  show ?thesis
    using q Get_bound [OF q] Update_bound [OF q, of v] Get_Set [OF inv bound_in_valid [OF q inv assms(2)] bound_in_holds [OF q]] by blast
next
  case False
  then show ?thesis using Get_unbound Update_unbound env_reach_inv [OF assms(1)] assms(2) by blast
qed

text \<open>A block inside a function's scope, and a closure beside it: three scopes, the outer one defines \<open>x\<close>.\<close>

definition example_scopes :: heap where
  "example_scopes = snd (NewEnclosedEnvironement (Some 0) (snd (NewEnclosedEnvironement (Some 0)
     (Set (snd (NewEnvironment [])) 0 ''x'' Null))))"

lemma example_scopes_heap: "env_reach example_scopes" "length example_scopes = 3"
proof -
  let ?g = "snd (NewEnvironment [])"
  have "length ?g = 1" by (simp add: NewEnvironment_def)
  moreover from this have "env_reach (Set ?g 0 ''x'' Null)" using env_reach.set [OF env_reach.new [OF env_reach.empty]] by simp
  ultimately show "env_reach example_scopes" unfolding example_scopes_def
    by (intro env_reach.enclosed) (auto simp: NewEnclosedEnvironement_def NewEnvironment_def)
  show "length example_scopes = 3"
    by (simp add: example_scopes_def NewEnvironment_def NewEnclosedEnvironement_def)
qed

theorem Update_writes_defining_scope_witness:
  "\<exists>h'. Update example_scopes 1 ''x'' (Boolean True) = Some (h', True) \<and> Get h' 2 ''x'' = Some (Some (Boolean True))"
proof -
  let ?h = example_scopes
  have l: "1 < length ?h" "2 < length ?h" by (simp_all add: example_scopes_heap)
  have s: "map_of (store (?h ! 0)) ''x'' \<noteq> None" "map_of (store (?h ! 1)) ''x'' = None" "map_of (store (?h ! 2)) ''x'' = None"
    "outer (?h ! 1) = Some 0" "outer (?h ! 2) = Some 0" by code_simp+
  have b: "bound_in ?h 1 ''x'' 0" "bound_in ?h 2 ''x'' 0"
    by (rule bound_in.outward [OF s(2,4) bound_in.here [OF s(1)]], rule bound_in.outward [OF s(3,5) bound_in.here [OF s(1)]])
  from Update_writes_defining_scope [OF example_scopes_heap(1) l(1), of "''x''" "Boolean True"] b(1)
  obtain q h' where q: "bound_in ?h 1 ''x'' q" "Update ?h 1 ''x'' (Boolean True) = Some (h', True)"
    "\<And>e' k. e' < length ?h \<Longrightarrow> Get h' e' k = (if k = ''x'' \<and> bound_in ?h e' ''x'' q then Some (Some (Boolean True)) else Get ?h e' k)"
    by blast
  have "q = 0" using bound_in_unique [OF q(1) b(1)] .
  then show ?thesis using q(2) q(3) [OF l(2)] b(2) by auto
qed

text \<open>
  C28: Nothing that runs inside a macro's expansion can leave it: in every heap the operations can
  build, a scope that lies within a marked one, at any depth, is marked, so the refusal of builtins
  that are not safe there reaches functions, loops and closures the macro body defines.
\<close>

theorem macro_mark_inherited:
  assumes "env_reach h" "e < length h" "within h e q" "InMacroExpansion h (Some q)"
  shows "InMacroExpansion h (Some e)"
  using within_marked [OF assms(3) env_reach_inv [OF assms(1)] assms(2)] assms(4) by (simp add: InMacroExpansion_def)

theorem macro_mark_inherited_witness:
  "\<exists>h. env_reach h \<and> length h = 3 \<and> InMacroExpansion h (Some 0) \<and> InMacroExpansion h (Some 2)"
proof -
  let ?g = "snd (NewMacroExpansionEnvironment None [])"
  let ?f = "snd (NewEnclosedEnvironement (Some 0) ?g)" let ?h = "snd (NewEnclosedEnvironement (Some 1) ?f)"
  have l: "length ?g = 1" "length ?f = 2" "length ?h = 3" by code_simp+
  have g: "env_reach ?g" by (rule env_reach.macro [OF env_reach.empty]) simp
  have f: "env_reach ?f" by (rule env_reach.enclosed [OF g]) (simp add: l)
  have h: "env_reach ?h" by (rule env_reach.enclosed [OF f]) (simp add: l)
  have o: "outer (?h ! 2) = Some 1" "outer (?h ! 1) = Some 0" and m: "InMacroExpansion ?h (Some 0)" by code_simp+
  have "within ?h 2 0" by (rule within.out [OF o(1) within.out [OF o(2) within.here]])
  from macro_mark_inherited [OF h _ this m] h m l(3) show ?thesis by auto
qed

text \<open>
  C29: \<^verbatim>\<open>Keys\<close> lists, in order and once each, exactly the names a lookup from the scope finds, and
  it returns in every heap the operations can build.
\<close>

theorem Keys_exact:
  assumes "env_reach h" "e < length h"
  shows "\<exists>ks. Keys h e = Some ks \<and> sorted ks \<and> distinct ks \<and> (\<forall>n. n \<in> set ks \<longleftrightarrow> (\<exists>v. Get h e n = Some (Some v)))"
proof -
  have inv: "env_inv h" using env_reach_inv [OF assms(1)] .
  have "Get h e n \<noteq> Some None \<longleftrightarrow> (\<exists>v. Get h e n = Some (Some v))" for n
    using Get_bound Get_unbound [OF inv assms(2)] bound_in_holds by (cases "\<exists>q. bound_in h e n q") fastforce+
  then show ?thesis using keys_loop_returns [OF inv assms(2), of "[]"] by (auto simp: Keys_def)
qed

theorem Keys_exact_witness: "\<exists>ks. Keys example_scopes 2 = Some ks \<and> ''x'' \<in> set ks"
proof -
  have s: "map_of (store (example_scopes ! 0)) ''x'' = Some Null" "map_of (store (example_scopes ! 2)) ''x'' = None"
    "outer (example_scopes ! 2) = Some 0" by code_simp+
  then have "bound_in example_scopes 2 ''x'' 0" by (intro bound_in.outward [OF s(2,3)] bound_in.here) simp
  then have "Get example_scopes 2 ''x'' = Some (Some Null)" using Get_bound s(1) by fastforce
  then show ?thesis using Keys_exact [OF example_scopes_heap(1), of 2] example_scopes_heap(2) by auto
qed

end
