(* ===== verification/Spec2Isabelle.thy ===== *)
theory Spec2Isabelle
  imports Prelude Bytecode LineTable Float64 Utf8 Sha256 Objects Indexing Numeric Values Polymorphic SymbolTable Token Lexer
    LexerProps Formatter Modules LegacyRegistry Environment
begin

text \<open>
  A verification library for Mutant, a scripting language with a lexer, a compiler to bytecode, a
  stack machine and a polymorphic build step, written in Go.

  \<^bold>\<open>The program.\<close>  Source text is cut into tokens (\<^verbatim>\<open>src/lexer\<close>, \<^verbatim>\<open>src/token\<close>), parsed to a tree
  (\<^verbatim>\<open>src/parser\<close>, \<^verbatim>\<open>src/ast\<close>) and compiled (\<^verbatim>\<open>src/compiler\<close>) to instruction streams
  (\<^verbatim>\<open>src/code\<close>) with a constant pool of values (\<^verbatim>\<open>src/object\<close>).  Names are resolved by the
  compiler's symbol table.  Line tables beside each stream map an instruction back to the source.
  Before a program is written out, the polymorphic engine pads its streams, shuffles its constants
  and permutes its opcodes; the machine (\<^verbatim>\<open>src/vm\<close>) undoes the permutation as it runs.

  \<^bold>\<open>Theories, in dependency order.\<close>

  \<^item> \<open>Prelude\<close>: bytes, big-endian halves, 64-bit wrap-around, decimal printing, total
    correctness of loops, and the list lemmas the components share.
  \<^item> \<open>Bytecode\<close> (\<^verbatim>\<open>code/code.go\<close>): opcodes, the definitions table, \<open>Make\<close>, \<open>ReadOperands\<close> and the
    disassembler.  An operand that fits is read back as written; \<open>Make\<close> panics exactly on operands
    that do not fit; the disassembler returns on every decodable stream and provably runs forever on
    a stream with an undefined byte.  \<open>chunks\<close> is the reference view of a stream as instructions.
  \<^item> \<open>LineTable\<close> (\<^verbatim>\<open>code/linetable.go\<close>, \<^verbatim>\<open>code/lineindex.go\<close>): delta-encoded position tables, their
    builder, lookup, remapping and reverse index, each against a reference list of entries.
  \<^item> \<open>Float64\<close>, \<open>Utf8\<close>, \<open>Sha256\<close>: the parts of Go's arithmetic and standard library the code
    relies on: binary64 as bit patterns with exact rounding, rune decoding from both ends, and the
    digest behind byte-string hash keys.
  \<^item> \<open>Objects\<close>, \<open>Indexing\<close>, \<open>Numeric\<close>, \<open>Values\<close> (\<^verbatim>\<open>src/object\<close>): values, index resolution,
    operators on numbers, which on integers are those of 64-bit words, and the types of their
    results, the exact order between integers and floats, hash keys and their order, printing, equality, and iterators.
  \<^item> \<open>Polymorphic\<close> (\<^verbatim>\<open>compiler/polymorphic.go\<close>): the engine.  The source of randomness is an
    arbitrary stream of draws and every theorem holds for all of them.  The locale
    \<open>opcode_permutation\<close> states what the rewriting relies on, and is interpreted on the tables the
    engine builds.  The shuffle of the constants keeps the meaning of every stream, in the program
    and in the functions of the pool.
  \<^item> \<open>SymbolTable\<close> (\<^verbatim>\<open>compiler/symbol_table.go\<close>): tables as the list from the innermost outward.
    The inductive predicate \<open>reach\<close> generates every state the compiler's calls can build, and its
    invariants give lexical scoping, boxing of captures, block restoration, and distinct slots for
    all live variables, those an open block displaced included.
  \<^item> \<open>Token\<close>, \<open>Lexer\<close> (\<^verbatim>\<open>token/token.go\<close>, \<^verbatim>\<open>lexer/lexer.go\<close>): the whole lexer with string literals,
    templates and positions.  \<open>LexerProps\<close> has its theorems: the cursor's invariant, that positions
    are exact in every reachable state, that every scanning loop returns, that each token makes
    progress, and that draining the lexer reaches the end of the file.
  \<^item> \<open>Formatter\<close> (\<^verbatim>\<open>lsp/internal/server/formatter.go\<close>): the printer of string values, and that the
    lexer reads back every value it prints.
  \<^item> \<open>Modules\<close> (\<^verbatim>\<open>module/link.go\<close>, \<^verbatim>\<open>ast/shift.go\<close>, \<^verbatim>\<open>compiler/compiler.go\<close>): linking of modules into one
    text with rebased positions, the lookups between that text and the files, and the removal of
    debug information, which keeps exactly what running the program needs.  The locale \<open>module_spans\<close> states what the lookups need of the spans and is
    interpreted on what the linker builds.
  \<^item> \<open>LegacyRegistry\<close> (\<^verbatim>\<open>compiler/legacy_registry.go\<close>): the reader that tells, from the first message of
    a gob stream, which release compiled a program without a version.  It is checked against gob's
    documented encoding of a struct's type, and refuses every stream cut inside that message.
  \<^item> \<open>Environment\<close> (\<^verbatim>\<open>object/environment.go\<close>): the interpreter's scopes in a heap.  The walks outward are
    partial functions, and return on every heap the operations can build; an assignment writes the
    defining scope and is seen by exactly the scopes that share it.

  \<^bold>\<open>Conventions.\<close>  A Go string is a list of characters, one a byte.  An \<^verbatim>\<open>int\<close> that never leaves
  the 64-bit range by construction is an \<open>int\<close> or \<open>nat\<close>; arithmetic on program values wraps with
  \<open>wrap64\<close>.  A Go map is an association list, or a function where nothing ranges over it.  A panic
  or an error is a value of a sum or option type.  Loops recurse structurally or under a measure.
  Those whose end is a theorem about the program, the scanning loops of the lexer, the walks outward
  through scopes and the disassembler, are partial functions into option, where None is a run that
  never ends; \<open>returns\<close> in \<open>Prelude\<close> is total correctness for them.  No definition has fuel.

  \<^bold>\<open>Not modelled.\<close>  The parser, the syntax trees and the code generator that walks them, the
  dispatch loop of the machine, whose values are stored encrypted and which calls the library, the
  tree-walking evaluator, the semantic graph, the library functions, and everything that is input and
  output: the command line, the servers, storage, signing and encryption.  In values, syntax trees
  appear as their printed text.
\<close>

end
